(* ===== verification/Prelude.thy ===== *)
theory Prelude
  imports Main "HOL-Library.Word"
begin

text \<open>
  Shared vocabulary of the development: the machine integer types of
  \<^verbatim>\<open>src/src/types.h\<close>, the error numbers of \<^verbatim>\<open>src/include/indevos_errno.h\<close> and the
  result type of fallible kernel routines, the counting loop with an early exit
  (\<open>scan\<close>) that the table searches of the kernel are written with, the copy of a
  block of bytes into a buffer (\<open>blit\<close>, the effect of \<^verbatim>\<open>memcpy(dst + off, src, n)\<close>),
  circular index arithmetic, and the lemma collections the component proofs use.
\<close>

section \<open>Machine integers\<close>

type_synonym u8 = "8 word"
type_synonym u16 = "16 word"
type_synonym u32 = "32 word"
type_synonym u64 = "64 word"

named_theorems scan_facts "characterisations of searches through fixed tables"
named_theorems blit_facts "reading back a buffer after a block copy"

lemma unat_u32_less: "unat (w :: u32) < 4294967296"
  using unsigned_less [of w, where ?'a = nat] by simp

lemma unat_u64_less: "unat (w :: u64) < 18446744073709551616"
  using unsigned_less [of w, where ?'a = nat] by simp

lemma unat_u16_less: "unat (w :: u16) < 65536"
  using unsigned_less [of w, where ?'a = nat] by simp

section \<open>Error numbers and results\<close>

text \<open>
  A kernel routine returns a non-negative value or the negation of one of these. \<open>FAIL\<close>
  stands for the bare \<open>-1\<close> that a few routines return without naming an errno.
\<close>

datatype errno =
    EPERM | ENOENT | EIO | EBADF | EAGAIN | ENOMEM | EACCES | EFAULT | EBUSY | EEXIST | EXDEV
  | ENODEV | ENOTDIR | EISDIR | EINVAL | ENFILE | ENOTTY | EFBIG | ENOSPC | EROFS | EPIPE
  | ENAMETOOLONG | ENOSYS | ENOTEMPTY | ELOOP | EDESTADDRREQ | EMSGSIZE | EADDRINUSE | FAIL

type_synonym 'a res = "errno + 'a"

fun errno_code :: "errno \<Rightarrow> int" where
  "errno_code EPERM = 1"
| "errno_code ENOENT = 2"
| "errno_code EIO = 5"
| "errno_code EBADF = 9"
| "errno_code EAGAIN = 11"
| "errno_code ENOMEM = 12"
| "errno_code EACCES = 13"
| "errno_code EFAULT = 14"
| "errno_code EBUSY = 16"
| "errno_code EEXIST = 17"
| "errno_code EXDEV = 18"
| "errno_code ENODEV = 19"
| "errno_code ENOTDIR = 20"
| "errno_code EISDIR = 21"
| "errno_code EINVAL = 22"
| "errno_code ENFILE = 23"
| "errno_code ENOTTY = 25"
| "errno_code EFBIG = 27"
| "errno_code ENOSPC = 28"
| "errno_code EROFS = 30"
| "errno_code EPIPE = 32"
| "errno_code ENAMETOOLONG = 36"
| "errno_code ENOSYS = 38"
| "errno_code ENOTEMPTY = 39"
| "errno_code ELOOP = 40"
| "errno_code EDESTADDRREQ = 89"
| "errno_code EMSGSIZE = 90"
| "errno_code EADDRINUSE = 98"
| "errno_code FAIL = 1"

text \<open>The \<^verbatim>\<open>int\<close> a caller sees: the value, or the negated error number.\<close>

definition ret_int :: "nat res \<Rightarrow> int" where
  "ret_int r = (case r of Inl e \<Rightarrow> - errno_code e | Inr n \<Rightarrow> int n)"

lemma errno_code_pos: "0 < errno_code e"
  by (cases e) simp_all

lemma ret_int_neg_iff: "ret_int r < 0 \<longleftrightarrow> (\<exists>e. r = Inl e)"
  using errno_code_pos by (auto simp: ret_int_def split: sum.splits)

section \<open>Searching a table: a counting loop with an early exit\<close>

text \<open>
  \<^verbatim>\<open>for (i = lo; i < hi; i++) if (P(i)) return i;\<close>, with \<open>None\<close> when the loop ends
  without a match.
\<close>

function scan :: "(nat \<Rightarrow> bool) \<Rightarrow> nat \<Rightarrow> nat \<Rightarrow> nat option" where
  "scan P lo hi = (if lo < hi then if P lo then Some lo else scan P (Suc lo) hi else None)"
  by pat_completeness auto
termination
  by (relation "measure (\<lambda>(P, lo, hi). hi - lo)") auto

declare scan.simps [simp del]

lemma scan_SomeD:
  "scan P lo hi = Some i \<Longrightarrow> lo \<le> i \<and> i < hi \<and> P i \<and> (\<forall>j. lo \<le> j \<and> j < i \<longrightarrow> \<not> P j)"
proof (induction P lo hi rule: scan.induct)
  case (1 P lo hi)
  show ?case
  proof (cases "lo < hi \<and> \<not> P lo")
    case True
    with "1.prems" have "scan P (Suc lo) hi = Some i"
      by (simp add: scan.simps [of P lo hi])
    with True "1.IH" have *: "Suc lo \<le> i \<and> i < hi \<and> P i \<and> (\<forall>j. Suc lo \<le> j \<and> j < i \<longrightarrow> \<not> P j)"
      by simp
    have "\<not> P j" if "lo \<le> j" "j < i" for j
      using that * True by (cases "j = lo") auto
    with * show ?thesis by auto
  next
    case False
    with "1.prems" show ?thesis
      by (auto simp: scan.simps [of P lo hi] split: if_splits)
  qed
qed

lemma scan_None_iff [scan_facts]: "scan P lo hi = None \<longleftrightarrow> (\<forall>i. lo \<le> i \<and> i < hi \<longrightarrow> \<not> P i)"
proof (induction P lo hi rule: scan.induct)
  case (1 P lo hi)
  show ?case
  proof (cases "lo < hi \<and> \<not> P lo")
    case True
    then have "scan P lo hi = None \<longleftrightarrow> scan P (Suc lo) hi = None"
      by (simp add: scan.simps [of P lo hi])
    also have "\<dots> \<longleftrightarrow> (\<forall>i. Suc lo \<le> i \<and> i < hi \<longrightarrow> \<not> P i)"
      using True "1.IH" by simp
    also have "\<dots> \<longleftrightarrow> (\<forall>i. lo \<le> i \<and> i < hi \<longrightarrow> \<not> P i)"
    proof -
      have "(Suc lo \<le> i \<and> i < hi \<longrightarrow> \<not> P i) \<longleftrightarrow> (lo \<le> i \<and> i < hi \<longrightarrow> \<not> P i)" for i
        using True by (cases "i = lo") auto
      then show ?thesis by simp
    qed
    finally show ?thesis .
  next
    case False
    then show ?thesis by (auto simp: scan.simps [of P lo hi])
  qed
qed

lemma scan_Some_iff [scan_facts]:
  "scan P lo hi = Some i \<longleftrightarrow> lo \<le> i \<and> i < hi \<and> P i \<and> (\<forall>j. lo \<le> j \<and> j < i \<longrightarrow> \<not> P j)"
proof
  assume "scan P lo hi = Some i"
  then show "lo \<le> i \<and> i < hi \<and> P i \<and> (\<forall>j. lo \<le> j \<and> j < i \<longrightarrow> \<not> P j)"
    by (rule scan_SomeD)
next
  assume i: "lo \<le> i \<and> i < hi \<and> P i \<and> (\<forall>j. lo \<le> j \<and> j < i \<longrightarrow> \<not> P j)"
  then have "scan P lo hi \<noteq> None" by (auto simp: scan_None_iff)
  then obtain k where k: "scan P lo hi = Some k" by blast
  have "\<not> k < i" "\<not> i < k"
    using scan_SomeD [OF k] i by auto
  then have "k = i" by simp
  with k show "scan P lo hi = Some i" by simp
qed

lemma scan_cong:
  "(\<And>i. lo \<le> i \<Longrightarrow> i < hi \<Longrightarrow> P i = Q i) \<Longrightarrow> scan P lo hi = scan Q lo hi"
proof (induction P lo hi rule: scan.induct)
  case (1 P lo hi)
  then show ?case by (simp add: scan.simps [of _ lo hi])
qed

section \<open>Copying a block into a buffer\<close>

definition blit :: "'a list \<Rightarrow> nat \<Rightarrow> 'a list \<Rightarrow> 'a list" where
  "blit buf off src = take off buf @ src @ drop (off + length src) buf"

lemma length_blit [blit_facts]: "off + length src \<le> length buf \<Longrightarrow> length (blit buf off src) = length buf"
  by (simp add: blit_def)

lemma nth_blit [blit_facts]:
  assumes "off + length src \<le> length buf"
  shows "blit buf off src ! i =
    (if off \<le> i \<and> i < off + length src then src ! (i - off) else buf ! i)"
  using assms by (auto simp: blit_def nth_append not_less)

lemma blit_Nil [simp]: "blit buf off [] = buf"
  by (simp add: blit_def)

lemma take_drop_blit [blit_facts]:
  "off + length src \<le> length buf \<Longrightarrow> take (length src) (drop off (blit buf off src)) = src"
  by (simp add: blit_def)

section \<open>Circular indices\<close>

lemma circ_Suc: "(i :: nat) < n \<Longrightarrow> (i + 1) mod n = (if Suc i = n then 0 else Suc i)"
  by (auto simp: mod_less)

lemma circ_add_mod: "(a mod n + b) mod n = (a + b) mod (n :: nat)"
  by (simp add: mod_add_left_eq)

text \<open>Two offsets less than the size of the ring reach different cells.\<close>

lemma circ_inj:
  assumes "(r + i) mod n = (r + j) mod n" and "i < n" and "j < (n :: nat)"
  shows "i = j"
proof -
  have *: "i = j" if e: "(r + j) mod n = (r + i) mod n" and b: "j < n" "i \<le> j" for i j
  proof (rule ccontr)
    assume "i \<noteq> j"
    with b have d: "0 < j - i" "j - i < n" by auto
    from b(2) have "r + i \<le> r + j" by simp
    from mod_eq_dvd_iff_nat [OF this, of n] e have "n dvd (r + j) - (r + i)" by blast
    then have "n dvd j - i" by simp
    with d nat_dvd_not_less show False by blast
  qed
  show ?thesis
  proof (cases "i \<le> j")
    case True
    with assms * [of j i] show ?thesis by simp
  next
    case False
    with assms * [of i j] show ?thesis by simp
  qed
qed

end
