(* ===== verification/Kstring.thy ===== *)
theory Kstring
  imports Prelude
begin

text \<open>
  The freestanding C string routines of \<^verbatim>\<open>src/src/string.c\<close>. A C string is a buffer
  (\<open>char list\<close>) read from its start up to the first NUL; a routine that runs off
  the end of its buffer has undefined behaviour in C, which is \<open>None\<close> here. The lemmas
  give each routine's result on a terminated string: what the other components use
  when they treat names and paths as plain strings without a terminator.
\<close>

section \<open>Model\<close>

abbreviation NUL :: char where
  "NUL \<equiv> CHR 0x00"

text \<open>The value of a \<^verbatim>\<open>char\<close> promoted to \<^verbatim>\<open>int\<close>: characters are signed on x86-64.\<close>

definition cval :: "char \<Rightarrow> int" where
  "cval c = sint (word_of_nat (of_char c) :: 8 word)"

fun strlen :: "char list \<Rightarrow> nat option" where
  "strlen [] = None"
| "strlen (c # cs) = (if c = NUL then Some 0 else map_option Suc (strlen cs))"

text \<open>The inner loops of \<^verbatim>\<open>strcspn\<close> and \<^verbatim>\<open>strspn\<close>: is the character in the terminated set?\<close>

fun in_set :: "char \<Rightarrow> char list \<Rightarrow> bool option" where
  "in_set c [] = None"
| "in_set c (r # rs) = (if r = NUL then Some False else if c = r then Some True else in_set c rs)"

fun strcspn :: "char list \<Rightarrow> char list \<Rightarrow> nat option" where
  "strcspn [] reject = None"
| "strcspn (c # cs) reject =
     (if c = NUL then Some 0
      else case in_set c reject of
        None \<Rightarrow> None
      | Some True \<Rightarrow> Some 0
      | Some False \<Rightarrow> map_option Suc (strcspn cs reject))"

fun strspn :: "char list \<Rightarrow> char list \<Rightarrow> nat option" where
  "strspn [] accept = None"
| "strspn (c # cs) accept =
     (if c = NUL then Some 0
      else case in_set c accept of
        None \<Rightarrow> None
      | Some False \<Rightarrow> Some 0
      | Some True \<Rightarrow> map_option Suc (strspn cs accept))"

text \<open>
  \<^verbatim>\<open>for (i = 0; i < n - 1 && src[i]; i++) dst[i] = src[i]; dst[i] = 0;\<close> with the room left
  (\<open>n - 1 - i\<close>) as the loop counter. A store past the end of \<open>dst\<close> is \<open>None\<close>.
\<close>

fun kstrncpy_loop :: "char list \<Rightarrow> char list \<Rightarrow> nat \<Rightarrow> char list option" where
  "kstrncpy_loop [] src room = None"
| "kstrncpy_loop (d # ds) src 0 = Some (NUL # ds)"
| "kstrncpy_loop (d # ds) [] (Suc room) = None"
| "kstrncpy_loop (d # ds) (c # cs) (Suc room) =
     (if c = NUL then Some (NUL # ds)
      else map_option ((#) c) (kstrncpy_loop ds cs room))"

definition kstrncpy :: "char list \<Rightarrow> char list \<Rightarrow> nat \<Rightarrow> char list option" where
  "kstrncpy dst src n = (if n = 0 then Some dst else kstrncpy_loop dst src (n - 1))"

fun kstrcmp :: "char list \<Rightarrow> char list \<Rightarrow> int option" where
  "kstrcmp (a # as) (b # bs) =
     (if a \<noteq> NUL \<and> b \<noteq> NUL \<and> a = b then kstrcmp as bs else Some (cval a - cval b))"
| "kstrcmp _ _ = None"

fun kstrncmp :: "char list \<Rightarrow> char list \<Rightarrow> nat \<Rightarrow> int option" where
  "kstrncmp as bs 0 = Some 0"
| "kstrncmp (a # as) (b # bs) (Suc n) =
     (if a \<noteq> NUL \<and> b \<noteq> NUL \<and> a = b then kstrncmp as bs n else Some (cval a - cval b))"
| "kstrncmp _ _ (Suc n) = None"

text \<open>
  \<^verbatim>\<open>kstrtoul\<close>: blanks, an optional base prefix when \<^verbatim>\<open>base == 0\<close>, then digits into a 32-bit
  accumulator that wraps. The result is the number and the rest of the buffer
  (\<^verbatim>\<open>*endptr\<close>).
\<close>

fun skip_blanks :: "char list \<Rightarrow> char list" where
  "skip_blanks [] = []"
| "skip_blanks (c # cs) = (if c = CHR '' '' \<or> c = CHR 0x09 then skip_blanks cs else c # cs)"

definition strtoul_base :: "nat \<Rightarrow> char list \<Rightarrow> (nat \<times> char list) option" where
  "strtoul_base base str =
     (if base \<noteq> 0 then Some (base, str)
      else case str of
        [] \<Rightarrow> None
      | c # cs \<Rightarrow>
          if c = CHR ''0'' then
            (case cs of
              [] \<Rightarrow> None
            | x # xs \<Rightarrow> if x = CHR ''x'' \<or> x = CHR ''X'' then Some (16, xs) else Some (8, cs))
          else Some (10, str))"

definition digit_of :: "nat \<Rightarrow> char \<Rightarrow> nat option" where
  "digit_of base c =
     (let v = of_char c :: nat in
      if 48 \<le> v \<and> v \<le> 57 then Some (v - 48)
      else if 97 \<le> v \<and> v \<le> 102 \<and> base = 16 then Some (v - 97 + 10)
      else if 65 \<le> v \<and> v \<le> 70 \<and> base = 16 then Some (v - 65 + 10)
      else None)"

fun strtoul_digits :: "nat \<Rightarrow> u32 \<Rightarrow> char list \<Rightarrow> (u32 \<times> char list) option" where
  "strtoul_digits base acc [] = None"
| "strtoul_digits base acc (c # cs) =
     (if c = NUL then Some (acc, c # cs)
      else case digit_of base c of
        None \<Rightarrow> Some (acc, c # cs)
      | Some d \<Rightarrow>
          if base \<le> d then Some (acc, c # cs)
          else strtoul_digits base (acc * word_of_nat base + word_of_nat d) cs)"

definition kstrtoul :: "char list \<Rightarrow> nat \<Rightarrow> (u32 \<times> char list) option" where
  "kstrtoul str base =
     (case strtoul_base base (skip_blanks str) of
        None \<Rightarrow> None
      | Some (b, rest) \<Rightarrow> strtoul_digits b 0 rest)"

section \<open>Terminated strings\<close>

lemma strlen_terminated: "NUL \<notin> set s \<Longrightarrow> strlen (s @ NUL # r) = Some (length s)"
  by (induction s) auto

lemma in_set_terminated: "NUL \<notin> set s \<Longrightarrow> in_set c (s @ NUL # r) = Some (c \<in> set s)"
  by (induction s) auto

lemma strcspn_terminated:
  "NUL \<notin> set s \<Longrightarrow> NUL \<notin> set t \<Longrightarrow>
   strcspn (s @ NUL # r) (t @ NUL # q) = Some (length (takeWhile (\<lambda>c. c \<notin> set t) s))"
  by (induction s) (auto simp: in_set_terminated split: bool.splits)

lemma strspn_terminated:
  "NUL \<notin> set s \<Longrightarrow> NUL \<notin> set t \<Longrightarrow>
   strspn (s @ NUL # r) (t @ NUL # q) = Some (length (takeWhile (\<lambda>c. c \<in> set t) s))"
  by (induction s) (auto simp: in_set_terminated split: bool.splits)

lemma kstrncpy_loop_terminated:
  "NUL \<notin> set s \<Longrightarrow> room < length dst \<Longrightarrow>
   kstrncpy_loop dst (s @ NUL # r) room =
     Some (take room s @ NUL # drop (Suc (min room (length s))) dst)"
proof (induction s arbitrary: dst room)
  case Nil
  then show ?case by (cases dst; cases room) auto
next
  case (Cons c s)
  then show ?case by (cases dst; cases room) auto
qed

lemma cval_inj: "cval a = cval b \<longleftrightarrow> a = b"
proof -
  have "cval a = cval b \<longleftrightarrow> (word_of_nat (of_char a) :: 8 word) = word_of_nat (of_char b)"
    by (auto simp: cval_def signed_word_eqI)
  also have "\<dots> \<longleftrightarrow> of_char a mod (256::nat) = of_char b mod 256"
    by (simp add: word_of_nat_eq_iff take_bit_eq_mod)
  also have "\<dots> \<longleftrightarrow> (of_char a :: nat) = of_char b"
    by simp
  finally show ?thesis by simp
qed


text \<open>The string a buffer holds, and the string left by \<^verbatim>\<open>kstrncpy\<close> into \<open>n\<close> bytes.\<close>

definition cstr :: "char list \<Rightarrow> char list" where
  "cstr buf = takeWhile (\<lambda>c. c \<noteq> NUL) buf"

definition strncpy_str :: "nat \<Rightarrow> char list \<Rightarrow> char list" where
  "strncpy_str n s = take (n - 1) s"

lemma cstr_terminated [simp]: "NUL \<notin> set s \<Longrightarrow> cstr (s @ NUL # r) = s"
proof -
  assume "NUL \<notin> set s"
  then have "takeWhile (\<lambda>c. c \<noteq> NUL) (s @ NUL # r) = s @ takeWhile (\<lambda>c. c \<noteq> NUL) (NUL # r)"
    by (intro takeWhile_append2) auto
  then show ?thesis by (simp add: cstr_def)
qed

lemma kstrncpy_terminated:
  "NUL \<notin> set s \<Longrightarrow> 0 < n \<Longrightarrow> n \<le> length dst \<Longrightarrow>
   kstrncpy dst (s @ NUL # r) n =
     Some (take (n - 1) s @ NUL # drop (Suc (min (n - 1) (length s))) dst)"
  by (simp add: kstrncpy_def kstrncpy_loop_terminated)

lemma kstrcmp_terminated_iff:
  assumes "NUL \<notin> set s" and "NUL \<notin> set t"
  shows "\<exists>d. kstrcmp (s @ NUL # r) (t @ NUL # q) = Some d \<and> (d = 0 \<longleftrightarrow> s = t)"
  using assms
proof (induction s arbitrary: t)
  case Nil
  then show ?case by (cases t) (auto simp: cval_inj)
next
  case (Cons c s)
  then show ?case by (cases t) (auto simp: cval_inj)
qed

lemma kstrncmp_terminated_iff:
  assumes "NUL \<notin> set s" and "NUL \<notin> set t"
  shows "\<exists>d. kstrncmp (s @ NUL # r) (t @ NUL # q) n = Some d \<and> (d = 0 \<longleftrightarrow> take n s = take n t)"
  using assms
proof (induction n arbitrary: s t)
  case 0
  then show ?case by simp
next
  case (Suc n)
  show ?case
  proof (cases s)
    case Nil
    with Suc.prems show ?thesis by (cases t) (auto simp: cval_inj)
  next
    case s: (Cons c s')
    show ?thesis
    proof (cases t)
      case Nil
      with s Suc.prems show ?thesis by (auto simp: cval_inj)
    next
      case t: (Cons d t')
      from s t Suc.prems Suc.IH [of s' t'] show ?thesis by (auto simp: cval_inj)
    qed
  qed
qed

section \<open>Numbers\<close>

text \<open>The decimal numeral of a number, most significant digit first.\<close>

fun dec_digits :: "nat \<Rightarrow> char list" where
  "dec_digits n =
     (if n < 10 then [char_of (48 + n)] else dec_digits (n div 10) @ [char_of (48 + n mod 10)])"

declare dec_digits.simps [simp del]

lemma digit_of_dec: "d < 10 \<Longrightarrow> digit_of base (char_of (48 + d)) = Some d"
  by (simp add: digit_of_def of_char_of Let_def)

lemma dec_char_neq: "d < (10 :: nat) \<Longrightarrow> of_char c < (48 :: nat) \<Longrightarrow> char_of (48 + d) \<noteq> c"
proof
  assume "d < 10" and c: "of_char c < (48 :: nat)" and e: "char_of (48 + d) = c"
  from e have "of_char (char_of (48 + d)) = (of_char c :: nat)" by simp
  with \<open>d < 10\<close> c show False by (simp add: of_char_of)
qed

lemma dec_char_not_NUL: "d < (10 :: nat) \<Longrightarrow> char_of (48 + d) \<noteq> NUL"
  by (rule dec_char_neq) simp_all

lemma strtoul_digits_step:
  "d < 10 \<Longrightarrow> strtoul_digits 10 acc (char_of (48 + d) # rest) =
     strtoul_digits 10 (acc * 10 + word_of_nat d) rest"
  using dec_char_not_NUL [of d] by (simp add: digit_of_dec)

lemma strtoul_digits_dec:
  "strtoul_digits 10 acc (dec_digits n @ rest) =
     strtoul_digits 10 (acc * word_of_nat (10 ^ length (dec_digits n)) + word_of_nat n) rest"
proof (induction n arbitrary: acc rest rule: dec_digits.induct)
  case (1 n)
  show ?case
  proof (cases "n < 10")
    case True
    then show ?thesis
      by (simp add: dec_digits.simps [of n] strtoul_digits_step del: strtoul_digits.simps)
  next
    case False
    have n: "word_of_nat n = (word_of_nat (n div 10) * 10 + word_of_nat (n mod 10) :: u32)"
      by (metis div_mult_mod_eq of_nat_add of_nat_mult of_nat_numeral)
    have d: "n mod 10 < 10" by simp
    have "strtoul_digits 10 acc (dec_digits n @ rest) =
      strtoul_digits 10 acc (dec_digits (n div 10) @ (char_of (48 + n mod 10) # rest))"
      using False by (simp add: dec_digits.simps [of n])
    also have "\<dots> = strtoul_digits 10
      ((acc * word_of_nat (10 ^ length (dec_digits (n div 10))) + word_of_nat (n div 10)) * 10
        + word_of_nat (n mod 10)) rest"
      by (simp only: "1.IH" [OF False] strtoul_digits_step [OF d])
    also have "\<dots> = strtoul_digits 10 (acc * word_of_nat (10 ^ length (dec_digits n)) + word_of_nat n) rest"
      using False by (simp add: dec_digits.simps [of n] n algebra_simps)
    finally show ?thesis .
  qed
qed

lemma skip_blanks_dec: "skip_blanks (dec_digits n @ r) = dec_digits n @ r"
proof -
  have "\<exists>d xs. dec_digits n = char_of (48 + d) # xs \<and> d < (10 :: nat)"
  proof (induction n rule: dec_digits.induct)
    case (1 n)
    show ?case
    proof (cases "n < 10")
      case True
      then have "dec_digits n = char_of (48 + n) # []" by (simp add: dec_digits.simps)
      with True show ?thesis by blast
    next
      case False
      then obtain d xs where "dec_digits (n div 10) = char_of (48 + d) # xs" "d < (10 :: nat)"
        using 1 by blast
      with False have "dec_digits n = char_of (48 + d) # (xs @ [char_of (48 + n mod 10)])"
        by (simp add: dec_digits.simps [of n])
      with \<open>d < 10\<close> show ?thesis by blast
    qed
  qed
  then obtain d xs where d: "dec_digits n = char_of (48 + d) # xs" "d < (10 :: nat)" by blast
  have "char_of (48 + d) \<noteq> CHR '' ''" "char_of (48 + d) \<noteq> CHR 0x09"
    using d(2) by (intro dec_char_neq; simp)+
  then show ?thesis by (simp add: d(1))
qed

section \<open>Properties\<close>

text \<open>
  C39. \<^verbatim>\<open>kstrncpy\<close> into a buffer of at least \<open>n > 0\<close> bytes stays inside the first \<open>n\<close>
  bytes of the buffer, always leaves a terminated string, and that string is the source
  truncated to \<open>n - 1\<close> characters.
\<close>

theorem kstrncpy_bounded:
  assumes "NUL \<notin> set s" and "0 < n" and "n \<le> length dst"
  shows "\<exists>dst'. kstrncpy dst (s @ NUL # r) n = Some dst' \<and> length dst' = length dst \<and>
    drop n dst' = drop n dst \<and> cstr dst' = strncpy_str n s \<and> NUL \<in> set (take n dst')"
proof -
  let ?d = "take (n - 1) s @ NUL # drop (Suc (min (n - 1) (length s))) dst"
  have 1: "kstrncpy dst (s @ NUL # r) n = Some ?d"
    using assms by (rule kstrncpy_terminated)
  have 2: "length ?d = length dst" using assms by (auto simp: min_def)
  have 3: "drop n ?d = drop n dst"
  proof (cases "length s < n")
    case True
    with assms show ?thesis by (simp add: min_absorb2 drop_Cons' Suc_leI)
  next
    case False
    with assms show ?thesis by (simp add: min_absorb1 drop_Cons')
  qed
  have 4: "cstr ?d = strncpy_str n s"
    using assms(1) by (simp add: strncpy_str_def) (meson cstr_terminated in_set_takeD)
  have 5: "NUL \<in> set (take n ?d)" using assms by (auto simp: take_Cons')
  show ?thesis using 1 2 3 4 5 by blast
qed


theorem kstrncpy_bounded_witness:
  "\<exists>dst'. kstrncpy (replicate 4 CHR ''x'') (''hello'' @ NUL # []) 4 = Some dst' \<and>
     length dst' = length (replicate 4 CHR ''x'') \<and> drop 4 dst' = drop 4 (replicate 4 CHR ''x'') \<and>
     cstr dst' = strncpy_str 4 ''hello'' \<and> NUL \<in> set (take 4 dst')"
  by (rule kstrncpy_bounded) simp_all

text \<open>
  C40. \<^verbatim>\<open>kstrtoul\<close> in base 10 inverts the decimal numeral of every number up to 32-bit
  wrap-around and leaves the end pointer at the first character after the digits.
\<close>

theorem kstrtoul_decimal:
  assumes "digit_of 10 c = None"
  shows "kstrtoul (dec_digits n @ c # r) 10 = Some (word_of_nat n, c # r)"
  using assms
  by (simp add: kstrtoul_def skip_blanks_dec strtoul_base_def strtoul_digits_dec)

theorem kstrtoul_decimal_witness:
  "kstrtoul (dec_digits 4096 @ NUL # []) 10 = Some (4096, NUL # [])"
  using kstrtoul_decimal [of NUL 4096 "[]"] by (simp add: digit_of_def Let_def)

end
