(* ===== verification/Ring.thy ===== *)
theory Ring
  imports Prelude
begin

text \<open>
  Circular buffers and the contracts of the queues built on them. \<open>ring_list\<close> reads a
  circular buffer as the list of its queued elements; the lemmas say what a store at the
  tail and an advance of the head do to that list. The locale \<open>byte_fifo\<close> is the
  contract of a bounded first-in first-out channel that the reader and the writer of a
  pipe rely on, with the stream theorem proved once; \<open>lossy_fifo\<close> is the contract
  of a bounded queue that drops elements when it is full.
\<close>

section \<open>Circular buffers\<close>

definition ring_list :: "'a list \<Rightarrow> nat \<Rightarrow> nat \<Rightarrow> 'a list" where
  "ring_list buf r c = map (\<lambda>i. buf ! ((r + i) mod length buf)) [0..<c]"

lemma length_ring_list [simp]: "length (ring_list buf r c) = c"
  by (simp add: ring_list_def)

lemma ring_list_0 [simp]: "ring_list buf r 0 = []"
  by (simp add: ring_list_def)

lemma ring_list_pop:
  "r < length buf \<Longrightarrow>
   ring_list buf r (Suc c) = buf ! r # ring_list buf ((r + 1) mod length buf) c"
proof -
  assume r: "r < length buf"
  have "ring_list buf r (Suc c) =
    buf ! (r mod length buf) # map (\<lambda>i. buf ! ((r + Suc i) mod length buf)) [0..<c]"
    by (simp add: ring_list_def upt_conv_Cons map_Suc_upt [symmetric] o_def del: upt_Suc)
  also have "\<dots> = buf ! r # ring_list buf ((r + 1) mod length buf) c"
    using r by (simp add: ring_list_def circ_add_mod)
  finally show ?thesis .
qed

lemma ring_list_push:
  assumes "c < length buf"
  shows "ring_list (buf[(r + c) mod length buf := x]) r (Suc c) = ring_list buf r c @ [x]"
proof -
  let ?n = "length buf" let ?w = "(r + c) mod ?n"
  have w: "?w < ?n" using assms by (intro mod_less_divisor) linarith
  have "(buf[?w := x]) ! ((r + i) mod ?n) = buf ! ((r + i) mod ?n)" if "i < c" for i
  proof -
    have "(r + i) mod ?n \<noteq> ?w"
      using circ_inj [of r i ?n c] that assms by auto
    then show ?thesis by simp
  qed
  then show ?thesis using w by (simp add: ring_list_def)
qed

lemma ring_list_drop: 
  "r < length buf \<Longrightarrow> k \<le> c \<Longrightarrow>
   drop k (ring_list buf r c) = ring_list buf ((r + k) mod length buf) (c - k)"
proof (induction k arbitrary: r c)
  case 0
  then show ?case by simp
next
  case (Suc k)
  then obtain c' where c: "c = Suc c'" by (cases c) auto
  have r': "(r + 1) mod length buf < length buf"
    using Suc.prems(1) by (intro mod_less_divisor) linarith
  have "drop (Suc k) (ring_list buf r c) = drop k (ring_list buf ((r + 1) mod length buf) c')"
    using Suc.prems(1) by (simp add: c ring_list_pop del: One_nat_def)
  also have "\<dots> = ring_list buf (((r + 1) mod length buf + k) mod length buf) (c' - k)"
    using Suc.IH [OF r', of c'] Suc.prems(2) c by simp
  also have "((r + 1) mod length buf + k) mod length buf = (r + Suc k) mod length buf"
    by (simp only: circ_add_mod) simp
  finally show ?case by (simp add: c)
qed

section \<open>Contracts\<close>

text \<open>
  A bounded channel: \<open>rd s n\<close> takes up to \<open>n\<close> elements from the front, \<open>wr s bs\<close> appends
  as much of \<open>bs\<close> as fits and reports how much that was.
\<close>

locale byte_fifo =
  fixes inv :: "'s \<Rightarrow> bool"
    and contents :: "'s \<Rightarrow> 'a list"
    and capacity :: nat
    and rd :: "'s \<Rightarrow> nat \<Rightarrow> 's \<times> 'a list"
    and wr :: "'s \<Rightarrow> 'a list \<Rightarrow> 's \<times> nat"
  assumes inv_capacity: "inv s \<Longrightarrow> length (contents s) \<le> capacity"
    and rd_inv: "inv s \<Longrightarrow> inv (fst (rd s n))"
    and rd_out: "inv s \<Longrightarrow> snd (rd s n) = take n (contents s)"
    and rd_contents: "inv s \<Longrightarrow> contents (fst (rd s n)) = drop n (contents s)"
    and wr_inv: "inv s \<Longrightarrow> inv (fst (wr s bs))"
    and wr_count: "inv s \<Longrightarrow> snd (wr s bs) = min (length bs) (capacity - length (contents s))"
    and wr_contents: "inv s \<Longrightarrow> contents (fst (wr s bs)) = contents s @ take (snd (wr s bs)) bs"
begin

text \<open>
  A run of requests: \<open>Inl n\<close> reads, \<open>Inr bs\<close> writes. The result is the final state, all
  elements accepted and all elements delivered, in order.
\<close>

fun run :: "'s \<Rightarrow> (nat + 'a list) list \<Rightarrow> 's \<times> 'a list \<times> 'a list" where
  "run s [] = (s, [], [])"
| "run s (Inl n # es) =
     (let (s1, out) = rd s n; (s2, acc, del) = run s1 es in (s2, acc, out @ del))"
| "run s (Inr bs # es) =
     (let (s1, k) = wr s bs; (s2, acc, del) = run s1 es in (s2, take k bs @ acc, del))"

lemma run_stream:
  "inv s \<Longrightarrow> run s es = (s', acc, del) \<Longrightarrow>
   inv s' \<and> contents s @ acc = del @ contents s'"
proof (induction s es arbitrary: acc del s' rule: run.induct)
  case (1 s)
  then show ?case by simp
next
  case (2 s n es)
  obtain s1 out where r: "rd s n = (s1, out)" by (cases "rd s n") blast
  obtain s2 a d where e: "run s1 es = (s2, a, d)" by (cases "run s1 es") blast
  from 2(3) r e have eq: "s' = s2" "acc = a" "del = out @ d" by auto
  have s1: "inv s1" "out = take n (contents s)" "contents s1 = drop n (contents s)"
    using rd_inv [OF 2(2), of n] rd_out [OF 2(2), of n] rd_contents [OF 2(2), of n] r by auto
  have "inv s2 \<and> contents s1 @ a = d @ contents s2"
    using 2(1) r s1(1) e by simp
  then show ?case
    using s1 eq by (metis append.assoc append_take_drop_id)
next
  case (3 s bs es)
  obtain s1 k where w: "wr s bs = (s1, k)" by (cases "wr s bs") blast
  obtain s2 a d where e: "run s1 es = (s2, a, d)" by (cases "run s1 es") blast
  from 3(3) w e have eq: "s' = s2" "acc = take k bs @ a" "del = d" by auto
  have s1: "inv s1" "contents s1 = contents s @ take k bs"
    using wr_inv [OF 3(2), of bs] wr_contents [OF 3(2), of bs] w by auto
  have "inv s2 \<and> contents s1 @ a = d @ contents s2"
    using 3(1) w s1(1) e by simp
  then show ?case using s1(2) eq by simp
qed

text \<open>Whatever was accepted in one write comes back from one large enough read.\<close>

lemma write_then_read:
  assumes "inv s" and "contents s = []" and "length bs \<le> capacity" and "length bs \<le> n"
  shows "snd (rd (fst (wr s bs)) n) = bs"
proof -
  have "snd (wr s bs) = length bs" using assms wr_count by simp
  then have "contents (fst (wr s bs)) = bs" using assms wr_contents by simp
  then show ?thesis using assms rd_out wr_inv by simp
qed

end

text \<open>
  A bounded queue of messages that never refuses one: \<open>put\<close> on a full queue discards,
  and \<open>keep\<close> says what of the old queue and the new message stays. \<open>store\<close> is the form in which a
  message is kept.
\<close>

locale lossy_fifo =
  fixes inv :: "'s \<Rightarrow> bool"
    and queue :: "'s \<Rightarrow> 'm list"
    and bound :: nat
    and store :: "'i \<Rightarrow> 'm"
    and put :: "'s \<Rightarrow> 'i \<Rightarrow> 's"
    and get :: "'s \<Rightarrow> ('s \<times> 'm) option"
    and keep :: "'m list \<Rightarrow> 'm \<Rightarrow> 'm list"
  assumes bound_pos: "0 < bound"
    and inv_bound: "inv s \<Longrightarrow> length (queue s) \<le> bound"
    and put_inv: "inv s \<Longrightarrow> inv (put s m)"
    and put_queue: "inv s \<Longrightarrow> length (queue s) < bound \<Longrightarrow> queue (put s m) = queue s @ [store m]"
    and put_full: "inv s \<Longrightarrow> length (queue s) = bound \<Longrightarrow> queue (put s m) = keep (queue s) (store m)"
    and get_empty: "inv s \<Longrightarrow> get s = None \<longleftrightarrow> queue s = []"
    and get_some: "inv s \<Longrightarrow> get s = Some (s', r) \<Longrightarrow> inv s' \<and> queue s = r # queue s'"
begin

lemma puts_inv: "inv s \<Longrightarrow> inv (foldl put s ms)"
  by (induction ms arbitrary: s) (simp_all add: put_inv)

lemma puts_queue:
  "inv s \<Longrightarrow> length (queue s) + length ms \<le> bound \<Longrightarrow>
   inv (foldl put s ms) \<and> queue (foldl put s ms) = queue s @ map store ms"
proof (induction ms arbitrary: s)
  case Nil
  then show ?case by simp
next
  case (Cons m ms)
  then have "queue (put s m) = queue s @ [store m]" by (simp add: put_queue)
  with Cons show ?case by (simp add: put_inv)
qed

text \<open>A burst that fits comes out complete and in order.\<close>

fun drain :: "nat \<Rightarrow> 's \<Rightarrow> 'm list" where
  "drain 0 s = []"
| "drain (Suc k) s = (case get s of None \<Rightarrow> [] | Some (s', m) \<Rightarrow> m # drain k s')"

lemma drain_queue: "inv s \<Longrightarrow> drain k s = take k (queue s)"
proof (induction k arbitrary: s)
  case 0
  then show ?case by simp
next
  case (Suc k)
  show ?case
  proof (cases "get s")
    case None
    with Suc.prems have "queue s = []" using get_empty by blast
    with None show ?thesis by simp
  next
    case (Some p)
    obtain s' m where p: "p = (s', m)" by (cases p) blast
    with Some Suc.prems have "inv s' \<and> queue s = m # queue s'" using get_some by blast
    with Some p Suc.IH show ?thesis by simp
  qed
qed

lemma burst_in_order:
  "inv s \<Longrightarrow> queue s = [] \<Longrightarrow> length ms \<le> bound \<Longrightarrow> drain (length ms) (foldl put s ms) = map store ms"
  using puts_queue [of s ms] by (simp add: drain_queue)

end

text \<open>
  A bounded queue whose full state makes room by discarding its oldest message: it always holds
  the most recent ones.
\<close>

definition lastn :: "nat \<Rightarrow> 'a list \<Rightarrow> 'a list" where
  "lastn n xs = drop (length xs - n) xs"

lemma lastn_all [simp]: "length xs \<le> n \<Longrightarrow> lastn n xs = xs"
  by (simp add: lastn_def)

lemma lastn_lastn_append: "lastn n (lastn n xs @ ys) = lastn n (xs @ ys)"
  by (cases "length xs \<le> n") (simp_all add: lastn_def add.commute)

locale sliding_fifo = lossy_fifo inv queue bound store put get "\<lambda>q m. tl q @ [m]"
  for inv :: "'s \<Rightarrow> bool" and queue :: "'s \<Rightarrow> 'm list" and bound and store :: "'i \<Rightarrow> 'm" and put get
begin

lemma put_lastn: "inv s \<Longrightarrow> queue (put s m) = lastn bound (queue s @ [store m])"
proof (cases "length (queue s) < bound")
  case False
  moreover assume s: "inv s"
  ultimately have eq: "length (queue s) = bound" using inv_bound [OF s] by simp
  with bound_pos obtain x xs where "queue s = x # xs" by (cases "queue s") auto
  with put_full [OF s eq] eq show ?thesis by (auto simp: lastn_def)
qed (simp add: put_queue)

lemma puts_lastn: "inv s \<Longrightarrow> queue (foldl put s ms) = lastn bound (queue s @ map store ms)"
proof (induction ms arbitrary: s)
  case (Cons m ms)
  have "queue (foldl put s (m # ms)) = lastn bound (lastn bound (queue s @ [store m]) @ map store ms)"
    using Cons put_inv [OF Cons.prems] by (simp add: put_lastn)
  then show ?case by (simp add: lastn_lastn_append)
qed (simp add: inv_bound)

lemma drain_puts: "inv s \<Longrightarrow> drain bound (foldl put s ms) = lastn bound (queue s @ map store ms)"
  using puts_inv [of s ms] by (simp add: drain_queue puts_lastn lastn_def)

end

end
