(* ===== verification/Pipe.thy ===== *)
theory Pipe
  imports Ring
begin

text \<open>
  The kernel pipes of \<^verbatim>\<open>src/src/pipe.c\<close>: a table of \<^verbatim>\<open>MAX_PIPES\<close> slots, each a
  circular byte buffer with reader and writer counts. Every routine of the file is one
  definition on the pipe (a \<^verbatim>\<open>pipe_t *\<close> is \<open>pipe option\<close>, \<open>None\<close> the null pointer). The
  lock makes a routine one atomic step, so it appears only where a routine can see it
  held (\<^verbatim>\<open>pipe_trylock\<close>). Calls into other subsystems (waking a thread, waking pollers,
  the named FIFO registry, \<^verbatim>\<open>kfree\<close>) are listed as events in the order they are made, and
  whether \<^verbatim>\<open>kalloc\<close> succeeds is an argument. An access outside the buffer, undefined in
  C, is the result \<open>None\<close>.
\<close>

section \<open>Model\<close>

definition PIPE_BUF_SIZE :: nat where "PIPE_BUF_SIZE = 4096"
definition MAX_PIPES :: nat where "MAX_PIPES = 64"

record pipe =
  p_buffer :: "u8 list option"
  p_buf_size :: u32
  p_read_pos :: u32
  p_write_pos :: u32
  p_count :: u32
  p_lock :: bool
  p_readers :: int
  p_writers :: int
  p_active :: bool
  p_waiting_reader :: "nat option"
  p_waiting_writer :: "nat option"
  p_pty :: "nat option"
  p_in_gen :: u32
  p_out_gen :: u32

datatype pipe_event = ThreadWake nat | KpollWake | FifoGone | KFree

type_synonym 'r pipe_result = "(pipe option \<times> 'r \<times> pipe_event list) option"

definition zero_pipe :: pipe where
  "zero_pipe = \<lparr>p_buffer = None, p_buf_size = 0, p_read_pos = 0, p_write_pos = 0, p_count = 0,
     p_lock = False, p_readers = 0, p_writers = 0, p_active = False, p_waiting_reader = None,
     p_waiting_writer = None, p_pty = None, p_in_gen = 0, p_out_gen = 0\<rparr>"

definition pipe_init :: "pipe list" where
  "pipe_init = replicate MAX_PIPES zero_pipe"

definition pipe_create :: "bool \<Rightarrow> pipe list \<Rightarrow> pipe list \<times> nat option" where
  "pipe_create kalloc_ok t =
     (case scan (\<lambda>i. \<not> p_active (t ! i)) 0 MAX_PIPES of
        None \<Rightarrow> (t, None)
      | Some i \<Rightarrow>
          if \<not> kalloc_ok then (t[i := (t ! i)\<lparr>p_buffer := None\<rparr>], None)
          else (t[i := (t ! i)\<lparr>p_buffer := Some (replicate PIPE_BUF_SIZE 0),
                  p_buf_size := word_of_nat PIPE_BUF_SIZE, p_read_pos := 0, p_write_pos := 0,
                  p_count := 0, p_lock := False, p_readers := 1, p_writers := 1,
                  p_active := True, p_waiting_reader := None, p_waiting_writer := None,
                  p_pty := None\<rparr>], Some i))"

definition pipe_destroy :: "pipe option \<Rightarrow> pipe option \<times> pipe_event list" where
  "pipe_destroy pp =
     (case pp of
        None \<Rightarrow> (None, [])
      | Some p \<Rightarrow>
          if \<not> p_active p then (Some p, [])
          else (Some (p\<lparr>p_buffer := None, p_active := False, p_buf_size := 0, p_read_pos := 0,
                  p_write_pos := 0, p_count := 0, p_readers := 0, p_writers := 0\<rparr>),
                FifoGone # (if p_buffer p \<noteq> None then [KFree] else [])))"

text \<open>The copy loops of \<^verbatim>\<open>pipe_read\<close> and \<^verbatim>\<open>pipe_write\<close>.\<close>

fun read_loop :: "u8 list \<Rightarrow> u32 \<Rightarrow> u32 \<Rightarrow> nat \<Rightarrow> (u8 list \<times> u32) option" where
  "read_loop buf sz pos 0 = Some ([], pos)"
| "read_loop buf sz pos (Suc n) =
     (if unat pos < length buf \<and> sz \<noteq> 0 then
        (case read_loop buf sz ((pos + 1) mod sz) n of
           None \<Rightarrow> None
         | Some (bs, pos') \<Rightarrow> Some (buf ! unat pos # bs, pos'))
      else None)"

fun write_loop :: "u8 list \<Rightarrow> u32 \<Rightarrow> u32 \<Rightarrow> u8 list \<Rightarrow> (u8 list \<times> u32) option" where
  "write_loop buf sz pos [] = Some (buf, pos)"
| "write_loop buf sz pos (x # xs) =
     (if unat pos < length buf \<and> sz \<noteq> 0
      then write_loop (buf[unat pos := x]) sz ((pos + 1) mod sz) xs
      else None)"

definition wake :: "nat option \<Rightarrow> pipe_event list" where
  "wake w = (case w of None \<Rightarrow> [] | Some th \<Rightarrow> [ThreadWake th])"

text \<open>\<open>dst\<close> says that the caller's buffer pointer is not null; \<open>n\<close> is the requested size.\<close>

definition pipe_read :: "pipe option \<Rightarrow> bool \<Rightarrow> nat \<Rightarrow> u8 list res pipe_result" where
  "pipe_read pp dst n =
     (case pp of
        None \<Rightarrow> Some (None, Inl FAIL, [])
      | Some p \<Rightarrow>
          if \<not> dst then Some (Some p, Inl FAIL, [])
          else if \<not> p_active p \<or> p_buffer p = None then Some (Some p, Inl FAIL, [])
          else if p_count p = 0 then
            Some (Some p, if p_writers p = 0 then Inr [] else Inl EAGAIN, [])
          else
            let to_read = (if n < unat (p_count p) then n else unat (p_count p)) in
            case read_loop (the (p_buffer p)) (p_buf_size p) (p_read_pos p) to_read of
              None \<Rightarrow> None
            | Some (bs, pos) \<Rightarrow>
                Some (Some (p\<lparr>p_read_pos := pos,
                    p_out_gen := (if to_read \<noteq> 0 \<and> p_count p = p_buf_size p
                                  then p_out_gen p + 1 else p_out_gen p),
                    p_count := p_count p - word_of_nat to_read,
                    p_waiting_writer := None\<rparr>),
                  Inr bs,
                  wake (p_waiting_writer p) @ (if to_read \<noteq> 0 then [KpollWake] else [])))"

text \<open>\<open>src\<close> is the caller's buffer of \<^verbatim>\<open>count\<close> bytes, \<open>None\<close> for a null pointer.\<close>

definition pipe_write :: "pipe option \<Rightarrow> u8 list option \<Rightarrow> nat res pipe_result" where
  "pipe_write pp src =
     (case pp of
        None \<Rightarrow> Some (None, Inl EPIPE, [])
      | Some p \<Rightarrow>
          (case src of
             None \<Rightarrow> Some (Some p, Inl EPIPE, [])
           | Some bs \<Rightarrow>
               if \<not> p_active p \<or> p_buffer p = None then Some (Some p, Inl EPIPE, [])
               else if p_readers p = 0 then Some (Some p, Inl EPIPE, [])
               else
                 let space = p_buf_size p - p_count p in
                 if space = 0 then Some (Some p, Inl EAGAIN, [])
                 else
                   let to_write = (if length bs < unat space then length bs else unat space) in
                   case write_loop (the (p_buffer p)) (p_buf_size p) (p_write_pos p)
                          (take to_write bs) of
                     None \<Rightarrow> None
                   | Some (buf, pos) \<Rightarrow>
                       Some (Some (p\<lparr>p_buffer := Some buf, p_write_pos := pos,
                           p_count := p_count p + word_of_nat to_write,
                           p_in_gen := (if to_write \<noteq> 0 then p_in_gen p + 1 else p_in_gen p),
                           p_waiting_reader := None\<rparr>),
                         Inr to_write,
                         wake (p_waiting_reader p) @ (if to_write \<noteq> 0 then [KpollWake] else []))))"

definition pipe_close_read :: "pipe option \<Rightarrow> pipe option \<times> pipe_event list" where
  "pipe_close_read pp =
     (case pp of
        None \<Rightarrow> (None, [])
      | Some p \<Rightarrow>
          if \<not> p_active p then (Some p, [])
          else
            let p1 = (if 0 < p_readers p then p\<lparr>p_readers := p_readers p - 1\<rparr> else p);
                should_destroy = (p_readers p1 = 0 \<and> p_writers p1 = 0);
                p2 = (if p_readers p1 = 0
                      then p1\<lparr>p_waiting_writer := None, p_waiting_reader := None\<rparr> else p1);
                ev = wake (p_waiting_writer p1) @ wake (p_waiting_reader p1) @ [KpollWake]
            in if should_destroy then (let (q, ev') = pipe_destroy (Some p2) in (q, ev @ ev'))
               else (Some p2, ev))"

definition pipe_close_write :: "pipe option \<Rightarrow> pipe option \<times> pipe_event list" where
  "pipe_close_write pp =
     (case pp of
        None \<Rightarrow> (None, [])
      | Some p \<Rightarrow>
          if \<not> p_active p then (Some p, [])
          else
            let p1 = (if 0 < p_writers p then p\<lparr>p_writers := p_writers p - 1\<rparr> else p);
                should_destroy = (p_readers p1 = 0 \<and> p_writers p1 = 0);
                p2 = (if p_writers p1 = 0
                      then p1\<lparr>p_waiting_reader := None, p_waiting_writer := None\<rparr> else p1);
                ev = wake (p_waiting_reader p1) @ wake (p_waiting_writer p1) @ [KpollWake]
            in if should_destroy then (let (q, ev') = pipe_destroy (Some p2) in (q, ev @ ev'))
               else (Some p2, ev))"

definition pipe_fork_dup_reader :: "pipe option \<Rightarrow> pipe option" where
  "pipe_fork_dup_reader pp =
     map_option (\<lambda>p. if p_active p then p\<lparr>p_readers := p_readers p + 1\<rparr> else p) pp"

definition pipe_fork_dup_writer :: "pipe option \<Rightarrow> pipe option" where
  "pipe_fork_dup_writer pp =
     map_option (\<lambda>p. if p_active p then p\<lparr>p_writers := p_writers p + 1\<rparr> else p) pp"

definition pipe_available :: "pipe option \<Rightarrow> nat res" where
  "pipe_available pp =
     (case pp of
        None \<Rightarrow> Inl FAIL
      | Some p \<Rightarrow> if p_active p then Inr (unat (p_count p)) else Inl FAIL)"

definition pipe_set_waiting_reader :: "pipe option \<Rightarrow> nat option \<Rightarrow> pipe option" where
  "pipe_set_waiting_reader pp th =
     map_option (\<lambda>p. if p_active p then p\<lparr>p_waiting_reader := th\<rparr> else p) pp"

definition pipe_set_waiting_writer :: "pipe option \<Rightarrow> nat option \<Rightarrow> pipe option" where
  "pipe_set_waiting_writer pp th =
     map_option (\<lambda>p. if p_active p then p\<lparr>p_waiting_writer := th\<rparr> else p) pp"

text \<open>The non-blocking copies: a held lock is \<open>EAGAIN\<close>.\<close>

definition pipe_try_read :: "pipe option \<Rightarrow> bool \<Rightarrow> nat \<Rightarrow> u8 list res pipe_result" where
  "pipe_try_read pp dst n =
     (case pp of
        None \<Rightarrow> Some (None, Inl FAIL, [])
      | Some p \<Rightarrow>
          if \<not> dst then Some (Some p, Inl FAIL, [])
          else if p_lock p then Some (Some p, Inl EAGAIN, [])
          else if \<not> p_active p \<or> p_buffer p = None then Some (Some p, Inl FAIL, [])
          else if p_count p = 0 then
            Some (Some p, if p_writers p = 0 then Inr [] else Inl EAGAIN, [])
          else
            let to_read = (if n < unat (p_count p) then n else unat (p_count p)) in
            case read_loop (the (p_buffer p)) (p_buf_size p) (p_read_pos p) to_read of
              None \<Rightarrow> None
            | Some (bs, pos) \<Rightarrow>
                Some (Some (p\<lparr>p_read_pos := pos,
                    p_out_gen := (if to_read \<noteq> 0 \<and> p_count p = p_buf_size p
                                  then p_out_gen p + 1 else p_out_gen p),
                    p_count := p_count p - word_of_nat to_read,
                    p_waiting_writer := None\<rparr>),
                  Inr bs,
                  wake (p_waiting_writer p) @ (if to_read \<noteq> 0 then [KpollWake] else [])))"

definition pipe_try_write :: "pipe option \<Rightarrow> u8 list option \<Rightarrow> nat res pipe_result" where
  "pipe_try_write pp src =
     (case pp of
        None \<Rightarrow> Some (None, Inl EPIPE, [])
      | Some p \<Rightarrow>
          (case src of
             None \<Rightarrow> Some (Some p, Inl EPIPE, [])
           | Some bs \<Rightarrow>
               if p_lock p then Some (Some p, Inl EAGAIN, [])
               else if \<not> p_active p \<or> p_buffer p = None \<or> p_readers p = 0
               then Some (Some p, Inl EPIPE, [])
               else
                 let space = p_buf_size p - p_count p in
                 if space = 0 then Some (Some p, Inl EAGAIN, [])
                 else
                   let to_write = (if length bs < unat space then length bs else unat space) in
                   case write_loop (the (p_buffer p)) (p_buf_size p) (p_write_pos p)
                          (take to_write bs) of
                     None \<Rightarrow> None
                   | Some (buf, pos) \<Rightarrow>
                       Some (Some (p\<lparr>p_buffer := Some buf, p_write_pos := pos,
                           p_count := p_count p + word_of_nat to_write,
                           p_in_gen := (if to_write \<noteq> 0 then p_in_gen p + 1 else p_in_gen p),
                           p_waiting_reader := None\<rparr>),
                         Inr to_write,
                         wake (p_waiting_reader p) @ (if to_write \<noteq> 0 then [KpollWake] else []))))"


section \<open>Invariant and contents\<close>

definition pipe_ok :: "pipe \<Rightarrow> bool" where
  "pipe_ok p \<longleftrightarrow> 0 \<le> p_readers p \<and> 0 \<le> p_writers p \<and>
     (p_active p \<longleftrightarrow> 0 < p_readers p \<or> 0 < p_writers p) \<and>
     (p_active p \<longrightarrow>
        (case p_buffer p of None \<Rightarrow> False | Some b \<Rightarrow> length b = PIPE_BUF_SIZE) \<and>
        unat (p_buf_size p) = PIPE_BUF_SIZE \<and> unat (p_read_pos p) < PIPE_BUF_SIZE \<and>
        unat (p_count p) \<le> PIPE_BUF_SIZE \<and>
        unat (p_write_pos p) = (unat (p_read_pos p) + unat (p_count p)) mod PIPE_BUF_SIZE)"

definition pipe_contents :: "pipe \<Rightarrow> u8 list" where
  "pipe_contents p = ring_list (the (p_buffer p)) (unat (p_read_pos p)) (unat (p_count p))"

lemma length_pipe_contents [simp]: "length (pipe_contents p) = unat (p_count p)"
  by (simp add: pipe_contents_def)

lemma pipe_ok_activeE:
  assumes "pipe_ok p" and "p_active p"
  obtains b where "p_buffer p = Some b" and "length b = PIPE_BUF_SIZE"
    and "unat (p_buf_size p) = PIPE_BUF_SIZE" and "unat (p_read_pos p) < PIPE_BUF_SIZE"
    and "unat (p_count p) \<le> PIPE_BUF_SIZE"
    and "unat (p_write_pos p) = (unat (p_read_pos p) + unat (p_count p)) mod PIPE_BUF_SIZE"
  using assms by (auto simp: pipe_ok_def split: option.splits)

text \<open>Advancing a position wraps at the buffer size, never at 32 bits.\<close>

lemma unat_advance:
  fixes pos sz :: u32
  assumes "unat pos < unat sz"
  shows "unat ((pos + 1) mod sz) = (unat pos + 1) mod unat sz"
proof -
  have "unat pos + 1 < 2 ^ 32" using assms unat_u32_less [of sz] by simp
  then have "unat (pos + 1) = unat pos + 1"
    by (simp add: unat_word_ariths)
  then show ?thesis by (simp add: unat_mod_distrib)
qed

lemma read_loop_ring:
  assumes "length buf = unat sz" and "unat pos < unat sz"
  shows "\<exists>pos'. read_loop buf sz pos n = Some (ring_list buf (unat pos) n, pos') \<and>
     unat pos' = (unat pos + n) mod unat sz"
  using assms(2)
proof (induction n arbitrary: pos)
  case 0
  then show ?case by simp
next
  case (Suc n)
  have sz: "sz \<noteq> 0" using Suc.prems by auto
  let ?p = "(pos + 1) mod sz"
  have p: "unat ?p = (unat pos + 1) mod unat sz" using Suc.prems by (rule unat_advance)
  then have "unat ?p < unat sz" using Suc.prems by simp
  from Suc.IH [OF this] obtain q where
    q: "read_loop buf sz ?p n = Some (ring_list buf (unat ?p) n, q)" "unat q = (unat ?p + n) mod unat sz"
    by blast
  have "unat q = (unat pos + Suc n) mod unat sz"
    unfolding q(2) p circ_add_mod by simp
  moreover have "read_loop buf sz pos (Suc n) = Some (ring_list buf (unat pos) (Suc n), q)"
    using Suc.prems sz assms(1) q(1) by (simp add: ring_list_pop p)
  ultimately show ?case by blast
qed

lemma write_loop_ring:
  assumes "length buf = unat sz" and "unat pos = (r + c) mod unat sz" and "c + length xs \<le> unat sz"
    and "0 < unat sz"
  shows "\<exists>buf' pos'. write_loop buf sz pos xs = Some (buf', pos') \<and> length buf' = unat sz \<and>
     ring_list buf' r (c + length xs) = ring_list buf r c @ xs \<and>
     unat pos' = (unat pos + length xs) mod unat sz"
  using assms
proof (induction xs arbitrary: buf pos c)
  case Nil
  then show ?case by simp
next
  case (Cons x xs)
  have sz: "sz \<noteq> 0" and less: "unat pos < unat sz" using Cons.prems by auto
  let ?b = "buf[unat pos := x]" and ?p = "(pos + 1) mod sz"
  have p: "unat ?p = (unat pos + 1) mod unat sz" using less by (rule unat_advance)
  have 1: "length ?b = unat sz" using Cons.prems by simp
  have 2: "unat ?p = (r + Suc c) mod unat sz"
    unfolding p Cons.prems(2) circ_add_mod by simp
  have 3: "Suc c + length xs \<le> unat sz" using Cons.prems by simp
  obtain b' p' where b': "write_loop ?b sz ?p xs = Some (b', p')" "length b' = unat sz"
    "ring_list b' r (Suc c + length xs) = ring_list ?b r (Suc c) @ xs"
    "unat p' = (unat ?p + length xs) mod unat sz"
    using Cons.IH [OF 1 2 3 Cons.prems(4)] by blast
  have "ring_list ?b r (Suc c) = ring_list buf r c @ [x]"
    using ring_list_push [of c buf r x] Cons.prems by simp
  moreover have "unat p' = (unat pos + length (x # xs)) mod unat sz"
    unfolding b'(4) p circ_add_mod by simp
  ultimately show ?case using b' less sz Cons.prems by auto
qed

lemma unat_u32_of_nat: "n < 4294967296 \<Longrightarrow> unat (word_of_nat n :: u32) = n"
  by (simp add: unat_of_nat)

text \<open>
  Reading: the routine never leaves the buffer, and what it returns is the front of the
  contents.
\<close>

lemma pipe_read_active:
  assumes ok: "pipe_ok p" and act: "p_active p" and ne: "p_count p \<noteq> 0"
  shows "\<exists>p'. pipe_read (Some p) True n = Some (Some p', Inr (take n (pipe_contents p)),
      wake (p_waiting_writer p) @ (if n \<noteq> 0 then [KpollWake] else [])) \<and>
    pipe_contents p' = drop n (pipe_contents p) \<and> pipe_ok p' \<and> p_active p' \<and>
    p_readers p' = p_readers p \<and> p_writers p' = p_writers p \<and> p_lock p' = p_lock p"
proof -
  obtain b where b: "p_buffer p = Some b" "length b = PIPE_BUF_SIZE"
    "unat (p_buf_size p) = PIPE_BUF_SIZE" "unat (p_read_pos p) < PIPE_BUF_SIZE"
    "unat (p_count p) \<le> PIPE_BUF_SIZE"
    "unat (p_write_pos p) = (unat (p_read_pos p) + unat (p_count p)) mod PIPE_BUF_SIZE"
    using ok act by (rule pipe_ok_activeE)
  define k where "k = (if n < unat (p_count p) then n else unat (p_count p))"
  have k: "k \<le> unat (p_count p)" by (simp add: k_def)
  obtain pos where pos: "read_loop b (p_buf_size p) (p_read_pos p) k =
      Some (ring_list b (unat (p_read_pos p)) k, pos)"
    "unat pos = (unat (p_read_pos p) + k) mod PIPE_BUF_SIZE"
    using read_loop_ring [of b "p_buf_size p" "p_read_pos p" k] b by auto
  have bs: "ring_list b (unat (p_read_pos p)) k = take n (pipe_contents p)"
  proof -
    have "take k (ring_list b (unat (p_read_pos p)) (unat (p_count p))) =
        ring_list b (unat (p_read_pos p)) k"
      using k by (simp add: ring_list_def take_map)
    then show ?thesis using b(1) by (auto simp: pipe_contents_def k_def)
  qed
  have cnt: "unat (p_count p - word_of_nat k) = unat (p_count p) - k"
    using k b(5) by (simp add: unat_sub word_le_nat_alt unat_u32_of_nat PIPE_BUF_SIZE_def)
  let ?p = "p\<lparr>p_read_pos := pos,
      p_out_gen := (if k \<noteq> 0 \<and> p_count p = p_buf_size p then p_out_gen p + 1 else p_out_gen p),
      p_count := p_count p - word_of_nat k, p_waiting_writer := None\<rparr>"
  have r: "pipe_read (Some p) True n = Some (Some ?p, Inr (take n (pipe_contents p)),
      wake (p_waiting_writer p) @ (if k \<noteq> 0 then [KpollWake] else []))"
    using act ne b(1) pos bs by (simp add: pipe_read_def k_def [symmetric] Let_def)
  have "0 < unat (p_count p)" using ne by (simp add: unat_gt_0)
  then have "k \<noteq> 0 \<longleftrightarrow> n \<noteq> 0" by (auto simp: k_def)
  moreover have "pipe_contents ?p = drop n (pipe_contents p)"
  proof -
    have "pipe_contents ?p = drop k (pipe_contents p)"
      using ring_list_drop [of "unat (p_read_pos p)" b k "unat (p_count p)"] b k pos(2) cnt
      by (simp add: pipe_contents_def)
    also have "\<dots> = drop n (pipe_contents p)" by (auto simp: k_def)
    finally show ?thesis .
  qed
  moreover have "pipe_ok ?p"
  proof -
    have "unat (p_write_pos p) = (unat pos + (unat (p_count p) - k)) mod PIPE_BUF_SIZE"
      unfolding pos(2) circ_add_mod b(6) using k by simp
    moreover have "unat pos < PIPE_BUF_SIZE" unfolding pos(2) by (simp add: PIPE_BUF_SIZE_def)
    ultimately show ?thesis using ok act b cnt by (simp add: pipe_ok_def)
  qed
  ultimately show ?thesis using r act by auto
qed

text \<open>Writing: as much of the source as fits is appended to the contents.\<close>

lemma pipe_write_active:
  assumes ok: "pipe_ok p" and act: "p_active p" and rd: "p_readers p \<noteq> 0"
    and room: "unat (p_count p) < PIPE_BUF_SIZE"
    and k: "k = min (length bs) (PIPE_BUF_SIZE - unat (p_count p))"
  shows "\<exists>p'. pipe_write (Some p) (Some bs) = Some (Some p', Inr k,
      wake (p_waiting_reader p) @ (if k \<noteq> 0 then [KpollWake] else [])) \<and>
    pipe_contents p' = pipe_contents p @ take k bs \<and> pipe_ok p' \<and> p_active p' \<and>
    p_readers p' = p_readers p \<and> p_writers p' = p_writers p \<and> p_lock p' = p_lock p"
proof -
  obtain b where b: "p_buffer p = Some b" "length b = PIPE_BUF_SIZE"
    "unat (p_buf_size p) = PIPE_BUF_SIZE" "unat (p_read_pos p) < PIPE_BUF_SIZE"
    "unat (p_count p) \<le> PIPE_BUF_SIZE"
    "unat (p_write_pos p) = (unat (p_read_pos p) + unat (p_count p)) mod PIPE_BUF_SIZE"
    using ok act by (rule pipe_ok_activeE)
  have sp: "unat (p_buf_size p - p_count p) = PIPE_BUF_SIZE - unat (p_count p)"
    using b by (simp add: unat_sub word_le_nat_alt)
  then have sp0: "p_buf_size p - p_count p \<noteq> 0" using room by (auto simp: unat_eq_zero [symmetric])
  have k': "(if length bs < unat (p_buf_size p - p_count p) then length bs
      else unat (p_buf_size p - p_count p)) = k"
    by (simp add: k sp min_def)
  have lk: "length (take k bs) = k" "unat (p_count p) + k \<le> PIPE_BUF_SIZE"
    using room by (auto simp: k)
  obtain b' pos where w: "write_loop b (p_buf_size p) (p_write_pos p) (take k bs) = Some (b', pos)"
    "length b' = PIPE_BUF_SIZE"
    "ring_list b' (unat (p_read_pos p)) (unat (p_count p) + k) =
       ring_list b (unat (p_read_pos p)) (unat (p_count p)) @ take k bs"
    "unat pos = (unat (p_write_pos p) + k) mod PIPE_BUF_SIZE"
    using write_loop_ring [of b "p_buf_size p" "p_write_pos p" "unat (p_read_pos p)"
        "unat (p_count p)" "take k bs"] b lk
    by (auto simp: PIPE_BUF_SIZE_def)
  have cnt: "unat (p_count p + word_of_nat k) = unat (p_count p) + k"
    using lk(2) by (simp add: unat_word_ariths unat_u32_of_nat PIPE_BUF_SIZE_def)
  let ?p = "p\<lparr>p_buffer := Some b', p_write_pos := pos, p_count := p_count p + word_of_nat k,
      p_in_gen := (if k \<noteq> 0 then p_in_gen p + 1 else p_in_gen p), p_waiting_reader := None\<rparr>"
  have r: "pipe_write (Some p) (Some bs) = Some (Some ?p, Inr k,
      wake (p_waiting_reader p) @ (if k \<noteq> 0 then [KpollWake] else []))"
    using act rd b(1) sp0 w(1) by (simp add: pipe_write_def Let_def k')
  have "pipe_contents ?p = pipe_contents p @ take k bs"
    using w(3) cnt b(1) by (simp add: pipe_contents_def)
  moreover have "pipe_ok ?p"
  proof -
    have "unat pos = (unat (p_read_pos p) + (unat (p_count p) + k)) mod PIPE_BUF_SIZE"
      unfolding w(4) b(6) circ_add_mod by (simp add: add.assoc)
    then show ?thesis using ok act b w(2) cnt lk(2) by (simp add: pipe_ok_def)
  qed
  ultimately show ?thesis using r act by auto
qed


section \<open>The pipe as a bounded channel\<close>

text \<open>The two ends as a reader and a writer use them: a failed call moves no data.\<close>

definition pipe_rd :: "pipe \<Rightarrow> nat \<Rightarrow> pipe \<times> u8 list" where
  "pipe_rd p n =
     (case pipe_read (Some p) True n of
        Some (Some p', Inr bs, _) \<Rightarrow> (p', bs)
      | _ \<Rightarrow> (p, []))"

definition pipe_wr :: "pipe \<Rightarrow> u8 list \<Rightarrow> pipe \<times> nat" where
  "pipe_wr p bs =
     (case pipe_write (Some p) (Some bs) of
        Some (Some p', Inr k, _) \<Rightarrow> (p', k)
      | _ \<Rightarrow> (p, 0))"

definition pipe_open :: "pipe \<Rightarrow> bool" where
  "pipe_open p \<longleftrightarrow> pipe_ok p \<and> p_active p \<and> 0 < p_readers p"

lemma pipe_rd_open:
  assumes "pipe_open p"
  shows "pipe_open (fst (pipe_rd p n)) \<and> snd (pipe_rd p n) = take n (pipe_contents p) \<and>
    pipe_contents (fst (pipe_rd p n)) = drop n (pipe_contents p)"
proof (cases "p_count p = 0")
  case True
  then have "pipe_contents p = []" by (simp add: pipe_contents_def)
  moreover have "pipe_rd p n = (p, [])"
    using assms True
    by (auto simp: pipe_rd_def pipe_read_def pipe_open_def pipe_ok_def split: option.splits)
  ultimately show ?thesis using assms by simp
next
  case False
  with assms pipe_read_active [of p n] show ?thesis
    by (auto simp: pipe_open_def pipe_rd_def)
qed

lemma pipe_wr_open:
  assumes "pipe_open p"
  shows "pipe_open (fst (pipe_wr p bs)) \<and>
    snd (pipe_wr p bs) = min (length bs) (PIPE_BUF_SIZE - length (pipe_contents p)) \<and>
    pipe_contents (fst (pipe_wr p bs)) = pipe_contents p @ take (snd (pipe_wr p bs)) bs"
proof (cases "unat (p_count p) < PIPE_BUF_SIZE")
  case True
  with assms pipe_write_active [of p _ bs] show ?thesis
    by (auto simp: pipe_open_def pipe_wr_def)
next
  case False
  with assms have full: "unat (p_count p) = PIPE_BUF_SIZE" "unat (p_buf_size p) = PIPE_BUF_SIZE"
    by (auto simp: pipe_open_def pipe_ok_def)
  then have "p_buf_size p - p_count p = 0" by (metis eq_iff_diff_eq_0 word_unat_eq_iff)
  then have "pipe_wr p bs = (p, 0)"
    using assms by (auto simp: pipe_wr_def pipe_write_def pipe_open_def pipe_ok_def Let_def
        split: option.splits)
  then show ?thesis using assms full by simp
qed

interpretation pipe_fifo: byte_fifo pipe_open pipe_contents PIPE_BUF_SIZE pipe_rd pipe_wr
proof unfold_locales
  fix p assume "pipe_open p"
  then show "length (pipe_contents p) \<le> PIPE_BUF_SIZE"
    by (auto simp: pipe_open_def pipe_ok_def)
qed (use pipe_rd_open pipe_wr_open in auto)

text \<open>The non-blocking copies of the code do the same work when the lock is free.\<close>

lemma pipe_try_read_free: "\<not> p_lock p \<Longrightarrow> pipe_try_read (Some p) dst n = pipe_read (Some p) dst n"
  by (simp add: pipe_try_read_def pipe_read_def)

lemma pipe_try_write_free: "\<not> p_lock p \<Longrightarrow> pipe_try_write (Some p) src = pipe_write (Some p) src"
  by (auto simp: pipe_try_write_def pipe_write_def split: option.splits)

section \<open>Life cycle\<close>

text \<open>One routine applied to one slot of the table, with any arguments and environment.\<close>

inductive pipe_step :: "pipe list \<Rightarrow> pipe list \<Rightarrow> bool" where
  create: "pipe_create ka t = (t', h) \<Longrightarrow> pipe_step t t'"
| destroy: "i < length t \<Longrightarrow> pipe_destroy (Some (t ! i)) = (Some p, ev) \<Longrightarrow> pipe_step t (t[i := p])"
| read: "i < length t \<Longrightarrow> pipe_read (Some (t ! i)) dst n = Some (Some p, r, ev) \<Longrightarrow>
    pipe_step t (t[i := p])"
| "write": "i < length t \<Longrightarrow> pipe_write (Some (t ! i)) src = Some (Some p, w, ev) \<Longrightarrow>
    pipe_step t (t[i := p])"
| close_read: "i < length t \<Longrightarrow> pipe_close_read (Some (t ! i)) = (Some p, ev) \<Longrightarrow>
    pipe_step t (t[i := p])"
| close_write: "i < length t \<Longrightarrow> pipe_close_write (Some (t ! i)) = (Some p, ev) \<Longrightarrow>
    pipe_step t (t[i := p])"
| dup_reader: "i < length t \<Longrightarrow> pipe_fork_dup_reader (Some (t ! i)) = Some p \<Longrightarrow>
    pipe_step t (t[i := p])"
| dup_writer: "i < length t \<Longrightarrow> pipe_fork_dup_writer (Some (t ! i)) = Some p \<Longrightarrow>
    pipe_step t (t[i := p])"
| wait_reader: "i < length t \<Longrightarrow> pipe_set_waiting_reader (Some (t ! i)) th = Some p \<Longrightarrow>
    pipe_step t (t[i := p])"
| wait_writer: "i < length t \<Longrightarrow> pipe_set_waiting_writer (Some (t ! i)) th = Some p \<Longrightarrow>
    pipe_step t (t[i := p])"
| try_read: "i < length t \<Longrightarrow> pipe_try_read (Some (t ! i)) dst n = Some (Some p, r, ev) \<Longrightarrow>
    pipe_step t (t[i := p])"
| try_write: "i < length t \<Longrightarrow> pipe_try_write (Some (t ! i)) src = Some (Some p, w, ev) \<Longrightarrow>
    pipe_step t (t[i := p])"

inductive pipe_reachable :: "pipe list \<Rightarrow> bool" where
  init: "pipe_reachable pipe_init"
| step: "pipe_reachable t \<Longrightarrow> pipe_step t t' \<Longrightarrow> pipe_reachable t'"

definition table_ok :: "pipe list \<Rightarrow> bool" where
  "table_ok t \<longleftrightarrow> length t = MAX_PIPES \<and> (\<forall>p \<in> set t. pipe_ok p)"

lemma table_ok_update: "table_ok t \<Longrightarrow> pipe_ok p \<Longrightarrow> table_ok (t[i := p])"
  by (auto simp: table_ok_def dest: set_update_subset_insert [THEN subsetD])

lemma table_ok_nth: "table_ok t \<Longrightarrow> i < length t \<Longrightarrow> pipe_ok (t ! i)"
  by (simp add: table_ok_def)

lemma pipe_ok_inactive_buffer: "\<not> p_active p \<Longrightarrow> pipe_ok p \<Longrightarrow> pipe_ok (p\<lparr>p_buffer := b\<rparr>)"
  by (simp add: pipe_ok_def)

lemma pipe_create_ok:
  assumes "table_ok t" and "pipe_create ka t = (t', h)"
  shows "table_ok t'"
proof (cases "scan (\<lambda>i. \<not> p_active (t ! i)) 0 MAX_PIPES")
  case None
  with assms show ?thesis by (simp add: pipe_create_def)
next
  case (Some i)
  then have i: "i < length t" "\<not> p_active (t ! i)"
    using assms(1) by (auto simp: scan_facts table_ok_def)
  have ok: "pipe_ok (t ! i)" using assms(1) i(1) by (rule table_ok_nth)
  show ?thesis
  proof (cases ka)
    case True
    with assms Some show ?thesis
      by (auto simp: pipe_create_def pipe_ok_def PIPE_BUF_SIZE_def intro!: table_ok_update)
  next
    case False
    with assms Some show ?thesis
      by (auto simp: pipe_create_def intro: table_ok_update pipe_ok_inactive_buffer [OF i(2) ok])
  qed
qed

lemma pipe_destroy_ok: "pipe_ok p \<Longrightarrow> pipe_destroy (Some p) = (Some p', ev) \<Longrightarrow> pipe_ok p'"
  by (auto simp: pipe_destroy_def pipe_ok_def split: if_splits)

lemma pipe_read_ok:
  assumes "pipe_ok p" and "pipe_read (Some p) dst n = Some (Some p', r, ev)"
  shows "pipe_ok p'"
proof (cases "dst \<and> p_active p \<and> p_count p \<noteq> 0")
  case True
  with assms pipe_read_active [of p n] show ?thesis by auto
next
  case False
  with assms have "p' = p" by (auto simp: pipe_read_def split: if_splits)
  with assms show ?thesis by simp
qed

lemma pipe_write_ok:
  assumes "pipe_ok p" and "pipe_write (Some p) src = Some (Some p', r, ev)"
  shows "pipe_ok p'"
proof (cases "src \<noteq> None \<and> p_active p \<and> p_readers p \<noteq> 0 \<and> unat (p_count p) < PIPE_BUF_SIZE")
  case True
  with assms pipe_write_active [of p _ "the src"] show ?thesis by auto
next
  case False
  have "p_buf_size p - p_count p = 0" if "p_active p" "\<not> unat (p_count p) < PIPE_BUF_SIZE"
  proof -
    from that assms(1) have "unat (p_buf_size p) = unat (p_count p)"
      by (auto simp: pipe_ok_def)
    then show ?thesis by (metis eq_iff_diff_eq_0 word_unat_eq_iff)
  qed
  with False assms have "p' = p"
    by (auto simp: pipe_write_def Let_def split: if_splits option.splits)
  with assms show ?thesis by simp
qed

lemma pipe_close_read_ok: "pipe_ok p \<Longrightarrow> pipe_close_read (Some p) = (Some p', ev) \<Longrightarrow> pipe_ok p'"
  by (auto simp: pipe_close_read_def pipe_destroy_def pipe_ok_def Let_def split: if_splits)

lemma pipe_close_write_ok: "pipe_ok p \<Longrightarrow> pipe_close_write (Some p) = (Some p', ev) \<Longrightarrow> pipe_ok p'"
  by (auto simp: pipe_close_write_def pipe_destroy_def pipe_ok_def Let_def split: if_splits)

lemma pipe_small_ok:
  "pipe_ok p \<Longrightarrow> pipe_fork_dup_reader (Some p) = Some p' \<Longrightarrow> pipe_ok p'"
  "pipe_ok p \<Longrightarrow> pipe_fork_dup_writer (Some p) = Some p' \<Longrightarrow> pipe_ok p'"
  "pipe_ok p \<Longrightarrow> pipe_set_waiting_reader (Some p) th = Some p' \<Longrightarrow> pipe_ok p'"
  "pipe_ok p \<Longrightarrow> pipe_set_waiting_writer (Some p) th = Some p' \<Longrightarrow> pipe_ok p'"
  by (auto simp: pipe_fork_dup_reader_def pipe_fork_dup_writer_def pipe_set_waiting_reader_def
      pipe_set_waiting_writer_def pipe_ok_def)

lemma pipe_try_read_ok:
  "pipe_ok p \<Longrightarrow> pipe_try_read (Some p) dst n = Some (Some p', r, ev) \<Longrightarrow> pipe_ok p'"
  using pipe_read_ok pipe_try_read_free by (cases "p_lock p") (auto simp: pipe_try_read_def split: if_splits)

lemma pipe_try_write_ok:
  "pipe_ok p \<Longrightarrow> pipe_try_write (Some p) src = Some (Some p', r, ev) \<Longrightarrow> pipe_ok p'"
  using pipe_write_ok pipe_try_write_free
  by (cases "p_lock p") (auto simp: pipe_try_write_def split: if_splits option.splits)

lemmas pipe_routines_ok = pipe_destroy_ok pipe_read_ok pipe_write_ok pipe_close_read_ok
  pipe_close_write_ok pipe_small_ok pipe_try_read_ok pipe_try_write_ok

lemma pipe_step_ok: "pipe_step t t' \<Longrightarrow> table_ok t \<Longrightarrow> table_ok t'"
proof (induction rule: pipe_step.induct)
  case (create ka t t' h)
  then show ?case by (blast intro: pipe_create_ok)
qed (blast intro: table_ok_update pipe_routines_ok table_ok_nth)+

lemma pipe_reachable_table_ok: "pipe_reachable t \<Longrightarrow> table_ok t"
proof (induction rule: pipe_reachable.induct)
  case init
  show ?case by (auto simp: table_ok_def pipe_init_def pipe_ok_def zero_pipe_def)
next
  case (step t t')
  then show ?case by (blast intro: pipe_step_ok)
qed


section \<open>Properties\<close>

text \<open>A run of requests on one pipe: the final state, the bytes accepted, the bytes delivered.\<close>

datatype pipe_req = PRead nat | PWrite "u8 list"

fun pipe_run :: "pipe \<Rightarrow> pipe_req list \<Rightarrow> (pipe \<times> u8 list \<times> u8 list) option" where
  "pipe_run p [] = Some (p, [], [])"
| "pipe_run p (PRead n # es) =
     (case pipe_read (Some p) True n of
        Some (Some p1, r, _) \<Rightarrow>
          map_option (\<lambda>(p2, acc, del). (p2, acc, (case r of Inl _ \<Rightarrow> [] | Inr bs \<Rightarrow> bs) @ del))
            (pipe_run p1 es)
      | _ \<Rightarrow> None)"
| "pipe_run p (PWrite bs # es) =
     (case pipe_write (Some p) (Some bs) of
        Some (Some p1, r, _) \<Rightarrow>
          map_option (\<lambda>(p2, acc, del). (p2, take (case r of Inl _ \<Rightarrow> 0 | Inr k \<Rightarrow> k) bs @ acc, del))
            (pipe_run p1 es)
      | _ \<Rightarrow> None)"

fun req_of :: "pipe_req \<Rightarrow> nat + u8 list" where
  "req_of (PRead n) = Inl n"
| "req_of (PWrite bs) = Inr bs"

lemma pipe_read_total:
  assumes "pipe_open p"
  shows "\<exists>r ev. pipe_read (Some p) True n = Some (Some (fst (pipe_rd p n)), r, ev) \<and>
    (case r of Inl _ \<Rightarrow> [] | Inr bs \<Rightarrow> bs) = snd (pipe_rd p n)"
proof (cases "p_count p = 0")
  case True
  then show ?thesis
    using assms by (auto simp: pipe_rd_def pipe_read_def pipe_open_def pipe_ok_def split: option.splits)
next
  case False
  with assms pipe_read_active [of p n] show ?thesis
    by (auto simp: pipe_open_def pipe_rd_def)
qed

lemma pipe_write_total:
  assumes "pipe_open p"
  shows "\<exists>r ev. pipe_write (Some p) (Some bs) = Some (Some (fst (pipe_wr p bs)), r, ev) \<and>
    (case r of Inl _ \<Rightarrow> 0 | Inr k \<Rightarrow> k) = snd (pipe_wr p bs)"
proof (cases "unat (p_count p) < PIPE_BUF_SIZE")
  case True
  with assms pipe_write_active [of p _ bs] show ?thesis
    by (auto simp: pipe_open_def pipe_wr_def)
next
  case False
  with assms have "unat (p_count p) = unat (p_buf_size p)"
    by (auto simp: pipe_open_def pipe_ok_def)
  then have "p_buf_size p - p_count p = 0" by (metis eq_iff_diff_eq_0 word_unat_eq_iff)
  then show ?thesis
    using assms by (auto simp: pipe_wr_def pipe_write_def pipe_open_def pipe_ok_def Let_def
        split: option.splits)
qed

lemma pipe_run_fifo: "pipe_open p \<Longrightarrow> pipe_run p es = Some (pipe_fifo.run p (map req_of es))"
proof (induction es arbitrary: p)
  case Nil
  then show ?case by simp
next
  case (Cons e es)
  show ?case
  proof (cases e)
    case (PRead n)
    obtain r ev where r: "pipe_read (Some p) True n = Some (Some (fst (pipe_rd p n)), r, ev)"
      "(case r of Inl _ \<Rightarrow> [] | Inr bs \<Rightarrow> bs) = snd (pipe_rd p n)"
      using pipe_read_total [OF Cons.prems] by blast
    have "pipe_open (fst (pipe_rd p n))" using Cons.prems pipe_rd_open by blast
    from Cons.IH [OF this] show ?thesis
      by (simp add: PRead r split_beta Let_def)
  next
    case (PWrite bs)
    obtain r ev where r: "pipe_write (Some p) (Some bs) = Some (Some (fst (pipe_wr p bs)), r, ev)"
      "(case r of Inl _ \<Rightarrow> 0 | Inr k \<Rightarrow> k) = snd (pipe_wr p bs)"
      using pipe_write_total [OF Cons.prems] by blast
    have "pipe_open (fst (pipe_wr p bs))" using Cons.prems pipe_wr_open by blast
    from Cons.IH [OF this] show ?thesis
      by (simp add: PWrite r split_beta Let_def)
  qed
qed

text \<open>A pipe as \<^verbatim>\<open>pipe_create\<close> leaves it.\<close>

definition fresh_pipe :: pipe where
  "fresh_pipe = zero_pipe\<lparr>p_buffer := Some (replicate PIPE_BUF_SIZE 0),
     p_buf_size := word_of_nat PIPE_BUF_SIZE, p_readers := 1, p_writers := 1, p_active := True\<rparr>"

lemma fresh_pipe_open: "pipe_open fresh_pipe" and fresh_pipe_empty: "pipe_contents fresh_pipe = []"
  by (simp_all add: pipe_open_def pipe_ok_def fresh_pipe_def zero_pipe_def PIPE_BUF_SIZE_def
      pipe_contents_def)

text \<open>
  C1. A pipe is a byte stream: for every sequence of reads and writes on an open pipe with
  a reader, no access leaves the buffer, and the bytes accepted by the writes are exactly
  the bytes delivered by the reads, in order, followed by what is still in the pipe.
\<close>

theorem pipe_stream:
  assumes "pipe_open p"
  shows "\<exists>p' acc del. pipe_run p es = Some (p', acc, del) \<and> pipe_open p' \<and>
    pipe_contents p @ acc = del @ pipe_contents p'"
proof -
  obtain p' acc del where r: "pipe_fifo.run p (map req_of es) = (p', acc, del)"
    by (cases "pipe_fifo.run p (map req_of es)") blast
  from pipe_fifo.run_stream [OF assms r] pipe_run_fifo [OF assms, of es] r show ?thesis by auto
qed

theorem pipe_stream_witness:
  "\<exists>p' acc del. pipe_run fresh_pipe [PWrite [1, 2, 3], PRead 2] = Some (p', acc, del) \<and>
    pipe_open p' \<and> pipe_contents fresh_pipe @ acc = del @ pipe_contents p'"
  by (rule pipe_stream [OF fresh_pipe_open])


text \<open>
  C2. In every table the routines can produce from the initial one, a slot is in use
  exactly while one of its ends is open, and a slot in use has a whole buffer, both
  positions and the fill count inside it, and the write position exactly the fill count
  ahead of the read position.
\<close>

theorem pipe_table_invariant:
  assumes "pipe_reachable t" and "i < MAX_PIPES"
  shows "(p_active (t ! i) \<longleftrightarrow> 0 < p_readers (t ! i) \<or> 0 < p_writers (t ! i)) \<and>
    (p_active (t ! i) \<longrightarrow>
      (\<exists>b. p_buffer (t ! i) = Some b \<and> length b = PIPE_BUF_SIZE) \<and>
      unat (p_read_pos (t ! i)) < PIPE_BUF_SIZE \<and> unat (p_count (t ! i)) \<le> PIPE_BUF_SIZE \<and>
      unat (p_write_pos (t ! i)) =
        (unat (p_read_pos (t ! i)) + unat (p_count (t ! i))) mod PIPE_BUF_SIZE)"
proof -
  have "table_ok t" using assms(1) by (rule pipe_reachable_table_ok)
  with assms(2) have "pipe_ok (t ! i)" by (simp add: table_ok_def)
  then show ?thesis by (auto simp: pipe_ok_def split: option.splits)
qed

theorem pipe_table_invariant_witness:
  "p_active (fst (pipe_create True pipe_init) ! 0) \<and>
   unat (p_count (fst (pipe_create True pipe_init) ! 0)) \<le> PIPE_BUF_SIZE"
proof -
  have r: "pipe_reachable (fst (pipe_create True pipe_init))"
    by (rule pipe_reachable.step [OF pipe_reachable.init])
      (rule pipe_step.create [of True _ _ "snd (pipe_create True pipe_init)"], simp)
  have a: "p_active (fst (pipe_create True pipe_init) ! 0)"
    by (simp add: pipe_create_def pipe_init_def zero_pipe_def MAX_PIPES_def
        scan.simps [of _ 0 "64"])
  show ?thesis using pipe_table_invariant [OF r, of 0] a by (simp add: MAX_PIPES_def)
qed

text \<open>
  C37. The non-blocking routines used by the desktop terminal return \<^verbatim>\<open>-EAGAIN\<close> and change
  nothing while the lock is held, and otherwise are the blocking routines.
\<close>

theorem pipe_try_agrees:
  "pipe_try_read (Some p) True n =
     (if p_lock p then Some (Some p, Inl EAGAIN, []) else pipe_read (Some p) True n) \<and>
   pipe_try_write (Some p) (Some bs) =
     (if p_lock p then Some (Some p, Inl EAGAIN, []) else pipe_write (Some p) (Some bs))"
  by (simp add: pipe_try_read_free pipe_try_write_free)
    (simp add: pipe_try_read_def pipe_try_write_def)

definition freed :: "pipe \<Rightarrow> pipe" where
  "freed p = p\<lparr>p_readers := 0, p_writers := 0, p_waiting_writer := None, p_waiting_reader := None,
     p_buffer := None, p_active := False, p_buf_size := 0, p_read_pos := 0, p_write_pos := 0,
     p_count := 0\<rparr>"

lemma close_destroys:
  assumes "pipe_ok p" and "p_active p"
  shows "p_readers p \<le> 1 \<and> p_writers p = 0 \<Longrightarrow> pipe_close_read (Some p) =
      (Some (freed p), wake (p_waiting_writer p) @ wake (p_waiting_reader p) @ [KpollWake, FifoGone, KFree])"
    and "p_writers p \<le> 1 \<and> p_readers p = 0 \<Longrightarrow> pipe_close_write (Some p) =
      (Some (freed p), wake (p_waiting_reader p) @ wake (p_waiting_writer p) @ [KpollWake, FifoGone, KFree])"
  using assms by (auto simp: pipe_close_read_def pipe_close_write_def pipe_destroy_def pipe_ok_def
      freed_def Let_def split: option.splits)

lemma close_keeps:
  assumes "pipe_ok p" and "p_active p"
  shows "\<not> (p_readers p \<le> 1 \<and> p_writers p = 0) \<Longrightarrow> \<exists>p'. p_active p' \<and> pipe_contents p' = pipe_contents p \<and>
      pipe_close_read (Some p) =
        (Some p', wake (p_waiting_writer p) @ wake (p_waiting_reader p) @ [KpollWake])"
    and "\<not> (p_writers p \<le> 1 \<and> p_readers p = 0) \<Longrightarrow> \<exists>p'. p_active p' \<and> pipe_contents p' = pipe_contents p \<and>
      pipe_close_write (Some p) =
        (Some p', wake (p_waiting_reader p) @ wake (p_waiting_writer p) @ [KpollWake])"
  using assms by (auto simp: pipe_close_read_def pipe_close_write_def pipe_ok_def pipe_contents_def Let_def)

lemma wake_no_free [simp]: "count_list (wake w) KFree = 0"
  and wake_mem [simp]: "ThreadWake th \<in> set (wake w) \<longleftrightarrow> w = Some th"
  by (auto simp: wake_def split: option.splits)

lemma freed_fails:
  "pipe_read (Some (freed p)) True n = Some (Some (freed p), Inl FAIL, [])"
  "pipe_write (Some (freed p)) (Some bs) = Some (Some (freed p), Inl EPIPE, [])"
  by (simp_all add: pipe_read_def pipe_write_def freed_def)

text \<open>
  C21. Closing the last open end, whichever side it is, wakes a blocked reader and writer,
  releases the buffer exactly once and leaves an inactive slot on which reads and writes
  fail; closing any other end keeps the buffer and the bytes queued in it.
\<close>

theorem pipe_last_close:
  assumes "pipe_ok p" and "p_active p"
    and "close = pipe_close_read \<and> is_last = (p_readers p \<le> 1 \<and> p_writers p = 0) \<or>
         close = pipe_close_write \<and> is_last = (p_writers p \<le> 1 \<and> p_readers p = 0)"
  shows "case close (Some p) of
      (None, ev) \<Rightarrow> False
    | (Some p', ev) \<Rightarrow>
        p_active p' = (\<not> is_last) \<and> count_list ev KFree = (if is_last then 1 else 0) \<and>
        (\<forall>th. p_waiting_reader p = Some th \<or> p_waiting_writer p = Some th \<longrightarrow>
           ThreadWake th \<in> set ev) \<and>
        (if is_last
         then p_buffer p' = None \<and> pipe_read (Some p') True n = Some (Some p', Inl FAIL, []) \<and>
           pipe_write (Some p') (Some bs) = Some (Some p', Inl EPIPE, [])
         else pipe_contents p' = pipe_contents p)"
proof (cases is_last)
  case True
  then have "p_active (freed p) = (\<not> is_last)" "p_buffer (freed p) = None" by (simp_all add: freed_def)
  with True assms close_destroys [OF assms(1,2)] show ?thesis
    by (elim disjE) (auto simp: freed_fails)
next
  case False
  with assms close_keeps [OF assms(1,2)] show ?thesis by (elim disjE) auto
qed

theorem pipe_last_close_witness:
  "case pipe_close_read (Some (fresh_pipe\<lparr>p_writers := 0, p_waiting_reader := Some 9\<rparr>)) of
      (None, ev) \<Rightarrow> False
    | (Some p', ev) \<Rightarrow> p_buffer p' = None \<and> count_list ev KFree = 1 \<and> ThreadWake 9 \<in> set ev"
proof -
  let ?p = "fresh_pipe\<lparr>p_writers := 0, p_waiting_reader := Some 9\<rparr>"
  have h: "pipe_ok ?p" "p_active ?p" "p_readers ?p \<le> 1 \<and> p_writers ?p = 0"
    by (simp_all add: pipe_ok_def fresh_pipe_def zero_pipe_def PIPE_BUF_SIZE_def)
  from h(3) have "pipe_close_read = pipe_close_read \<and> True = (p_readers ?p \<le> 1 \<and> p_writers ?p = 0) \<or>
      pipe_close_read = pipe_close_write \<and> True = (p_writers ?p \<le> 1 \<and> p_readers ?p = 0)" by simp
  from pipe_last_close [OF h(1,2) this] show ?thesis
    by (auto split: prod.splits option.splits)
qed

end
