(* ===== verification/Pmm.thy ===== *)
theory Pmm
  imports Prelude
begin

text \<open>
  The physical page allocator of \<^verbatim>\<open>src/src/mem.c\<close>: the bitmap operations of
  \<^verbatim>\<open>src/src/bitmap.h\<close>, the next-fit search and the bookkeeping of
  \<^verbatim>\<open>_kalloc_internal\<close>, the page branch of \<^verbatim>\<open>kfree\<close>, and the start-up code that builds
  the bitmap and the entry map out of the boot loader's memory map. The slab layer on top
  of it is in the theory \<open>Slab\<close>.

  \<^item> The bitmap is the list of its bytes. Reading or writing a bit outside it gives \<open>None\<close>,
    so a routine that returns \<open>Some\<close> made no access outside the bitmap.
  \<^item> Page numbers, addresses and sizes are natural numbers. The two conversions between
    pages and addresses are taken modulo \<open>2^64\<close>, because \<^verbatim>\<open>kfree\<close> relies on the wrap-around
    of a foreign pointer to reject it.
  \<^item> \<^verbatim>\<open>entry_map\<close> holds 32-bit words and \<^verbatim>\<open>num_pages_available\<close> is a 64-bit word.
  \<^item> The lock \<^verbatim>\<open>pmm_lock\<close> makes each routine one step; messages are left out.
\<close>

unbundle bit_operations_syntax

section \<open>The bitmap\<close>

definition PAGE_SIZE :: nat where
  "PAGE_SIZE = 4096"

definition bitmap_test :: "u8 list \<Rightarrow> nat \<Rightarrow> bool option" where
  "bitmap_test bm b =
    (if b div 8 < length bm then Some ((bm ! (b div 8)) AND push_bit (b mod 8) 1 \<noteq> 0) else None)"

definition bitmap_on :: "u8 list \<Rightarrow> nat \<Rightarrow> u8 list option" where
  "bitmap_on bm b =
    (if b div 8 < length bm
     then Some (bm[b div 8 := (bm ! (b div 8)) OR push_bit (b mod 8) 1]) else None)"

definition bitmap_off :: "u8 list \<Rightarrow> nat \<Rightarrow> u8 list option" where
  "bitmap_off bm b =
    (if b div 8 < length bm
     then Some (bm[b div 8 := (bm ! (b div 8)) AND NOT (push_bit (b mod 8) 1)]) else None)"

text \<open>\<^verbatim>\<open>_reserve_pages\<close>, and the loop of \<^verbatim>\<open>kfree\<close> that clears the bits again.\<close>

fun reserve_pages :: "u8 list \<Rightarrow> nat \<Rightarrow> nat \<Rightarrow> u8 list option" where
  "reserve_pages bm start 0 = Some bm"
| "reserve_pages bm start (Suc k) =
    (case bitmap_on bm start of None \<Rightarrow> None | Some bm' \<Rightarrow> reserve_pages bm' (Suc start) k)"

fun release_pages :: "u8 list \<Rightarrow> nat \<Rightarrow> nat \<Rightarrow> u8 list option" where
  "release_pages bm start 0 = Some bm"
| "release_pages bm start (Suc k) =
    (case bitmap_off bm start of None \<Rightarrow> None | Some bm' \<Rightarrow> release_pages bm' (Suc start) k)"

section \<open>The state\<close>

record pmm =
  total_memory_bytes :: nat
  max_pages_available :: nat
  num_pages_in_map :: nat
  lowest_address :: nat
  higher_half_offset :: nat
  page_bitmap :: "u8 list"
  allocation_cursor :: nat
  num_pages_available :: u64
  entry_map :: "u32 list"

definition get_addr_from_page :: "('a) pmm_scheme \<Rightarrow> nat \<Rightarrow> nat" where
  "get_addr_from_page s page =
    (lowest_address s + page * PAGE_SIZE + higher_half_offset s) mod 2 ^ 64"

definition get_page_from_addr :: "('a) pmm_scheme \<Rightarrow> nat \<Rightarrow> nat" where
  "get_page_from_addr s addr =
    nat ((int addr - int (lowest_address s) - int (higher_half_offset s)) mod 2 ^ 64) div PAGE_SIZE"

definition DIV_ROUNDUP :: "nat \<Rightarrow> nat \<Rightarrow> nat" where
  "DIV_ROUNDUP x y = (x + y - 1) div y"

definition ALIGN_UP :: "nat \<Rightarrow> nat \<Rightarrow> nat" where
  "ALIGN_UP x base = (x + base - 1) div base * base"

section \<open>Allocation\<close>

text \<open>
  The loop of \<^verbatim>\<open>_kalloc_internal\<close>. Its result is the first page and the last cursor of the
  run found, or \<open>Some None\<close> when the second pass ended without one. The third component of
  the state of the loop is \<^verbatim>\<open>allocated_pages\<close>, which the source leaves at its old value when
  a run is broken off.
\<close>

function search ::
  "u8 list \<Rightarrow> nat \<Rightarrow> nat \<Rightarrow> nat \<Rightarrow> nat \<Rightarrow> bool \<Rightarrow> bool \<Rightarrow> nat \<Rightarrow> nat \<Rightarrow> (nat \<times> nat) option option" where
  "search bm num reset_value pages cursor looped allocating start_alloc allocated =
    (case bitmap_test bm cursor of
       None \<Rightarrow> None
     | Some page_state \<Rightarrow>
       (let (allocating, start_alloc, allocated) =
              (if \<not> allocating then
                 if \<not> page_state then (True, cursor, 1) else (False, start_alloc, allocated)
               else
                 if page_state then (False, start_alloc, allocated)
                 else (True, start_alloc, allocated + 1)) in
        if allocated = pages then Some (Some (start_alloc, cursor))
        else if cursor + 1 \<ge> num then
          if looped then Some None
          else search bm num reset_value pages reset_value True False start_alloc allocated
        else search bm num reset_value pages (cursor + 1) looped allocating start_alloc allocated))"
  by pat_completeness auto
termination
  by (relation "measures [\<lambda>(bm, num, r, n, c, looped, _). if looped then 0 else 1,
                          \<lambda>(bm, num, r, n, c, looped, _). num - c]")
    (auto split: if_splits)

declare search.simps [simp del]

text \<open>
  \<^verbatim>\<open>_kalloc_internal\<close>: the outer \<open>None\<close> is an access outside the bitmap or the entry map, the
  inner one the null pointer.
\<close>

definition kalloc_internal ::
  "('a) pmm_scheme \<Rightarrow> nat \<Rightarrow> nat \<Rightarrow> bool \<Rightarrow> (nat option \<times> ('a) pmm_scheme) option" where
  "kalloc_internal s numBytes start_page use_global =
    (if numBytes = 0 then Some (None, s)
     else if numBytes > (2 ^ 64 - 1) div 2 then Some (None, s)
     else
       let pages_to_alloc = DIV_ROUNDUP numBytes PAGE_SIZE in
       if max_pages_available s = 0 then Some (None, s)
       else if pages_to_alloc > max_pages_available s div 4 then Some (None, s)
       else
         case search (page_bitmap s) (num_pages_in_map s) start_page pages_to_alloc
                (if use_global then allocation_cursor s else start_page) False False 0 0 of
           None \<Rightarrow> None
         | Some None \<Rightarrow> Some (None, s)
         | Some (Some (start_alloc, cursor)) \<Rightarrow>
             let s1 = (if use_global
                       then s\<lparr>allocation_cursor :=
                                (if cursor + 1 \<ge> num_pages_in_map s then 0 else cursor + 1)\<rparr>
                       else s) in
             case reserve_pages (page_bitmap s) start_alloc pages_to_alloc of
               None \<Rightarrow> None
             | Some bm \<Rightarrow>
                 if start_alloc < length (entry_map s)
                 then Some (Some (get_addr_from_page s start_alloc),
                   s1\<lparr>page_bitmap := bm,
                      entry_map := (entry_map s)[start_alloc := of_nat pages_to_alloc],
                      num_pages_available := num_pages_available s - of_nat pages_to_alloc\<rparr>)
                 else None)"

text \<open>\<^verbatim>\<open>kalloc_high\<close>: only pages from 1 MiB on, without the shared cursor.\<close>

definition kalloc_high :: "('a) pmm_scheme \<Rightarrow> nat \<Rightarrow> (nat option \<times> ('a) pmm_scheme) option" where
  "kalloc_high s numBytes =
    kalloc_internal s numBytes
      (nat ((int 0x100000 - int (lowest_address s)) mod 2 ^ 64) div PAGE_SIZE) False"

text \<open>
  \<^verbatim>\<open>kfree\<close> from the point where the slab pages have been dealt with. \<open>None\<close> is again an access
  out of bounds.
\<close>

definition kfree_pages :: "('a) pmm_scheme \<Rightarrow> nat \<Rightarrow> ('a) pmm_scheme option" where
  "kfree_pages s ptr =
    (let page_index = get_page_from_addr s ptr in
     if page_index \<ge> num_pages_in_map s then Some s
     else if page_index \<ge> length (entry_map s) then None
     else if entry_map s ! page_index = 0 then Some s
     else
       let pages_to_free = unat (entry_map s ! page_index) in
       if page_index + pages_to_free > num_pages_in_map s then Some s
       else
         case release_pages (page_bitmap s) page_index pages_to_free of
           None \<Rightarrow> None
         | Some bm \<Rightarrow>
             Some (s\<lparr>page_bitmap := bm,
                     entry_map := (entry_map s)[page_index := 0],
                     num_pages_available := num_pages_available s + of_nat pages_to_free\<rparr>))"

section \<open>Start-up\<close>

text \<open>
  The memory map of the boot loader, as far as the code looks at it: \<^verbatim>\<open>e_usable\<close> is
  \<^verbatim>\<open>type == LIMINE_MEMMAP_USABLE\<close>.
\<close>

record mem_entry =
  e_base :: nat
  e_length :: nat
  e_usable :: bool

text \<open>The loop of \<^verbatim>\<open>_init_stats\<close> over total size, page count, highest and lowest address.\<close>

fun init_stats :: "mem_entry list \<Rightarrow> nat \<times> nat \<times> nat \<times> nat \<Rightarrow> nat \<times> nat \<times> nat \<times> nat" where
  "init_stats [] st = st"
| "init_stats (e # es) (bytes, pages, highest, lowest) =
    init_stats es
      (if e_usable e
       then (bytes + e_length e, pages + e_length e div PAGE_SIZE,
             max highest (e_base e + e_length e),
             if lowest = 0 then e_base e else min lowest (e_base e))
       else (bytes, pages, highest, lowest))"

text \<open>
  The loop shared by \<^verbatim>\<open>_create_page_bitmap\<close> and \<^verbatim>\<open>_create_entry_map\<close>: the first usable entry
  that is large enough gives up its first \<open>sz\<close> bytes.
\<close>

fun place :: "nat \<Rightarrow> mem_entry list \<Rightarrow> (nat \<times> mem_entry list) option" where
  "place sz [] = None"
| "place sz (e # es) =
    (if e_usable e \<and> sz \<le> e_length e
     then Some (e_base e, e\<lparr>e_base := e_base e + sz, e_length := e_length e - sz\<rparr> # es)
     else map_option (\<lambda>(b, es'). (b, e # es')) (place sz es))"

definition bitmap_bytes :: "nat \<Rightarrow> nat" where
  "bitmap_bytes num = ALIGN_UP (num div 8) PAGE_SIZE"

definition entry_map_bytes :: "nat \<Rightarrow> nat" where
  "entry_map_bytes num = ALIGN_UP (4 * num) PAGE_SIZE"

text \<open>
  \<^verbatim>\<open>_create_page_bitmap\<close> and \<^verbatim>\<open>_create_entry_map\<close>: the table, the remaining page count and the
  remaining memory map. When no entry has room the pointer stays null, here the empty list.
\<close>

definition create_page_bitmap ::
  "nat \<Rightarrow> nat \<Rightarrow> mem_entry list \<Rightarrow> u8 list \<times> nat \<times> mem_entry list" where
  "create_page_bitmap num pages es =
    (case place (bitmap_bytes num) es of
       None \<Rightarrow> ([], pages, es)
     | Some (_, es') \<Rightarrow>
         (replicate (bitmap_bytes num) 0xFF, pages - bitmap_bytes num div PAGE_SIZE, es'))"

definition create_entry_map ::
  "nat \<Rightarrow> nat \<Rightarrow> mem_entry list \<Rightarrow> u32 list \<times> nat \<times> mem_entry list" where
  "create_entry_map num pages es =
    (case place (entry_map_bytes num) es of
       None \<Rightarrow> ([], pages, es)
     | Some (_, es') \<Rightarrow>
         (replicate (entry_map_bytes num div 4) 0, pages - entry_map_bytes num div PAGE_SIZE, es'))"

text \<open>\<^verbatim>\<open>_get_free_pages\<close>: clears the bits of the usable entries and counts them.\<close>

fun get_free_pages :: "nat \<Rightarrow> mem_entry list \<Rightarrow> u8 list \<times> u64 \<Rightarrow> (u8 list \<times> u64) option" where
  "get_free_pages lowest [] st = Some st"
| "get_free_pages lowest (e # es) (bm, avail) =
    (if e_usable e then
       let start_bit = nat ((int (e_base e) - int lowest) mod 2 ^ 64) div PAGE_SIZE;
           pages_free = e_length e div PAGE_SIZE in
       case release_pages bm start_bit pages_free of
         None \<Rightarrow> None
       | Some bm' \<Rightarrow> get_free_pages lowest es (bm', avail + of_nat pages_free)
     else get_free_pages lowest es (bm, avail))"

text \<open>
  \<^verbatim>\<open>kmem_init\<close>. \<open>hhdm\<close> is the offset the boot loader reports, if it does.
\<close>

definition kmem_init :: "mem_entry list \<Rightarrow> nat option \<Rightarrow> pmm option" where
  "kmem_init es hhdm =
    (let offset = (case hhdm of Some off \<Rightarrow> off | None \<Rightarrow> 0xFFFF800000000000);
         (bytes, pages, highest, lowest) = init_stats es (0, 0, 0, 0);
         num = (highest - lowest) div PAGE_SIZE;
         (bm, pages, es) = create_page_bitmap num pages es;
         (em, pages, es) = create_entry_map num pages es in
     case get_free_pages lowest es (bm, 0) of
       None \<Rightarrow> None
     | Some (bm, avail) \<Rightarrow>
         Some \<lparr>total_memory_bytes = bytes, max_pages_available = pages, num_pages_in_map = num,
               lowest_address = lowest, higher_half_offset = offset, page_bitmap = bm,
               allocation_cursor = 0, num_pages_available = avail, entry_map = em\<rparr>)"

section \<open>Facts about the bitmap\<close>

definition taken :: "u8 list \<Rightarrow> nat \<Rightarrow> bool" where
  "taken bm p \<longleftrightarrow> p div 8 < length bm \<and> bit (bm ! (p div 8)) (p mod 8)"

lemma bitmap_test_taken: "p < 8 * length bm \<Longrightarrow> bitmap_test bm p = Some (taken bm p)"
  by (simp add: bitmap_test_def taken_def and_exp_eq_0_iff_not_bit push_bit_of_1 div_less_mono
      less_mult_imp_div_less mult.commute)

lemma same_bit_iff: "p div 8 = q div 8 \<Longrightarrow> p mod 8 = q mod 8 \<longleftrightarrow> p = (q :: nat)"
  by (metis div_mult_mod_eq)

lemma bitmap_on_taken:
  assumes "p < 8 * length bm"
  shows "\<exists>bm'. bitmap_on bm p = Some bm' \<and> length bm' = length bm
    \<and> (\<forall>q. taken bm' q \<longleftrightarrow> q = p \<or> taken bm q)"
proof -
  have p: "p div 8 < length bm" using assms by (simp add: less_mult_imp_div_less mult.commute)
  have "taken (bm[p div 8 := (bm ! (p div 8)) OR push_bit (p mod 8) 1]) q \<longleftrightarrow> q = p \<or> taken bm q"
    for q
    using p by (cases "q div 8 = p div 8")
      (auto simp: taken_def nth_list_update bit_or_iff push_bit_of_1 bit_exp_iff same_bit_iff
        dest: same_bit_iff)
  with p show ?thesis by (simp add: bitmap_on_def)
qed

lemma bitmap_off_taken:
  assumes "p < 8 * length bm"
  shows "\<exists>bm'. bitmap_off bm p = Some bm' \<and> length bm' = length bm
    \<and> (\<forall>q. taken bm' q \<longleftrightarrow> q \<noteq> p \<and> taken bm q)"
proof -
  have p: "p div 8 < length bm" using assms by (simp add: less_mult_imp_div_less mult.commute)
  have "taken (bm[p div 8 := (bm ! (p div 8)) AND NOT (push_bit (p mod 8) 1)]) q
      \<longleftrightarrow> q \<noteq> p \<and> taken bm q" for q
    using p by (cases "q div 8 = p div 8")
      (auto simp: taken_def nth_list_update bit_and_iff bit_not_iff push_bit_of_1 bit_exp_iff
        same_bit_iff dest: same_bit_iff)
  with p show ?thesis by (simp add: bitmap_off_def)
qed

lemma range_Suc:
  "start \<le> q \<and> q < start + Suc k \<longleftrightarrow> (Suc start \<le> q \<and> q < Suc start + k) \<or> q = (start :: nat)"
  by auto

lemma reserve_pages_taken:
  "start + k \<le> 8 * length bm \<Longrightarrow>
   \<exists>bm'. reserve_pages bm start k = Some bm' \<and> length bm' = length bm
    \<and> (\<forall>q. taken bm' q \<longleftrightarrow> start \<le> q \<and> q < start + k \<or> taken bm q)"
proof (induction k arbitrary: bm start)
  case 0
  then show ?case by auto
next
  case (Suc k)
  from Suc.prems have "start < 8 * length bm" by simp
  from bitmap_on_taken [OF this] obtain b1 where b1: "bitmap_on bm start = Some b1"
    "length b1 = length bm" "\<forall>q. taken b1 q \<longleftrightarrow> q = start \<or> taken bm q" by blast
  from Suc.IH [of "Suc start" b1] Suc.prems b1(2) obtain b2 where
    b2: "reserve_pages b1 (Suc start) k = Some b2" "length b2 = length b1"
      "\<forall>q. taken b2 q \<longleftrightarrow> Suc start \<le> q \<and> q < Suc start + k \<or> taken b1 q" by auto
  have "taken b2 q \<longleftrightarrow> start \<le> q \<and> q < start + Suc k \<or> taken bm q" for q
    by (simp only: b1(3) b2(3) range_Suc [of start q k] disj_assoc)
  with b1 b2(1,2) show ?case by simp
qed

lemma release_pages_taken:
  "start + k \<le> 8 * length bm \<Longrightarrow>
   \<exists>bm'. release_pages bm start k = Some bm' \<and> length bm' = length bm
    \<and> (\<forall>q. taken bm' q \<longleftrightarrow> \<not> (start \<le> q \<and> q < start + k) \<and> taken bm q)"
proof (induction k arbitrary: bm start)
  case 0
  then show ?case by auto
next
  case (Suc k)
  from Suc.prems have "start < 8 * length bm" by simp
  from bitmap_off_taken [OF this] obtain b1 where b1: "bitmap_off bm start = Some b1"
    "length b1 = length bm" "\<forall>q. taken b1 q \<longleftrightarrow> q \<noteq> start \<and> taken bm q" by blast
  from Suc.IH [of "Suc start" b1] Suc.prems b1(2) obtain b2 where
    b2: "release_pages b1 (Suc start) k = Some b2" "length b2 = length b1"
      "\<forall>q. taken b2 q \<longleftrightarrow> \<not> (Suc start \<le> q \<and> q < Suc start + k) \<and> taken b1 q" by auto
  have "taken b2 q \<longleftrightarrow> \<not> (start \<le> q \<and> q < start + Suc k) \<and> taken bm q" for q
    by (simp only: b1(3) b2(3) range_Suc [of start q k] de_Morgan_disj conj_assoc)
  with b1 b2(1,2) show ?case by simp
qed

section \<open>The search\<close>

definition free_run :: "u8 list \<Rightarrow> nat \<Rightarrow> nat \<Rightarrow> bool" where
  "free_run bm p n \<longleftrightarrow> (\<forall>q. p \<le> q \<and> q < p + n \<longrightarrow> \<not> taken bm q)"

lemma free_run_taken: "free_run bm p n \<Longrightarrow> taken bm q \<Longrightarrow> q < p \<or> p + n \<le> q"
  by (auto simp: free_run_def not_less)

lemma free_run_Suc: "free_run bm p n \<Longrightarrow> \<not> taken bm (p + n) \<Longrightarrow> free_run bm p (Suc n)"
  by (auto simp: free_run_def less_Suc_eq)

text \<open>
  The loop invariant: a run that is being collected is free and ends just before the cursor,
  and fewer than the requested number of pages have been collected.
\<close>

definition collecting :: "u8 list \<Rightarrow> nat \<Rightarrow> nat \<Rightarrow> nat \<Rightarrow> bool \<Rightarrow> nat \<Rightarrow> nat \<Rightarrow> bool" where
  "collecting bm lo pages cursor allocating start n \<longleftrightarrow>
    n < pages \<and> lo \<le> cursor \<and>
    (allocating \<longrightarrow> start + n = cursor \<and> lo \<le> start \<and> free_run bm start n)"

text \<open>One iteration, for a cursor inside the bitmap.\<close>

definition collect :: "u8 list \<Rightarrow> nat \<Rightarrow> bool \<Rightarrow> nat \<Rightarrow> nat \<Rightarrow> bool \<times> nat \<times> nat" where
  "collect bm cursor allocating start n =
    (if taken bm cursor then (False, start, n)
     else if allocating then (True, start, n + 1) else (True, cursor, 1))"

lemma search_step:
  assumes "cursor < 8 * length bm"
  shows "search bm num r pages cursor looped allocating start n =
    (case collect bm cursor allocating start n of (allocating, start, n) \<Rightarrow>
       if n = pages then Some (Some (start, cursor))
       else if cursor + 1 \<ge> num then
         if looped then Some None else search bm num r pages r True False start n
       else search bm num r pages (cursor + 1) looped allocating start n)"
  by (subst search.simps) (simp add: bitmap_test_taken [OF assms] collect_def)

lemma collect_collecting:
  assumes "collecting bm lo pages cursor allocating start n"
    and "collect bm cursor allocating start n = (a', start', n')"
  shows "n' = pages \<Longrightarrow> a' \<and> start' + n' = cursor + 1 \<and> lo \<le> start' \<and> free_run bm start' n'"
    and "n' \<noteq> pages \<Longrightarrow> collecting bm lo pages (cursor + 1) a' start' n'"
  using assms
  by (auto simp: collecting_def collect_def free_run_Suc split: if_splits)
    (auto simp: free_run_def le_less_Suc_eq)

text \<open>Induction along the loop, in the order the iterations happen.\<close>

lemma search_induct [case_names iteration]:
  assumes "\<And>cursor looped a start n.
      (\<And>a' start' n'. collect bm cursor a start n = (a', start', n') \<Longrightarrow> n' \<noteq> pages \<Longrightarrow>
         cursor + 1 \<ge> num \<Longrightarrow> \<not> looped \<Longrightarrow> P r True False start' n') \<Longrightarrow>
      (\<And>a' start' n'. collect bm cursor a start n = (a', start', n') \<Longrightarrow> n' \<noteq> pages \<Longrightarrow>
         cursor + 1 < num \<Longrightarrow> P (cursor + 1) looped a' start' n') \<Longrightarrow>
      P cursor looped a start n"
  shows "P cursor looped a start n"
proof (induction "(if looped then 0 else num + 1) + (num - cursor)"
    arbitrary: cursor looped a start n rule: less_induct)
  case less
  show ?case
  proof (rule assms)
    fix a' start' n'
    assume "\<not> looped"
    then show "P r True False start' n'" by (intro less) auto
  next
    fix a' start' n'
    assume "cursor + 1 < num"
    then show "P (cursor + 1) looped a' start' n'" by (intro less) auto
  qed
qed

lemma search_total:
  assumes "r < num" and "num \<le> 8 * length bm"
  shows "cursor < num \<Longrightarrow> search bm num r pages cursor looped allocating start n \<noteq> None"
proof (induction cursor looped allocating start n
    rule: search_induct [where bm = bm and pages = pages and num = num and r = r])
  case (iteration cursor looped a start n)
  obtain a' start' n' where c: "collect bm cursor a start n = (a', start', n')"
    by (metis prod_cases3)
  show ?case
    using iteration.IH [OF c] iteration.prems assms
    by (simp add: search_step c not_le)
qed

lemma search_sound:
  assumes "num \<le> 8 * length bm" and "lo \<le> r" and "r < num"
  shows "cursor < num \<Longrightarrow> collecting bm lo pages cursor a start n \<Longrightarrow>
    search bm num r pages cursor looped a start n = Some (Some (p, c)) \<Longrightarrow>
    lo \<le> p \<and> p + pages = c + 1 \<and> c < num \<and> free_run bm p pages"
proof (induction cursor looped a start n
    rule: search_induct [where bm = bm and pages = pages and num = num and r = r])
  case (iteration cursor looped a start n)
  obtain a' start' n' where c: "collect bm cursor a start n = (a', start', n')"
    by (metis prod_cases3)
  note nxt = collect_collecting [OF iteration.prems(2) c]
  have wrap: "n' \<noteq> pages \<Longrightarrow> collecting bm lo pages r False start' n'"
    using nxt(2) assms(2) by (simp add: collecting_def)
  have s: "search bm num r pages cursor looped a start n = Some (Some (p, c))"
    by (fact iteration.prems(3))
  show ?case
  proof (cases "n' = pages")
    case True
    with s nxt(1) iteration.prems(1) assms c show ?thesis by (auto simp: search_step)
  next
    case False
    with s iteration.IH [OF c] iteration.prems(1) assms c wrap nxt(2) show ?thesis
      by (auto simp: search_step not_le split: if_splits)
  qed
qed

text \<open>
  In the second pass every free run of the requested size that lies at or above the reset
  page is still ahead: it starts at or after the run being collected, or at or after the
  cursor.
\<close>

definition ahead :: "u8 list \<Rightarrow> nat \<Rightarrow> nat \<Rightarrow> nat \<Rightarrow> nat \<Rightarrow> bool \<Rightarrow> nat \<Rightarrow> bool" where
  "ahead bm num r pages cursor allocating start \<longleftrightarrow>
    (\<forall>p. r \<le> p \<and> p + pages \<le> num \<and> free_run bm p pages
       \<longrightarrow> (if allocating then start \<le> p else cursor \<le> p))"

lemma collect_ahead:
  assumes "collecting bm lo pages cursor a start n" and "ahead bm num r pages cursor a start"
    and "collect bm cursor a start n = (a', start', n')"
  shows "ahead bm num r pages (cursor + 1) a' start'"
  unfolding ahead_def
proof (intro allI impI)
  fix p assume p: "r \<le> p \<and> p + pages \<le> num \<and> free_run bm p pages"
  with assms(2) have le: "if a then start \<le> p else cursor \<le> p" by (simp add: ahead_def)
  show "if a' then start' \<le> p else cursor + 1 \<le> p"
  proof (cases "taken bm cursor")
    case True
    from p True have "cursor < p \<or> p + pages \<le> cursor" by (auto dest: free_run_taken)
    with True le assms(1,3) show ?thesis
      by (auto simp: collect_def collecting_def split: if_splits)
  next
    case False
    with le assms(3) show ?thesis by (auto simp: collect_def split: if_splits)
  qed
qed

lemma search_complete:
  assumes "num \<le> 8 * length bm" and "r < num"
  shows "cursor < num \<Longrightarrow> collecting bm 0 pages cursor a start n \<Longrightarrow>
    (looped \<Longrightarrow> ahead bm num r pages cursor a start) \<Longrightarrow>
    search bm num r pages cursor looped a start n = Some None \<Longrightarrow>
    r \<le> p \<Longrightarrow> p + pages \<le> num \<Longrightarrow> \<not> free_run bm p pages"
proof (induction cursor looped a start n
    rule: search_induct [where bm = bm and pages = pages and num = num and r = r])
  case (iteration cursor looped a start n)
  obtain a' start' n' where c: "collect bm cursor a start n = (a', start', n')"
    by (metis prod_cases3)
  have s: "search bm num r pages cursor looped a start n = Some None"
    by (fact iteration.prems(4))
  then have ne: "n' \<noteq> pages" using iteration.prems(1) assms c by (auto simp: search_step)
  note nxt = collect_collecting(2) [OF iteration.prems(2) c ne]
  have wrap: "collecting bm 0 pages r False start' n'" "ahead bm num r pages r False start'"
    using nxt by (auto simp: collecting_def ahead_def)
  consider (go) "cursor + 1 < num" | (wrap) "cursor + 1 \<ge> num" "\<not> looped"
    | (stop) "cursor + 1 \<ge> num" "looped" by linarith
  then show ?case
  proof cases
    case go
    have "looped \<Longrightarrow> ahead bm num r pages (cursor + 1) a' start'"
      using iteration.prems(2,3) c by (blast intro: collect_ahead)
    with go s ne c assms iteration.prems iteration.IH(2) [OF c ne go] nxt show ?thesis
      by (simp add: search_step)
  next
    case wrap: wrap
    with s ne c assms iteration.prems iteration.IH(1) [OF c ne wrap] \<open>collecting bm 0 pages r False start' n'\<close>
      \<open>ahead bm num r pages r False start'\<close> show ?thesis
      by (simp add: search_step)
  next
    case stop
    with iteration.prems(2,3) c have "ahead bm num r pages (cursor + 1) a' start'"
      by (blast intro: collect_ahead)
    with stop iteration.prems(1,5,6) nxt show ?thesis
      by (auto simp: ahead_def collecting_def split: if_splits)
  qed
qed

section \<open>The invariant of the page allocator\<close>

text \<open>
  The entry of the first page of an allocation holds its number of pages; bit 31 tags a page
  of the slab layer, which is an allocation of one page.
\<close>

definition SLAB_TAG :: u32 where
  "SLAB_TAG = 0x80000000"

definition extent :: "u32 \<Rightarrow> nat" where
  "extent e = (if e AND SLAB_TAG \<noteq> 0 then 1 else unat e)"

definition layout_ok :: "('a) pmm_scheme \<Rightarrow> bool" where
  "layout_ok s \<longleftrightarrow>
    0 < lowest_address s + higher_half_offset s \<and>
    (lowest_address s + higher_half_offset s) mod PAGE_SIZE = 0 \<and>
    lowest_address s + higher_half_offset s + num_pages_in_map s * PAGE_SIZE \<le> 2 ^ 64 \<and>
    0 < num_pages_in_map s \<and> num_pages_in_map s < 2 ^ 31 \<and>
    num_pages_in_map s \<le> 8 * length (page_bitmap s) \<and>
    num_pages_in_map s \<le> length (entry_map s) \<and>
    allocation_cursor s < num_pages_in_map s"

definition block_ok :: "('a) pmm_scheme \<Rightarrow> nat \<Rightarrow> bool" where
  "block_ok s p \<longleftrightarrow>
    p + extent (entry_map s ! p) \<le> num_pages_in_map s \<and>
    (\<forall>q. p \<le> q \<and> q < p + extent (entry_map s ! p) \<longrightarrow> taken (page_bitmap s) q) \<and>
    (\<forall>q. p < q \<and> q < p + extent (entry_map s ! p) \<longrightarrow> entry_map s ! q = 0)"

definition free_pages :: "('a) pmm_scheme \<Rightarrow> nat set" where
  "free_pages s = {p. p < num_pages_in_map s \<and> \<not> taken (page_bitmap s) p}"

definition pages_ok :: "('a) pmm_scheme \<Rightarrow> bool" where
  "pages_ok s \<longleftrightarrow> layout_ok s \<and>
    (\<forall>p < num_pages_in_map s. entry_map s ! p \<noteq> 0 \<longrightarrow> block_ok s p) \<and>
    num_pages_available s = of_nat (card (free_pages s))"

lemma tag_iff_bit: "(e AND SLAB_TAG \<noteq> 0) = bit e 31"
proof -
  have "(e AND 2 ^ 31 = 0) = (\<not> bit e 31)" by (rule and_exp_eq_0_iff_not_bit)
  then show ?thesis by (simp add: SLAB_TAG_def)
qed

lemma extent_pos: "e \<noteq> 0 \<Longrightarrow> 0 < extent e"
  by (simp add: extent_def unat_gt_0)

lemma extent_of_nat:
  assumes "k < 2 ^ 31"
  shows "extent (of_nat k) = k" "(of_nat k :: u32) AND SLAB_TAG = 0"
    "unat (of_nat k :: u32) = k"
proof -
  have u: "unat (of_nat k :: u32) = k" using assms by (simp add: unat_of_nat)
  have "bit (of_nat k :: u32) 31 \<longleftrightarrow> bit (unat (of_nat k :: u32)) 31"
    by (simp only: bit_unsigned_iff possible_bit_nat simp_thms)
  also have "\<dots> \<longleftrightarrow> False" unfolding u using assms by (simp add: bit_iff_odd)
  finally have "\<not> bit (of_nat k :: u32) 31" by simp
  then show "extent (of_nat k) = k" "(of_nat k :: u32) AND SLAB_TAG = 0"
    using u by (auto simp: extent_def tag_iff_bit [symmetric])
  show "unat (of_nat k :: u32) = k" by (rule u)
qed

lemma finite_free_pages [simp]: "finite (free_pages s)"
  by (simp add: free_pages_def)

text \<open>Two allocations share no page.\<close>

lemma blocks_disjoint:
  assumes "pages_ok s" and "p < num_pages_in_map s" and "q < num_pages_in_map s"
    and "entry_map s ! p \<noteq> 0" and "entry_map s ! q \<noteq> 0" and "p \<noteq> q"
  shows "p + extent (entry_map s ! p) \<le> q \<or> q + extent (entry_map s ! q) \<le> p"
proof -
  have *: "p + extent (entry_map s ! p) \<le> q"
    if "p < num_pages_in_map s" "entry_map s ! p \<noteq> 0" "entry_map s ! q \<noteq> 0" "p < q" for p q
  proof -
    from assms(1) that have "block_ok s p" by (simp add: pages_ok_def)
    with that(3,4) show ?thesis unfolding block_ok_def by (meson not_le)
  qed
  from assms(6) consider "p < q" | "q < p" by linarith
  then show ?thesis using * assms by cases blast+
qed

section \<open>Addresses\<close>

definition page_addr :: "('a) pmm_scheme \<Rightarrow> nat \<Rightarrow> nat" where
  "page_addr s p = lowest_address s + higher_half_offset s + p * PAGE_SIZE"

lemma get_addr_from_page_eq:
  assumes "layout_ok s" and "p < num_pages_in_map s"
  shows "get_addr_from_page s p = page_addr s p"
proof -
  have "p * PAGE_SIZE < num_pages_in_map s * PAGE_SIZE"
    using assms(2) by (simp add: PAGE_SIZE_def)
  with assms(1) have "page_addr s p < 2 ^ 64"
    unfolding layout_ok_def page_addr_def by linarith
  moreover have "get_addr_from_page s p = page_addr s p mod 2 ^ 64"
    by (simp add: get_addr_from_page_def page_addr_def ac_simps)
  ultimately show ?thesis by simp
qed

lemma get_page_from_addr_in:
  assumes "layout_ok s" and "p < num_pages_in_map s" and "k < PAGE_SIZE"
  shows "get_page_from_addr s (page_addr s p + k) = p"
proof -
  have "p * PAGE_SIZE + k < num_pages_in_map s * PAGE_SIZE"
  proof -
    have "p * PAGE_SIZE + k < Suc p * PAGE_SIZE" using assms(3) by simp
    also have "\<dots> \<le> num_pages_in_map s * PAGE_SIZE"
      using assms(2) by (intro mult_le_mono1) simp
    finally show ?thesis .
  qed
  then have lt: "p * PAGE_SIZE + k < 2 ^ 64" using assms(1) by (simp add: layout_ok_def)
  have "int (page_addr s p + k) - int (lowest_address s) - int (higher_half_offset s)
      = int (p * PAGE_SIZE + k)"
    by (simp add: page_addr_def)
  moreover have "int (p * PAGE_SIZE + k) mod 2 ^ 64 = int (p * PAGE_SIZE + k)"
  proof (rule mod_pos_pos_trivial)
    show "int (p * PAGE_SIZE + k) < 2 ^ 64"
      using lt by (simp only: of_nat_less_iff [symmetric, where ?'a = int] of_nat_power of_nat_numeral)
  qed simp
  ultimately have "get_page_from_addr s (page_addr s p + k) = (p * PAGE_SIZE + k) div PAGE_SIZE"
    unfolding get_page_from_addr_def by (simp only: nat_int)
  with assms(3) show ?thesis by (simp add: PAGE_SIZE_def)
qed

section \<open>What allocating and freeing do\<close>

text \<open>
  The effect of a successful allocation of \<open>k\<close> pages at \<open>p\<close>, and of freeing the allocation
  at \<open>p\<close>. Everything not mentioned keeps its value, the cursor apart.
\<close>

definition same_layout :: "('a) pmm_scheme \<Rightarrow> ('a) pmm_scheme \<Rightarrow> bool" where
  "same_layout s s' \<longleftrightarrow>
    num_pages_in_map s' = num_pages_in_map s \<and> lowest_address s' = lowest_address s \<and>
    higher_half_offset s' = higher_half_offset s \<and>
    max_pages_available s' = max_pages_available s \<and>
    total_memory_bytes s' = total_memory_bytes s \<and>
    length (page_bitmap s') = length (page_bitmap s) \<and> pmm.more s' = pmm.more s"

definition grabbed :: "('a) pmm_scheme \<Rightarrow> nat \<Rightarrow> nat \<Rightarrow> ('a) pmm_scheme \<Rightarrow> bool" where
  "grabbed s p k s' \<longleftrightarrow> same_layout s s' \<and>
    entry_map s' = (entry_map s)[p := of_nat k] \<and>
    (\<forall>q. taken (page_bitmap s') q \<longleftrightarrow> p \<le> q \<and> q < p + k \<or> taken (page_bitmap s) q) \<and>
    num_pages_available s' = num_pages_available s - of_nat k \<and>
    allocation_cursor s' < num_pages_in_map s"

definition dropped :: "('a) pmm_scheme \<Rightarrow> nat \<Rightarrow> nat \<Rightarrow> ('a) pmm_scheme \<Rightarrow> bool" where
  "dropped s p k s' \<longleftrightarrow> same_layout s s' \<and>
    entry_map s' = (entry_map s)[p := 0] \<and>
    (\<forall>q. taken (page_bitmap s') q \<longleftrightarrow> \<not> (p \<le> q \<and> q < p + k) \<and> taken (page_bitmap s) q) \<and>
    num_pages_available s' = num_pages_available s + of_nat k \<and>
    allocation_cursor s' = allocation_cursor s"

lemma grabbed_layout: "layout_ok s \<Longrightarrow> grabbed s p k s' \<Longrightarrow> layout_ok s'"
  by (simp add: layout_ok_def grabbed_def same_layout_def)

lemma dropped_layout: "layout_ok s \<Longrightarrow> dropped s p k s' \<Longrightarrow> layout_ok s'"
  by (simp add: layout_ok_def dropped_def same_layout_def)

lemma grabbedD:
  assumes "grabbed s p k s'"
  shows "num_pages_in_map s' = num_pages_in_map s" "entry_map s' = (entry_map s)[p := of_nat k]"
    "taken (page_bitmap s') q \<longleftrightarrow> p \<le> q \<and> q < p + k \<or> taken (page_bitmap s) q"
  using assms unfolding grabbed_def same_layout_def by blast+

lemma droppedD:
  assumes "dropped s p k s'"
  shows "num_pages_in_map s' = num_pages_in_map s" "entry_map s' = (entry_map s)[p := 0]"
    "taken (page_bitmap s') q \<longleftrightarrow> \<not> (p \<le> q \<and> q < p + k) \<and> taken (page_bitmap s) q"
  using assms unfolding dropped_def same_layout_def by blast+

lemma card_grabbed:
  assumes "grabbed s p k s'" and "free_run (page_bitmap s) p k" and "p + k \<le> num_pages_in_map s"
  shows "card (free_pages s) = card (free_pages s') + k"
proof -
  have "free_pages s = free_pages s' \<union> {p..<p + k}" "free_pages s' \<inter> {p..<p + k} = {}"
    using assms by (auto simp: grabbed_def same_layout_def free_pages_def free_run_def)
  then show ?thesis by (simp add: card_Un_disjoint)
qed

lemma grabbed_free_pages: "grabbed s p k s' \<Longrightarrow> free_pages s' = free_pages s - {p..<p + k}"
  by (rule set_eqI) (auto simp: free_pages_def grabbedD(1,3))

lemma card_dropped:
  assumes "dropped s p k s'" and "p + k \<le> num_pages_in_map s"
    and "\<forall>q. p \<le> q \<and> q < p + k \<longrightarrow> taken (page_bitmap s) q"
  shows "card (free_pages s') = card (free_pages s) + k"
proof -
  note t' = droppedD(3) [OF assms(1)] and n = droppedD(1) [OF assms(1)]
  have "free_pages s' = free_pages s \<union> {p..<p + k}"
    using assms(2) by (intro set_eqI) (auto simp: free_pages_def t' n)
  moreover have "free_pages s \<inter> {p..<p + k} = {}"
    using assms(3) by (auto simp: free_pages_def)
  ultimately show ?thesis by (simp add: card_Un_disjoint)
qed

lemma grabbed_pages_ok:
  assumes ok: "pages_ok s" and g: "grabbed s p k s'" and free: "free_run (page_bitmap s) p k"
    and le: "p + k \<le> num_pages_in_map s" and k: "0 < k"
  shows "pages_ok s'"
proof -
  let ?e = "entry_map s" and ?n = "num_pages_in_map s"
  have lay: "layout_ok s" using ok by (simp add: pages_ok_def)
  then have n: "?n \<le> length ?e" "?n < 2 ^ 31" by (auto simp: layout_ok_def)
  with le have k31: "k < 2 ^ 31" by linarith
  note e' = grabbedD(1,2) [OF g] and t' = grabbedD(3) [OF g]
  have unowned: "?e ! q = 0" if "p \<le> q" "q < p + k" for q
  proof (rule ccontr)
    assume a: "?e ! q \<noteq> 0"
    with ok that le have "block_ok s q" by (simp add: pages_ok_def)
    with extent_pos [OF a] have "taken (page_bitmap s) q" by (simp add: block_ok_def)
    with free that show False by (simp add: free_run_def)
  qed
  have "block_ok s' q" if q: "q < ?n" "entry_map s' ! q \<noteq> 0" for q
  proof (cases "q = p")
    case True
    with unowned le n k show ?thesis
      by (simp add: block_ok_def e' t' extent_of_nat(1) [OF k31])
  next
    case False
    with q n have a: "?e ! q \<noteq> 0" by (simp add: e')
    with ok q(1) have b: "block_ok s q" by (simp add: pages_ok_def)
    have "x \<noteq> p" if "q \<le> x" "x < q + extent (?e ! q)" for x
    proof -
      have "taken (page_bitmap s) x" using b that by (simp add: block_ok_def)
      with free k show ?thesis by (auto simp: free_run_def)
    qed
    then have "\<forall>x. q < x \<and> x < q + extent (?e ! q) \<longrightarrow> ?e[p := of_nat k] ! x = ?e ! x"
      by (metis less_imp_le nth_list_update_neq)
    with b False show ?thesis by (simp add: block_ok_def e' t')
  qed
  moreover have "num_pages_available s' = of_nat (card (free_pages s'))"
    using ok g card_grabbed [OF g free le] by (simp add: pages_ok_def grabbed_def)
  ultimately show ?thesis
    using grabbed_layout [OF lay g] by (simp add: pages_ok_def e')
qed

lemma dropped_pages_ok:
  assumes ok: "pages_ok s" and d: "dropped s p k s'" and p: "p < num_pages_in_map s"
    and e: "entry_map s ! p \<noteq> 0" "k = extent (entry_map s ! p)"
  shows "pages_ok s'"
proof -
  let ?e = "entry_map s" and ?n = "num_pages_in_map s"
  have lay: "layout_ok s" using ok by (simp add: pages_ok_def)
  then have n: "?n \<le> length ?e" by (simp add: layout_ok_def)
  have b: "block_ok s p" using ok p e by (simp add: pages_ok_def)
  note e' = droppedD(1,2) [OF d] and t' = droppedD(3) [OF d]
  have "block_ok s' q" if q: "q < ?n" "entry_map s' ! q \<noteq> 0" for q
  proof -
    from q n p have a: "?e ! q \<noteq> 0" "q \<noteq> p" by (auto simp: e' nth_list_update split: if_splits)
    with ok q(1) have bq: "block_ok s q" by (simp add: pages_ok_def)
    from blocks_disjoint [OF ok q(1) p a(1) e(1) a(2)]
    have "q + extent (?e ! q) \<le> p \<or> p + k \<le> q" by (simp add: e(2))
    with bq a(2) n show ?thesis by (auto simp: block_ok_def e' t' nth_list_update)
  qed
  moreover have "card (free_pages s') = card (free_pages s) + k"
    using d b by (intro card_dropped) (auto simp: block_ok_def e(2))
  then have "num_pages_available s' = of_nat (card (free_pages s'))"
    using ok d by (simp add: pages_ok_def dropped_def)
  ultimately show ?thesis
    using dropped_layout [OF lay d] by (simp add: pages_ok_def e')
qed

lemma DIV_ROUNDUP_pos: "0 < n \<Longrightarrow> 0 < DIV_ROUNDUP n PAGE_SIZE"
  by (simp add: DIV_ROUNDUP_def PAGE_SIZE_def div_greater_zero_iff)

lemma DIV_ROUNDUP_covers: "n \<le> DIV_ROUNDUP n PAGE_SIZE * PAGE_SIZE"
  by (simp add: DIV_ROUNDUP_def PAGE_SIZE_def)

lemma kalloc_internal_search:
  assumes "0 < n" and "n \<le> (2 ^ 64 - 1) div 2" and "k = DIV_ROUNDUP n PAGE_SIZE"
    and "k \<le> max_pages_available s div 4"
  shows "kalloc_internal s n start_page g =
    (case search (page_bitmap s) (num_pages_in_map s) start_page k
            (if g then allocation_cursor s else start_page) False False 0 0 of
       None \<Rightarrow> None | Some None \<Rightarrow> Some (None, s)
     | Some (Some (a, c)) \<Rightarrow>
         (case reserve_pages (page_bitmap s) a k of None \<Rightarrow> None
          | Some bm \<Rightarrow> if a < length (entry_map s) then Some (Some (get_addr_from_page s a),
              (if g then s\<lparr>allocation_cursor := (if c + 1 \<ge> num_pages_in_map s then 0 else c + 1)\<rparr>
               else s)
              \<lparr>page_bitmap := bm, entry_map := (entry_map s)[a := of_nat k],
                 num_pages_available := num_pages_available s - of_nat k\<rparr>) else None))"
proof -
  have "max_pages_available s \<noteq> 0" using assms DIV_ROUNDUP_pos [of n] by auto
  with assms show ?thesis unfolding kalloc_internal_def Let_def by (simp split: option.split)
qed

lemma kalloc_internal_cases:
  assumes ok: "pages_ok s" and r: "start_page < num_pages_in_map s"
    and k_def: "k = DIV_ROUNDUP n PAGE_SIZE"
  shows "(\<exists>p s'. kalloc_internal s n start_page g = Some (Some (page_addr s p), s') \<and> 0 < k \<and>
        p + k \<le> num_pages_in_map s \<and> (\<not> g \<longrightarrow> start_page \<le> p) \<and>
        free_run (page_bitmap s) p k \<and> grabbed s p k s') \<or>
    kalloc_internal s n start_page g = Some (None, s) \<and>
      (n = 0 \<or> 2 ^ 63 \<le> n \<or> max_pages_available s div 4 < k \<or>
       (\<forall>p. start_page \<le> p \<and> p + k \<le> num_pages_in_map s \<longrightarrow> \<not> free_run (page_bitmap s) p k))"
proof (cases "n = 0 \<or> n > (2 ^ 64 - 1) div 2 \<or> max_pages_available s div 4 < k")
  case True
  then have "kalloc_internal s n start_page g = Some (None, s)"
    unfolding kalloc_internal_def k_def Let_def by auto
  moreover from True have "n = 0 \<or> 2 ^ 63 \<le> n \<or> max_pages_available s div 4 < k" by auto
  ultimately show ?thesis by blast
next
  case False
  then have k: "0 < k" by (simp add: k_def DIV_ROUNDUP_pos)
  from False have sz: "0 < n" "n \<le> (2 ^ 64 - 1) div 2" "k \<le> max_pages_available s div 4" by auto
  let ?bm = "page_bitmap s" and ?num = "num_pages_in_map s"
  let ?c = "if g then allocation_cursor s else start_page" and ?lo = "if g then 0 else start_page"
  have lay: "layout_ok s" using ok by (simp add: pages_ok_def)
  then have num: "?num \<le> 8 * length ?bm" "?num \<le> length (entry_map s)" "?c < ?num"
    using r by (auto simp: layout_ok_def)
  have col: "collecting ?bm lo k ?c False 0 0" if "lo \<le> ?c" for lo
    using k that by (simp add: collecting_def)
  note unf = kalloc_internal_search [OF _ _ k_def, of s start_page g]
  from search_total [OF r num(1,3)] obtain res
    where res: "search ?bm ?num start_page k ?c False False 0 0 = Some res" by blast
  show ?thesis
  proof (cases res)
    case None
    with search_complete [OF num(1) r num(3) col] res
    have "\<forall>p. start_page \<le> p \<and> p + k \<le> ?num \<longrightarrow> \<not> free_run ?bm p k" by auto
    with None res unf [OF sz] show ?thesis by simp
  next
    case (Some ac)
    then obtain a c where ac: "res = Some (a, c)" by (cases ac) auto
    have snd: "?lo \<le> a \<and> a + k = c + 1 \<and> c < ?num \<and> free_run ?bm a k"
    proof (rule search_sound [OF num(1) _ r num(3) col])
      show "search ?bm ?num start_page k ?c False False 0 0 = Some (Some (a, c))"
        using res ac by simp
    qed simp_all
    then have le: "a + k \<le> ?num" and a: "a < ?num" using k by auto
    from le num(1) have "a + k \<le> 8 * length ?bm" by simp
    from reserve_pages_taken [OF this] obtain bm where bm: "reserve_pages ?bm a k = Some bm"
      "length bm = length ?bm" "\<forall>q. taken bm q \<longleftrightarrow> a \<le> q \<and> q < a + k \<or> taken ?bm q" by blast
    let ?s1 = "if g then s\<lparr>allocation_cursor := (if c + 1 \<ge> ?num then 0 else c + 1)\<rparr> else s"
    let ?s' = "?s1\<lparr>page_bitmap := bm, entry_map := (entry_map s)[a := of_nat k],
                   num_pages_available := num_pages_available s - of_nat k\<rparr>"
    have "kalloc_internal s n start_page g = Some (Some (page_addr s a), ?s')"
      using unf [OF sz] res ac bm(1) a num(2) get_addr_from_page_eq [OF lay a] by simp
    moreover have "grabbed s a k ?s'"
      using bm(2,3) lay snd r by (simp add: grabbed_def same_layout_def layout_ok_def)
    moreover have "\<not> g \<longrightarrow> start_page \<le> a" using snd by (simp split: if_splits)
    ultimately show ?thesis using k le snd by blast
  qed
qed

text \<open>Freeing a pointer into the first page of an allocation that is not a slab page.\<close>

lemma kfree_pages_spec:
  assumes ok: "pages_ok s" and p: "p < num_pages_in_map s" and off: "off < PAGE_SIZE"
    and e: "entry_map s ! p \<noteq> 0" "entry_map s ! p AND SLAB_TAG = 0"
  shows "\<exists>s'. kfree_pages s (page_addr s p + off) = Some s'
    \<and> dropped s p (extent (entry_map s ! p)) s'"
proof -
  let ?k = "unat (entry_map s ! p)"
  have lay: "layout_ok s" using ok by (simp add: pages_ok_def)
  have k: "extent (entry_map s ! p) = ?k" using e(2) by (simp add: extent_def)
  have "block_ok s p" using ok p e(1) by (simp add: pages_ok_def)
  then have le: "p + ?k \<le> num_pages_in_map s" by (simp add: block_ok_def k)
  then have "p + ?k \<le> 8 * length (page_bitmap s)" using lay by (simp add: layout_ok_def)
  from release_pages_taken [OF this] obtain bm
    where bm: "release_pages (page_bitmap s) p ?k = Some bm" "length bm = length (page_bitmap s)"
      "\<forall>q. taken bm q \<longleftrightarrow> \<not> (p \<le> q \<and> q < p + ?k) \<and> taken (page_bitmap s) q" by blast
  let ?s' = "s\<lparr>page_bitmap := bm, entry_map := (entry_map s)[p := 0],
                 num_pages_available := num_pages_available s + of_nat ?k\<rparr>"
  have "kfree_pages s (page_addr s p + off) = Some ?s'"
    using p e(1) le bm(1) lay get_page_from_addr_in [OF lay p off]
    by (simp add: kfree_pages_def Let_def layout_ok_def)
  moreover have "dropped s p ?k ?s'"
    using bm(2,3) by (simp add: dropped_def same_layout_def)
  ultimately show ?thesis unfolding k by blast
qed

section \<open>Start-up establishes the invariant\<close>

text \<open>
  What the boot protocol documents of the memory map: the usable entries are aligned to pages,
  sorted and disjoint. The code also relies on none of them starting at address 0 (it uses 0 as
  the mark for a lowest address not yet seen), and the bound keeps page counts below \<open>2^31\<close>.
\<close>

definition before :: "mem_entry \<Rightarrow> mem_entry \<Rightarrow> bool" where
  "before e f \<longleftrightarrow> (e_usable e \<and> e_usable f \<longrightarrow> e_base e + e_length e \<le> e_base f)"

definition entry_ok :: "nat \<Rightarrow> nat \<Rightarrow> mem_entry \<Rightarrow> bool" where
  "entry_ok lo hi e \<longleftrightarrow> (e_usable e \<longrightarrow>
    e_base e mod PAGE_SIZE = 0 \<and> e_length e mod PAGE_SIZE = 0 \<and>
    lo \<le> e_base e \<and> e_base e + e_length e \<le> hi)"

definition memmap_ok :: "mem_entry list \<Rightarrow> bool" where
  "memmap_ok es \<longleftrightarrow> sorted_wrt before es \<and> (\<forall>e \<in> set es. entry_ok 1 (2 ^ 42) e)"

text \<open>The page numbers of an entry, and of all usable entries.\<close>

definition entry_pages :: "nat \<Rightarrow> mem_entry \<Rightarrow> nat set" where
  "entry_pages lo e = (if e_usable e
     then {(e_base e - lo) div PAGE_SIZE ..< (e_base e - lo) div PAGE_SIZE + e_length e div PAGE_SIZE}
     else {})"

definition map_pages :: "nat \<Rightarrow> mem_entry list \<Rightarrow> nat set" where
  "map_pages lo es = (\<Union>e \<in> set es. entry_pages lo e)"

lemma taken_full: "taken (replicate n 0xFF) q \<longleftrightarrow> q < 8 * n"
proof (cases "q div 8 < n")
  case True
  have "bit (0xFF :: u8) k" if "k < 8" for k
  proof -
    have "bit (mask 8 :: u8) k" using that by (simp add: bit_mask_iff)
    then show ?thesis by (simp add: mask_numeral)
  qed
  with True show ?thesis by (simp add: taken_def)
next
  case False
  then show ?thesis by (simp add: taken_def)
qed

lemma init_stats_bounds:
  "init_stats es (b, pg, hi, lo) = (b', pg', hi', lo') \<Longrightarrow> \<forall>e \<in> set es. e_usable e \<longrightarrow> 0 < e_base e \<Longrightarrow>
   hi \<le> hi' \<and> (lo \<noteq> 0 \<longrightarrow> 0 < lo' \<and> lo' \<le> lo) \<and>
   (\<forall>e \<in> set es. e_usable e \<longrightarrow> 0 < lo' \<and> lo' \<le> e_base e \<and> e_base e + e_length e \<le> hi')"
proof (induction es arbitrary: b pg hi lo)
  case Nil
  then show ?case by simp
next
  case (Cons e es)
  show ?case
  proof (cases "e_usable e")
    case True
    let ?lo = "if lo = 0 then e_base e else min lo (e_base e)"
    from True Cons.prems(1) have
      "init_stats es (b + e_length e, pg + e_length e div PAGE_SIZE, max hi (e_base e + e_length e), ?lo)
        = (b', pg', hi', lo')" by simp
    from Cons.IH [OF this] Cons.prems(2)
    have "max hi (e_base e + e_length e) \<le> hi'" "?lo \<noteq> 0 \<longrightarrow> 0 < lo' \<and> lo' \<le> ?lo"
      "\<forall>e \<in> set es. e_usable e \<longrightarrow> 0 < lo' \<and> lo' \<le> e_base e \<and> e_base e + e_length e \<le> hi'"
      by simp_all
    moreover have "0 < e_base e" using True Cons.prems(2) by simp
    ultimately show ?thesis by (auto split: if_splits)
  next
    case False
    with Cons show ?thesis by simp
  qed
qed

lemma place_ok:
  "place sz es = Some (b, es') \<Longrightarrow> sz mod PAGE_SIZE = 0 \<Longrightarrow> sorted_wrt before es \<Longrightarrow>
   \<forall>e \<in> set es. entry_ok lo hi e \<Longrightarrow>
   sorted_wrt before es' \<and> (\<forall>e \<in> set es'. entry_ok lo hi e) \<and>
   (\<forall>f. (\<forall>e \<in> set es. before f e) \<longrightarrow> (\<forall>e \<in> set es'. before f e))"
proof (induction es arbitrary: es')
  case Nil
  then show ?case by simp
next
  case (Cons e es)
  show ?case
  proof (cases "e_usable e \<and> sz \<le> e_length e")
    case True
    let ?e = "e\<lparr>e_base := e_base e + sz, e_length := e_length e - sz\<rparr>"
    have es': "es' = ?e # es" using True Cons.prems(1) by auto
    have "entry_ok lo hi ?e"
      using True Cons.prems(2,4) by (auto simp: entry_ok_def mod_eq_0_iff_dvd intro: dvd_add dvd_diff_nat)
    moreover have "\<forall>f \<in> set es. before ?e f" "\<forall>f. before f e \<longrightarrow> before f ?e"
      using True Cons.prems(3) by (auto simp: before_def)
    ultimately show ?thesis using Cons.prems(3,4) by (simp add: es')
  next
    case False
    then obtain es1 where "place sz es = Some (b, es1)" "es' = e # es1"
      using Cons.prems(1) by auto
    with Cons.IH [of es1] Cons.prems show ?thesis by simp
  qed
qed

text \<open>The loop of \<^verbatim>\<open>_get_free_pages\<close> clears exactly the bits of the usable entries.\<close>

lemma entry_pages_start:
  assumes "entry_ok lo hi e" and "e_usable e" and "hi \<le> 2 ^ 42"
  shows "nat ((int (e_base e) - int lo) mod 2 ^ 64) = e_base e - lo"
proof -
  have le: "lo \<le> e_base e" "e_base e \<le> 2 ^ 42" using assms by (auto simp: entry_ok_def)
  then have "int (e_base e) - int lo = int (e_base e - lo)" by simp
  moreover have "int (e_base e - lo) mod 2 ^ 64 = int (e_base e - lo)"
    using le by (intro mod_pos_pos_trivial) simp_all
  ultimately show ?thesis by (simp only: nat_int)
qed

lemma div_add_div_le: "a div n + b div n \<le> (a + b) div (n :: nat)"
  using div_add1_eq [of a b n] by simp

lemma entry_pages_end:
  assumes "entry_ok lo hi e" and "e_usable e"
  shows "(e_base e - lo) div PAGE_SIZE + e_length e div PAGE_SIZE \<le> (hi - lo) div PAGE_SIZE"
proof -
  have "e_base e - lo + e_length e \<le> hi - lo" using assms by (auto simp: entry_ok_def)
  then have "(e_base e - lo + e_length e) div PAGE_SIZE \<le> (hi - lo) div PAGE_SIZE"
    by (rule div_le_mono)
  with div_add_div_le [of "e_base e - lo" PAGE_SIZE "e_length e"] show ?thesis by simp
qed

definition usable_pages :: "mem_entry \<Rightarrow> nat" where
  "usable_pages e = (if e_usable e then e_length e div PAGE_SIZE else 0)"

lemma get_free_pages_ok:
  "\<forall>e \<in> set es. entry_ok lo hi e \<Longrightarrow> hi \<le> 2 ^ 42 \<Longrightarrow> (hi - lo) div PAGE_SIZE \<le> 8 * length bm \<Longrightarrow>
   \<exists>bm'. get_free_pages lo es (bm, c) = Some (bm', c + of_nat (\<Sum>e\<leftarrow>es. usable_pages e)) \<and>
     length bm' = length bm \<and> (\<forall>q. taken bm' q \<longleftrightarrow> taken bm q \<and> q \<notin> map_pages lo es)"
proof (induction es arbitrary: bm c)
  case Nil
  then show ?case by (simp add: map_pages_def)
next
  case (Cons e es)
  show ?case
  proof (cases "e_usable e")
    case True
    let ?p = "(e_base e - lo) div PAGE_SIZE" and ?k = "e_length e div PAGE_SIZE"
    have e: "entry_ok lo hi e" using Cons.prems(1) by simp
    have "?p + ?k \<le> 8 * length bm" using entry_pages_end [OF e True] Cons.prems(3) by simp
    from release_pages_taken [OF this] obtain b1 where
      b1: "release_pages bm ?p ?k = Some b1" "length b1 = length bm"
        "\<forall>q. taken b1 q \<longleftrightarrow> \<not> (?p \<le> q \<and> q < ?p + ?k) \<and> taken bm q" by blast
    from Cons.IH [of b1 "c + of_nat ?k"] Cons.prems b1(2) obtain b2 where
      b2: "get_free_pages lo es (b1, c + of_nat ?k)
             = Some (b2, c + of_nat ?k + of_nat (\<Sum>e\<leftarrow>es. usable_pages e))"
        "length b2 = length b1" "\<forall>q. taken b2 q \<longleftrightarrow> taken b1 q \<and> q \<notin> map_pages lo es" by auto
    have "get_free_pages lo (e # es) (bm, c)
        = Some (b2, c + of_nat (\<Sum>e\<leftarrow>e # es. usable_pages e))"
      using True b1(1) b2(1) entry_pages_start [OF e True Cons.prems(2)]
      by (simp add: usable_pages_def add.assoc)
    moreover have "taken b2 q \<longleftrightarrow> taken bm q \<and> q \<notin> map_pages lo (e # es)" for q
    proof -
      have "q \<in> map_pages lo (e # es) \<longleftrightarrow> (?p \<le> q \<and> q < ?p + ?k) \<or> q \<in> map_pages lo es"
        using True by (simp add: map_pages_def entry_pages_def)
      then show ?thesis
        using b1(3) [rule_format, of q] b2(3) [rule_format, of q] by blast
    qed
    ultimately show ?thesis using b1(2) b2(2) by auto
  next
    case False
    with Cons show ?thesis by (simp add: map_pages_def entry_pages_def usable_pages_def)
  qed
qed

lemma finite_map_pages [simp]: "finite (map_pages lo es)"
  by (auto simp: map_pages_def entry_pages_def)

lemma card_map_pages:
  "sorted_wrt before es \<Longrightarrow> \<forall>e \<in> set es. entry_ok lo hi e \<Longrightarrow>
   card (map_pages lo es) = (\<Sum>e\<leftarrow>es. usable_pages e)"
proof (induction es)
  case Nil
  then show ?case by (simp add: map_pages_def)
next
  case (Cons e es)
  have "entry_pages lo e \<inter> entry_pages lo f = {}" if f: "f \<in> set es" for f
  proof (cases "e_usable e \<and> e_usable f")
    case True
    with f Cons.prems have "entry_ok lo (e_base f) e"
      by (auto simp: before_def entry_ok_def)
    with True entry_pages_end [of lo "e_base f" e] show ?thesis by (auto simp: entry_pages_def)
  next
    case False
    then show ?thesis by (auto simp: entry_pages_def)
  qed
  then have "entry_pages lo e \<inter> map_pages lo es = {}" by (auto simp: map_pages_def)
  moreover have "map_pages lo (e # es) = entry_pages lo e \<union> map_pages lo es"
    by (simp add: map_pages_def)
  moreover have "card (entry_pages lo e) = usable_pages e" "finite (entry_pages lo e)"
    by (simp_all add: entry_pages_def usable_pages_def)
  ultimately show ?case using Cons by (simp add: card_Un_disjoint)
qed

lemma init_stats_range:
  "init_stats es (b, pg, hi, lo) = (b', pg', hi', lo') \<Longrightarrow> \<forall>e \<in> set es. entry_ok 1 H e \<Longrightarrow>
   hi \<le> H \<Longrightarrow> lo mod PAGE_SIZE = 0 \<Longrightarrow> hi' \<le> H \<and> lo' mod PAGE_SIZE = 0"
proof (induction es arbitrary: b pg hi lo)
  case Nil
  then show ?case by simp
next
  case (Cons e es)
  show ?case
  proof (cases "e_usable e")
    case True
    with Cons.prems(2) have e: "e_base e mod PAGE_SIZE = 0" "e_base e + e_length e \<le> H"
      by (auto simp: entry_ok_def)
    let ?lo = "if lo = 0 then e_base e else min lo (e_base e)"
    have "?lo mod PAGE_SIZE = 0" using e(1) Cons.prems(4) by (simp add: min_def)
    moreover have "init_stats es (b + e_length e, pg + e_length e div PAGE_SIZE,
        max hi (e_base e + e_length e), ?lo) = (b', pg', hi', lo')"
      using True Cons.prems(1) by simp
    ultimately show ?thesis using Cons.IH Cons.prems(2,3) e(2) by simp
  next
    case False
    with Cons show ?thesis by simp
  qed
qed

lemma ALIGN_UP_ge: "0 < n \<Longrightarrow> x \<le> ALIGN_UP x n"
  using dividend_less_div_times [of n "x + n - 1"] by (simp add: ALIGN_UP_def)

lemma ALIGN_UP_mod: "ALIGN_UP x n mod n = 0"
  by (simp add: ALIGN_UP_def)

text \<open>
  The bitmap is sized from \<^verbatim>\<open>num_pages_in_map / 8\<close>, which rounds down before the alignment to
  pages. It has room for every page of the map except when the number of pages exceeds a
  multiple of 32768 by one to seven.
\<close>

lemma bitmap_room:
  "num \<le> 8 * bitmap_bytes num \<longleftrightarrow> num mod 32768 = 0 \<or> 8 \<le> num mod 32768"
proof -
  define q where "q = num div 32768"
  define r where "r = num mod 32768"
  have num: "num = 32768 * q + r" and r: "r < 32768" by (simp_all add: q_def r_def)
  have "num div 8 + 4095 = q * 4096 + (r div 8 + 4095)" unfolding num by simp
  then have "(num div 8 + 4095) div 4096 = q + (r div 8 + 4095) div 4096"
    by (metis div_mult_self3 zero_neq_numeral add.commute mult.commute)
  moreover have "num div 8 + 4096 - 1 = num div 8 + 4095" by simp
  ultimately have b: "bitmap_bytes num = (q + (r div 8 + 4095) div 4096) * 4096"
    by (simp only: bitmap_bytes_def ALIGN_UP_def PAGE_SIZE_def)
  consider "r = 0" | "0 < r" "r < 8" | "8 \<le> r" by linarith
  then show ?thesis
  proof cases
    case 1
    then show ?thesis unfolding b by (simp add: num)
  next
    case 2
    then have "(r div 8 + 4095) div 4096 = 0" by simp
    with 2 show ?thesis unfolding b by (simp add: num)
  next
    case 3
    have "r div 8 < 4096" using r by (simp add: less_mult_imp_div_less)
    moreover have "0 < r div 8" using 3 by (simp add: div_greater_zero_iff)
    ultimately have "(r div 8 + 4095) div 4096 = 1" by (intro div_nat_eqI) simp_all
    with 3 r show ?thesis unfolding b by (simp add: num)
  qed
qed

lemma place_usable: "place sz es = Some r \<Longrightarrow> \<exists>e \<in> set es. e_usable e"
  by (induction es arbitrary: r) (auto split: if_splits)

lemma memmap_ok_init:
  assumes map_ok: "memmap_ok es" and st: "init_stats es (0, 0, 0, 0) = (bytes, pages, hi, lo)"
    and pl: "place sz es = Some r"
  shows "hi \<le> 2 ^ 42" "lo mod PAGE_SIZE = 0" "0 < lo" "\<forall>e \<in> set es. entry_ok lo hi e"
proof -
  have ok: "\<forall>e \<in> set es. entry_ok 1 (2 ^ 42) e" using map_ok by (simp add: memmap_ok_def)
  then have "\<forall>e \<in> set es. e_usable e \<longrightarrow> 0 < e_base e" by (auto simp: entry_ok_def)
  from init_stats_bounds [OF st this]
  have b: "\<forall>e \<in> set es. e_usable e \<longrightarrow> 0 < lo \<and> lo \<le> e_base e \<and> e_base e + e_length e \<le> hi" by simp
  with place_usable [OF pl] show "0 < lo" by blast
  from b ok show "\<forall>e \<in> set es. entry_ok lo hi e" by (simp add: entry_ok_def)
  from init_stats_range [OF st ok] show "hi \<le> 2 ^ 42" "lo mod PAGE_SIZE = 0" by simp_all
qed

lemma kmem_init_pages_ok:
  assumes map_ok: "memmap_ok es" and st: "init_stats es (0, 0, 0, 0) = (bytes, pages, hi, lo)"
    and num: "num = (hi - lo) div PAGE_SIZE" "0 < num" "num mod 32768 = 0 \<or> 8 \<le> num mod 32768"
    and bm: "place (bitmap_bytes num) es = Some (b1, es1)"
    and em: "place (entry_map_bytes num) es1 = Some (b2, es2)"
    and off: "offset mod PAGE_SIZE = 0" "offset + 2 ^ 42 \<le> 2 ^ 64"
  shows "\<exists>s. kmem_init es (Some offset) = Some s \<and> pages_ok s \<and> num_pages_in_map s = num \<and>
    lowest_address s = lo \<and> free_pages s = map_pages lo es2 \<and>
    max_pages_available s =
      pages - bitmap_bytes num div PAGE_SIZE - entry_map_bytes num div PAGE_SIZE \<and>
    (\<forall>p < num. entry_map s ! p = 0)"
proof -
  from map_ok have srt: "sorted_wrt before es" by (simp add: memmap_ok_def)
  note rng = memmap_ok_init(1,2,3) [OF map_ok st bm] and ok = memmap_ok_init(4) [OF map_ok st bm]
  from place_ok [OF bm _ srt ok] have ok1: "sorted_wrt before es1" "\<forall>e \<in> set es1. entry_ok lo hi e"
    by (simp_all add: bitmap_bytes_def ALIGN_UP_mod)
  from place_ok [OF em _ ok1] have ok2: "sorted_wrt before es2" "\<forall>e \<in> set es2. entry_ok lo hi e"
    by (simp_all add: entry_map_bytes_def ALIGN_UP_mod)
  let ?bm = "replicate (bitmap_bytes num) 0xFF :: u8 list"
  have room: "num \<le> 8 * length ?bm" using bitmap_room num(3) by simp
  from get_free_pages_ok [OF ok2(2) rng(1), of ?bm 0] room num(1) obtain bm' where
    bm': "get_free_pages lo es2 (?bm, 0) = Some (bm', of_nat (\<Sum>e\<leftarrow>es2. usable_pages e))"
      "length bm' = length ?bm" "\<forall>q. taken bm' q \<longleftrightarrow> taken ?bm q \<and> q \<notin> map_pages lo es2" by auto
  define s where "s = \<lparr>total_memory_bytes = bytes,
    max_pages_available = pages - bitmap_bytes num div PAGE_SIZE - entry_map_bytes num div PAGE_SIZE,
    num_pages_in_map = num, lowest_address = lo, higher_half_offset = offset, page_bitmap = bm',
    allocation_cursor = 0, num_pages_available = of_nat (\<Sum>e\<leftarrow>es2. usable_pages e),
    entry_map = replicate (entry_map_bytes num div 4) 0\<rparr>"
  have init: "kmem_init es (Some offset) = Some s"
    using bm em bm'(1) by (simp add: kmem_init_def create_page_bitmap_def create_entry_map_def st num(1) [symmetric] s_def)
  have "map_pages lo es2 \<subseteq> {..<num}"
    using ok2(2) entry_pages_end by (fastforce simp: map_pages_def entry_pages_def num(1) split: if_splits)
  then have free: "free_pages s = map_pages lo es2"
    using bm'(3) room by (auto simp: free_pages_def s_def taken_full)
  have "num \<le> entry_map_bytes num div 4" using ALIGN_UP_ge [of PAGE_SIZE "4 * num"]
    by (simp add: entry_map_bytes_def PAGE_SIZE_def)
  moreover have "num * PAGE_SIZE \<le> hi - lo" by (simp add: num(1))
  then have "lo + offset + num * PAGE_SIZE \<le> 2 ^ 64" "num < 2 ^ 31"
    using off(2) rng(1,3) num(2) by (simp_all add: PAGE_SIZE_def)
  moreover have "(lo + offset) mod PAGE_SIZE = 0" using off(1) rng(2) by (simp add: mod_add_eq [symmetric])
  ultimately have "layout_ok s"
    using rng(3) num(2) room bm'(2) by (simp add: layout_ok_def s_def)
  moreover have "card (free_pages s) = (\<Sum>e\<leftarrow>es2. usable_pages e)"
    using card_map_pages [OF ok2] free by simp
  ultimately have "pages_ok s"
    by (simp add: pages_ok_def) (simp add: s_def layout_ok_def)
  moreover have "\<forall>p < num. entry_map s ! p = 0"
    using \<open>num \<le> entry_map_bytes num div 4\<close> by (simp add: s_def)
  ultimately show ?thesis using init free by (auto simp: s_def)
qed

text \<open>A machine with one usable region of 20 pages, used in the examples below.\<close>

abbreviation small_map :: "mem_entry list" where
  "small_map \<equiv> [\<lparr>e_base = 4096, e_length = 81920, e_usable = True\<rparr>]"

lemma small_map_facts:
  "memmap_ok small_map" "init_stats small_map (0, 0, 0, 0) = (81920, 20, 86016, 4096)"
  "place (bitmap_bytes 20) small_map
     = Some (4096, [\<lparr>e_base = 8192, e_length = 77824, e_usable = True\<rparr>])"
  "place (entry_map_bytes 20) [\<lparr>e_base = 8192, e_length = 77824, e_usable = True\<rparr>]
     = Some (8192, [\<lparr>e_base = 12288, e_length = 73728, e_usable = True\<rparr>])"
  "bitmap_bytes 20 = 4096" "entry_map_bytes 20 = 4096"
  by (simp_all add: memmap_ok_def before_def entry_ok_def PAGE_SIZE_def bitmap_bytes_def
      entry_map_bytes_def ALIGN_UP_def)

lemma small_boot:
  "\<exists>s. kmem_init small_map (Some 0xFFFF800000000000) = Some s \<and> pages_ok s \<and>
     num_pages_in_map s = 20 \<and> max_pages_available s = 18 \<and> (\<forall>p < 20. entry_map s ! p = 0) \<and>
     lowest_address s = 4096 \<and> free_pages s \<noteq> {}"
proof -
  have n: "20 = (86016 - 4096) div PAGE_SIZE" by (simp add: PAGE_SIZE_def)
  show ?thesis
    using kmem_init_pages_ok [OF small_map_facts(1,2) n _ _ small_map_facts(3,4),
        of "0xFFFF800000000000"]
    by (auto simp: PAGE_SIZE_def small_map_facts map_pages_def entry_pages_def)
qed

section \<open>Properties\<close>



text \<open>
  C30. The bitmap that \<^verbatim>\<open>_create_page_bitmap\<close> allocates has a bit for every page of the map if and
  only if the number of pages is a multiple of 32768 or exceeds one by at least eight. In the
  remaining cases the last pages of the map have their bits behind the end of the bitmap, because
  the number of pages is divided by eight without rounding up.
\<close>

theorem bitmap_size_exact:
  "num \<le> 8 * bitmap_bytes num \<longleftrightarrow> num mod 32768 = 0 \<or> 8 \<le> num mod 32768"
  by (rule bitmap_room)

text \<open>
  C8. The page search is sound and complete. For a size within the limits \<^verbatim>\<open>_kalloc_internal\<close>
  checks, it makes no access outside its tables, keeps the invariant, and either returns the
  address of a run of \<open>k\<close> pages that were all free (at or above the start page for
  \<^verbatim>\<open>kalloc_high\<close>) and are now the only newly taken ones, or returns null, changes nothing, and no
  run of \<open>k\<close> free pages exists at or above the start page, wherever the shared cursor stood.
\<close>

theorem kalloc_internal_correct:
  assumes "pages_ok s" and "start_page < num_pages_in_map s" and "k = DIV_ROUNDUP n PAGE_SIZE"
    and "0 < n" and "n < 2 ^ 63" and "k \<le> max_pages_available s div 4"
  shows "case kalloc_internal s n start_page g of
      None \<Rightarrow> False
    | Some (None, s') \<Rightarrow> s' = s \<and>
        (\<forall>p. start_page \<le> p \<and> p + k \<le> num_pages_in_map s \<longrightarrow> \<not> free_run (page_bitmap s) p k)
    | Some (Some a, s') \<Rightarrow> pages_ok s' \<and>
        (\<exists>p. a = page_addr s p \<and> p + k \<le> num_pages_in_map s \<and> (\<not> g \<longrightarrow> start_page \<le> p) \<and>
           free_run (page_bitmap s) p k \<and> n \<le> k * PAGE_SIZE \<and>
           free_pages s' = free_pages s - {p..<p + k})"
  using kalloc_internal_cases [OF assms(1-3), of g]
proof (elim disjE exE conjE)
  fix p s'
  assume a: "kalloc_internal s n start_page g = Some (Some (page_addr s p), s')" "0 < k"
    "p + k \<le> num_pages_in_map s" "\<not> g \<longrightarrow> start_page \<le> p" "free_run (page_bitmap s) p k"
    and g: "grabbed s p k s'"
  have "pages_ok s'" using grabbed_pages_ok [OF assms(1) g] a by blast
  moreover have "free_pages s' = free_pages s - {p..<p + k}" by (rule grabbed_free_pages [OF g])
  ultimately show ?thesis
    using a DIV_ROUNDUP_covers [of n] unfolding a(1) assms(3) by auto
qed (use assms in auto)

theorem kalloc_internal_correct_witness:
  "\<exists>s. kmem_init small_map (Some 0xFFFF800000000000) = Some s \<and>
     (case kalloc_internal s 5000 0 True of
        None \<Rightarrow> False
      | Some (None, s') \<Rightarrow> s' = s \<and> (\<forall>p. p + 2 \<le> 20 \<longrightarrow> \<not> free_run (page_bitmap s) p 2)
      | Some (Some a, s') \<Rightarrow> pages_ok s' \<and>
          (\<exists>p. a = page_addr s p \<and> p + 2 \<le> 20 \<and> free_run (page_bitmap s) p 2 \<and>
             free_pages s' = free_pages s - {p..<p + 2}))"
proof -
  obtain s where s: "kmem_init small_map (Some 0xFFFF800000000000) = Some s" "pages_ok s"
    "num_pages_in_map s = 20" "max_pages_available s = 18" using small_boot by blast
  have k: "2 = DIV_ROUNDUP 5000 PAGE_SIZE" by (simp add: DIV_ROUNDUP_def PAGE_SIZE_def)
  from s(3,4) kalloc_internal_correct [OF s(2) _ k, of 0 True] s(1) show ?thesis
    by (auto split: option.splits prod.splits)
qed

end
