(* ===== verification/Slab.thy ===== *)
theory Slab
  imports Pmm
begin

text \<open>
  The slab layer of \<^verbatim>\<open>src/src/mem.c\<close> and the allocator interface the rest of the kernel uses:
  \<^verbatim>\<open>kalloc\<close>, \<^verbatim>\<open>kfree\<close> and \<^verbatim>\<open>kalloc_usable_size\<close>. Requests of at most 2048 bytes are served
  from pages divided into objects of a power of two.

  The free list of a class is linked through the free objects themselves in the code; here
  it is the list of their addresses. Each routine is one step: the code drops and retakes
  \<^verbatim>\<open>slab_lock\<close> around the page allocation, with nothing decided before the gap but that a
  page is needed.
\<close>

unbundle bit_operations_syntax

section \<open>Size classes\<close>

definition SLAB_MIN_SHIFT :: nat where
  "SLAB_MIN_SHIFT = 5"

definition SLAB_MAX_SHIFT :: nat where
  "SLAB_MAX_SHIFT = 11"

definition SLAB_MAX_SIZE :: nat where
  "SLAB_MAX_SIZE = 2 ^ SLAB_MAX_SHIFT"

definition SLAB_CLASSES :: nat where
  "SLAB_CLASSES = SLAB_MAX_SHIFT - SLAB_MIN_SHIFT + 1"

definition SLAB_CLASS :: "u32 \<Rightarrow> nat" where
  "SLAB_CLASS e = unat (drop_bit 24 e AND 0xF)"

definition SLAB_INUSE :: "u32 \<Rightarrow> nat" where
  "SLAB_INUSE e = unat (e AND 0xFFFF)"

function shift_for :: "nat \<Rightarrow> nat \<Rightarrow> nat" where
  "shift_for n shift = (if 2 ^ shift < n then shift_for n (shift + 1) else shift)"
  by pat_completeness auto
termination
  by (relation "measure (\<lambda>(n, shift). n - 2 ^ shift)") (auto intro: diff_less_mono2)

declare shift_for.simps [simp del]

definition slab_class_for :: "nat \<Rightarrow> nat" where
  "slab_class_for n = shift_for n SLAB_MIN_SHIFT - SLAB_MIN_SHIFT"

definition class_size :: "nat \<Rightarrow> nat" where
  "class_size cls = 2 ^ (cls + SLAB_MIN_SHIFT)"

definition slab_page_base :: "nat \<Rightarrow> nat" where
  "slab_page_base obj = obj - obj mod PAGE_SIZE"

section \<open>State and operations\<close>

record kmem = pmm +
  slab_free_list :: "nat list list"
  slab_free_count :: "u32 list"

text \<open>The slab tables are static, hence empty when \<^verbatim>\<open>kmem_init\<close> has run.\<close>

definition slab_boot :: "pmm \<Rightarrow> kmem" where
  "slab_boot s = pmm.extend s
    \<lparr>slab_free_list = replicate SLAB_CLASSES [], slab_free_count = replicate SLAB_CLASSES 0\<rparr>"

text \<open>\<^verbatim>\<open>slab_unlink_page\<close>: drops the free objects that lie in \<open>page\<close>.\<close>

fun slab_unlink_page :: "nat \<Rightarrow> nat list \<Rightarrow> u32 \<Rightarrow> nat list \<times> u32" where
  "slab_unlink_page page [] count = ([], count)"
| "slab_unlink_page page (obj # fl) count =
    (if slab_page_base obj = page then slab_unlink_page page fl (count - 1)
     else case slab_unlink_page page fl count of (fl', count') \<Rightarrow> (obj # fl', count'))"

text \<open>The loop of \<^verbatim>\<open>slab_alloc\<close> that divides a fresh page into objects.\<close>

function carve :: "nat \<Rightarrow> nat \<Rightarrow> nat \<Rightarrow> nat list \<Rightarrow> u32 \<Rightarrow> nat list \<times> u32" where
  "carve page cls off fl count =
    (if off < PAGE_SIZE
     then carve page cls (off + class_size cls) ((page + off) # fl) (count + 1)
     else (fl, count))"
  by pat_completeness auto
termination
  by (relation "measure (\<lambda>(page, cls, off, fl, count). PAGE_SIZE - off)")
    (auto simp: class_size_def PAGE_SIZE_def intro!: diff_less_mono2)

declare carve.simps [simp del]

text \<open>
  The end of \<^verbatim>\<open>slab_alloc\<close>: takes the first free object. \<open>None\<close> is the null pointer the code
  would dereference, or an entry outside the entry map.
\<close>

definition slab_take :: "kmem \<Rightarrow> nat \<Rightarrow> (nat option \<times> kmem) option" where
  "slab_take s cls =
    (case slab_free_list s ! cls of
       [] \<Rightarrow> None
     | obj # fl \<Rightarrow>
         let i = get_page_from_addr s obj in
         if i < length (entry_map s)
         then Some (Some obj, s\<lparr>slab_free_list := (slab_free_list s)[cls := fl],
                slab_free_count := (slab_free_count s)[cls := slab_free_count s ! cls - 1],
                entry_map := (entry_map s)[i := entry_map s ! i + 1]\<rparr>)
         else None)"

definition slab_alloc :: "kmem \<Rightarrow> nat \<Rightarrow> (nat option \<times> kmem) option" where
  "slab_alloc s cls =
    (if slab_free_list s ! cls = [] then
       case kalloc_internal s PAGE_SIZE 0 True of
         None \<Rightarrow> None
       | Some (None, s1) \<Rightarrow> Some (None, s1)
       | Some (Some page, s1) \<Rightarrow>
           let i = get_page_from_addr s1 page in
           if i < length (entry_map s1) then
             case carve page cls 0 (slab_free_list s1 ! cls) (slab_free_count s1 ! cls) of
               (fl, count) \<Rightarrow>
                 slab_take (s1\<lparr>entry_map := (entry_map s1)[i := SLAB_TAG OR push_bit 24 (of_nat cls)],
                   slab_free_list := (slab_free_list s1)[cls := fl],
                   slab_free_count := (slab_free_count s1)[cls := count]\<rparr>) cls
           else None
     else slab_take s cls)"

text \<open>
  \<^verbatim>\<open>slab_free\<close>. The result names the page when the code goes on to free it (\<^verbatim>\<open>release\<close>).
\<close>

definition slab_free :: "kmem \<Rightarrow> nat \<Rightarrow> nat \<Rightarrow> kmem \<times> nat option" where
  "slab_free s ptr page_index =
    (let e = entry_map s ! page_index;
         cls = SLAB_CLASS e;
         page = slab_page_base ptr in
     if e AND SLAB_TAG = 0 \<or> SLAB_INUSE e = 0 \<or> (ptr - page) mod class_size cls \<noteq> 0 then (s, None)
     else
       let fl = ptr # slab_free_list s ! cls;
           count = slab_free_count s ! cls + 1;
           e = e - 1;
           per_page = PAGE_SIZE div class_size cls in
       if SLAB_INUSE e = 0 \<and> count \<ge> 2 * of_nat per_page then
         case slab_unlink_page page fl count of (fl, count) \<Rightarrow>
           (s\<lparr>slab_free_list := (slab_free_list s)[cls := fl],
              slab_free_count := (slab_free_count s)[cls := count],
              entry_map := (entry_map s)[page_index := 1]\<rparr>, Some page)
       else
         (s\<lparr>slab_free_list := (slab_free_list s)[cls := fl],
            slab_free_count := (slab_free_count s)[cls := count],
            entry_map := (entry_map s)[page_index := e]\<rparr>, None))"

definition kalloc :: "kmem \<Rightarrow> nat \<Rightarrow> (nat option \<times> kmem) option" where
  "kalloc s numBytes =
    (if numBytes > 0 \<and> numBytes \<le> SLAB_MAX_SIZE \<and> max_pages_available s \<noteq> 0
     then slab_alloc s (slab_class_for numBytes)
     else kalloc_internal s numBytes 0 True)"

text \<open>
  \<^verbatim>\<open>kfree\<close>; freeing the last object of a slab page calls \<^verbatim>\<open>kfree\<close> once more, for the page,
  whose entry no longer has the tag.
\<close>

lemma tagged_update:
  "i < length es \<Longrightarrow> P (es ! i) \<Longrightarrow> \<not> P e \<Longrightarrow>
   length (filter P (es[i := e])) < length (filter P es)"
proof (induction es arbitrary: i)
  case (Cons x es)
  then show ?case by (cases i) auto
qed simp

lemma slab_free_release:
  "slab_free s ptr i = (s', Some page) \<Longrightarrow> entry_map s' = (entry_map s)[i := 1]"
  by (auto simp: slab_free_def Let_def split: if_splits prod.splits)

function kfree :: "kmem \<Rightarrow> nat \<Rightarrow> kmem option" where
  "kfree s ptr =
    (if ptr = 0 then Some s
     else
       let page_index = get_page_from_addr s ptr in
       if page_index < num_pages_in_map s \<and> page_index \<ge> length (entry_map s) then None
       else if page_index < num_pages_in_map s \<and> entry_map s ! page_index AND SLAB_TAG \<noteq> 0 then
         case slab_free s ptr page_index of
           (s', None) \<Rightarrow> Some s'
         | (s', Some page) \<Rightarrow> kfree s' page
       else kfree_pages s ptr)"
  by pat_completeness auto
termination
  by (relation "measure (\<lambda>(s, ptr). length (filter (\<lambda>e. e AND SLAB_TAG \<noteq> 0) (entry_map s)))")
    (auto simp: SLAB_TAG_def slab_free_release [OF sym] not_le intro!: tagged_update)

declare kfree.simps [simp del]

definition kalloc_usable_size :: "kmem \<Rightarrow> nat \<Rightarrow> nat option" where
  "kalloc_usable_size s ptr =
    (if ptr = 0 then Some 0
     else
       let page_index = get_page_from_addr s ptr in
       if page_index < num_pages_in_map s then
         if page_index < length (entry_map s) then
           let e = entry_map s ! page_index in
           if e AND SLAB_TAG \<noteq> 0 then Some (class_size (SLAB_CLASS e))
           else Some (unat e * PAGE_SIZE)
         else None
       else Some 0)"

section \<open>Classes and tags\<close>

definition per_page :: "nat \<Rightarrow> nat" where
  "per_page c = PAGE_SIZE div class_size c"

text \<open>The entry of a slab page of class \<open>c\<close> with \<open>k\<close> live objects.\<close>

definition slab_entry :: "nat \<Rightarrow> nat \<Rightarrow> u32" where
  "slab_entry c k = (SLAB_TAG OR push_bit 24 (of_nat c)) + of_nat k"

lemma SLAB_CLASSES_eq: "SLAB_CLASSES = 7"
  by (simp add: SLAB_CLASSES_def SLAB_MAX_SHIFT_def SLAB_MIN_SHIFT_def)

lemma class_cases:
  assumes "c < SLAB_CLASSES"
  obtains "c = 0" | "c = 1" | "c = 2" | "c = 3" | "c = 4" | "c = 5" | "c = 6"
  using assms unfolding SLAB_CLASSES_eq by linarith

lemma per_page_facts:
  assumes "c < SLAB_CLASSES"
  shows "per_page c * class_size c = PAGE_SIZE" "per_page c \<le> 128" "0 < per_page c"
    "0 < class_size c"
  by (use assms in \<open>cases rule: class_cases,
      simp_all add: per_page_def class_size_def PAGE_SIZE_def SLAB_MIN_SHIFT_def\<close>)+

lemma slab_tag_bits:
  assumes "c < SLAB_CLASSES"
  shows "SLAB_TAG OR push_bit 24 (of_nat c) = of_nat (2 ^ 31 + c * 2 ^ 24)"
  using assms by (cases rule: class_cases) (simp_all add: SLAB_TAG_def)

lemma unat_of_nat_u32: "n < 2 ^ 32 \<Longrightarrow> unat (of_nat n :: u32) = n"
  by (simp add: unat_of_nat)

lemma unat_slab_entry:
  assumes "c < SLAB_CLASSES" and "k \<le> 128"
  shows "unat (slab_entry c k) = 2 ^ 31 + c * 2 ^ 24 + k"
proof -
  have "slab_entry c k = of_nat (2 ^ 31 + c * 2 ^ 24 + k)"
    by (simp add: slab_entry_def slab_tag_bits [OF assms(1)])
  moreover have "2 ^ 31 + c * 2 ^ 24 + k < 2 ^ 32" using assms by (simp add: SLAB_CLASSES_eq)
  ultimately show ?thesis by (simp only: unat_of_nat_u32)
qed

lemma SLAB_CLASS_unat: "SLAB_CLASS e = unat e div 2 ^ 24 mod 16"
proof -
  have "drop_bit 24 e AND 0xF = take_bit 4 (drop_bit 24 e)"
    by (simp add: take_bit_eq_mask mask_numeral)
  then show ?thesis
    by (simp add: SLAB_CLASS_def unsigned_take_bit_eq unat_drop_bit_eq take_bit_eq_mod drop_bit_eq_div
        unat_mod_distrib unat_div_distrib)
qed

lemma SLAB_INUSE_unat: "SLAB_INUSE e = unat e mod 2 ^ 16"
proof -
  have "e AND 0xFFFF = take_bit 16 e"
    by (simp add: take_bit_eq_mask mask_numeral)
  then show ?thesis
    by (simp add: SLAB_INUSE_def unsigned_take_bit_eq take_bit_eq_mod unat_mod_distrib)
qed

lemma tag_unat: "(e AND SLAB_TAG \<noteq> 0) = (2 ^ 31 \<le> unat e)"
proof -
  have "bit e 31 \<longleftrightarrow> bit (unat e) 31" by (simp only: bit_unsigned_iff possible_bit_nat simp_thms)
  also have "\<dots> \<longleftrightarrow> odd (unat e div 2 ^ 31)" by (simp add: bit_iff_odd)
  also have "\<dots> \<longleftrightarrow> 2 ^ 31 \<le> unat e"
  proof (cases "2 ^ 31 \<le> unat e")
    case True
    then have "unat e div 2 ^ 31 = 1" using unat_u32_less [of e] by (intro div_nat_eqI) simp_all
    with True show ?thesis by simp
  next
    case False
    then have "unat e div 2 ^ 31 = 0" by simp
    with False show ?thesis by simp
  qed
  finally show ?thesis by (simp only: tag_iff_bit)
qed

lemma slab_entry_facts:
  assumes c: "c < SLAB_CLASSES" and k: "k \<le> 128"
  shows "slab_entry c k AND SLAB_TAG \<noteq> 0" "SLAB_CLASS (slab_entry c k) = c"
    "SLAB_INUSE (slab_entry c k) = k" "slab_entry c k \<noteq> 0" "extent (slab_entry c k) = 1"
    "slab_entry c k + 1 = slab_entry c (Suc k)"
proof -
  note u = unat_slab_entry [OF c k]
  show t: "slab_entry c k AND SLAB_TAG \<noteq> 0" using u by (simp only: tag_unat)
  then show "slab_entry c k \<noteq> 0" "extent (slab_entry c k) = 1" by (auto simp: extent_def)
  have "(2 ^ 31 + c * 2 ^ 24 + k) div 2 ^ 24 = 128 + c"
    using k by (intro div_nat_eqI) simp_all
  then show "SLAB_CLASS (slab_entry c k) = c"
    unfolding SLAB_CLASS_unat u by (cases rule: class_cases [OF c]) simp_all
  have "2 ^ 31 + c * 2 ^ 24 + k = k + 2 ^ 16 * (2 ^ 15 + c * 2 ^ 8)" by simp
  then have "(2 ^ 31 + c * 2 ^ 24 + k) mod 2 ^ 16 = k mod 2 ^ 16" by (simp only: mod_mult_self2)
  then show "SLAB_INUSE (slab_entry c k) = k"
    unfolding SLAB_INUSE_unat u using k by simp
  show "slab_entry c k + 1 = slab_entry c (Suc k)" by (simp add: slab_entry_def)
qed

lemma shift_for_spec:
  "2 ^ shift < 2 * n \<or> shift = lo \<Longrightarrow> lo \<le> shift \<Longrightarrow>
   n \<le> 2 ^ shift_for n shift \<and> lo \<le> shift_for n shift \<and>
   (2 ^ shift_for n shift < 2 * n \<or> shift_for n shift = lo)"
  by (induction n shift rule: shift_for.induct) (subst (1 2 3 4) shift_for.simps, auto)

text \<open>The class chosen for a request holds it and wastes less than half of the object.\<close>

lemma slab_class_for_fits:
  assumes "0 < n" and "n \<le> SLAB_MAX_SIZE"
  shows "slab_class_for n < SLAB_CLASSES" "n \<le> class_size (slab_class_for n)"
    "class_size (slab_class_for n) \<le> max 32 (2 * n)"
proof -
  let ?h = "shift_for n SLAB_MIN_SHIFT"
  have h: "n \<le> 2 ^ ?h" "SLAB_MIN_SHIFT \<le> ?h" "2 ^ ?h < 2 * n \<or> ?h = SLAB_MIN_SHIFT"
    using shift_for_spec [of SLAB_MIN_SHIFT n SLAB_MIN_SHIFT] by simp_all
  then show "n \<le> class_size (slab_class_for n)"
    "class_size (slab_class_for n) \<le> max 32 (2 * n)"
    by (auto simp: class_size_def slab_class_for_def SLAB_MIN_SHIFT_def)
  have "(2 :: nat) ^ ?h < 2 ^ 12 \<or> ?h = SLAB_MIN_SHIFT"
    using h(3) assms(2) by (auto simp: SLAB_MAX_SIZE_def SLAB_MAX_SHIFT_def)
  then have "?h < 12"
    using power_less_imp_less_exp [of "2 :: nat" ?h 12] by (auto simp: SLAB_MIN_SHIFT_def)
  then show "slab_class_for n < SLAB_CLASSES"
    by (simp add: slab_class_for_def SLAB_CLASSES_eq SLAB_MIN_SHIFT_def)
qed

section \<open>The invariant\<close>

definition obj_addr :: "kmem \<Rightarrow> nat \<Rightarrow> nat \<Rightarrow> nat \<Rightarrow> nat" where
  "obj_addr s p c i = page_addr s p + i * class_size c"

text \<open>The objects of page \<open>p\<close>, as a page of class \<open>c\<close>, that are in the free list \<open>fl\<close>.\<close>

definition free_in :: "kmem \<Rightarrow> nat list \<Rightarrow> nat \<Rightarrow> nat \<Rightarrow> nat set" where
  "free_in s fl c p = {i. i < per_page c \<and> obj_addr s p c i \<in> set fl}"

text \<open>
  Every object in a free list is an object of a slab page of that class, no object is in it
  twice, and the live count in the entry of a slab page and its objects in the free list add up
  to the objects of the page.
\<close>

definition list_ok :: "kmem \<Rightarrow> nat \<Rightarrow> bool" where
  "list_ok s c \<longleftrightarrow> distinct (slab_free_list s ! c) \<and>
    slab_free_count s ! c = of_nat (length (slab_free_list s ! c)) \<and>
    (\<forall>a \<in> set (slab_free_list s ! c). \<exists>p i k. p < num_pages_in_map s \<and> i < per_page c \<and>
       k \<le> per_page c \<and> entry_map s ! p = slab_entry c k \<and> a = obj_addr s p c i)"

definition page_ok :: "kmem \<Rightarrow> nat \<Rightarrow> bool" where
  "page_ok s p \<longleftrightarrow> (entry_map s ! p AND SLAB_TAG \<noteq> 0 \<longrightarrow>
    (\<exists>c k. c < SLAB_CLASSES \<and> k \<le> per_page c \<and> entry_map s ! p = slab_entry c k \<and>
       card (free_in s (slab_free_list s ! c) c p) + k = per_page c))"

definition kmem_ok :: "kmem \<Rightarrow> bool" where
  "kmem_ok s \<longleftrightarrow> pages_ok s \<and>
    length (slab_free_list s) = SLAB_CLASSES \<and> length (slab_free_count s) = SLAB_CLASSES \<and>
    (\<forall>c < SLAB_CLASSES. list_ok s c) \<and> (\<forall>p < num_pages_in_map s. page_ok s p)"

text \<open>
  The blocks handed out and not yet freed, as address and usable size: whole allocations of
  pages, and the objects of slab pages that are not in the free list.
\<close>

definition blocks_on :: "kmem \<Rightarrow> nat \<Rightarrow> (nat \<times> nat) set" where
  "blocks_on s p =
    (let e = entry_map s ! p; c = SLAB_CLASS e in
     if e = 0 then {}
     else if e AND SLAB_TAG \<noteq> 0
     then {(obj_addr s p c i, class_size c) |i.
             i < per_page c \<and> obj_addr s p c i \<notin> set (slab_free_list s ! c)}
     else {(page_addr s p, unat e * PAGE_SIZE)})"

definition live :: "kmem \<Rightarrow> (nat \<times> nat) set" where
  "live s = (\<Union>p \<in> {..<num_pages_in_map s}. blocks_on s p)"

lemma obj_offset:
  assumes "c < SLAB_CLASSES" and "i < per_page c"
  shows "i * class_size c + class_size c \<le> PAGE_SIZE" "i * class_size c < PAGE_SIZE"
proof -
  have "Suc i * class_size c \<le> per_page c * class_size c"
    using assms(2) by (intro mult_le_mono1) simp
  then show *: "i * class_size c + class_size c \<le> PAGE_SIZE"
    using per_page_facts(1) [OF assms(1)] by simp
  with per_page_facts(4) [OF assms(1)] show "i * class_size c < PAGE_SIZE" by linarith
qed

lemma obj_page:
  assumes "layout_ok s" and "p < num_pages_in_map s" and "c < SLAB_CLASSES" and "i < per_page c"
  shows "get_page_from_addr s (obj_addr s p c i) = p" "slab_page_base (obj_addr s p c i) = page_addr s p"
proof -
  note off = obj_offset(2) [OF assms(3,4)]
  show "get_page_from_addr s (obj_addr s p c i) = p"
    unfolding obj_addr_def by (rule get_page_from_addr_in [OF assms(1,2) off])
  have "page_addr s p mod PAGE_SIZE = 0"
    using assms(1) by (simp add: layout_ok_def page_addr_def)
  then have "(page_addr s p + i * class_size c) mod PAGE_SIZE = i * class_size c"
    using off by (simp add: mod_add_left_eq [symmetric])
  then show "slab_page_base (obj_addr s p c i) = page_addr s p"
    by (simp add: slab_page_base_def obj_addr_def)
qed

lemma obj_addr_inj:
  assumes "layout_ok s" and "p < num_pages_in_map s" and "q < num_pages_in_map s"
    and "c < SLAB_CLASSES" and "i < per_page c" and "j < per_page c"
  shows "obj_addr s p c i = obj_addr s q c j \<longleftrightarrow> p = q \<and> i = j"
proof
  assume eq: "obj_addr s p c i = obj_addr s q c j"
  then have "p = q" using obj_page(1) assms by metis
  with eq per_page_facts(4) [OF assms(4)] show "p = q \<and> i = j" by (simp add: obj_addr_def)
qed simp

lemma kmem_ok_layout: "kmem_ok s \<Longrightarrow> layout_ok s"
  by (simp add: kmem_ok_def pages_ok_def)

lemma kmem_ok_tagged:
  assumes "kmem_ok s" and "p < num_pages_in_map s" and "entry_map s ! p AND SLAB_TAG \<noteq> 0"
  obtains c k where "c < SLAB_CLASSES" "k \<le> per_page c" "k \<le> 128" "entry_map s ! p = slab_entry c k"
    "card (free_in s (slab_free_list s ! c) c p) + k = per_page c"
proof -
  have "page_ok s p" using assms(1,2) by (simp add: kmem_ok_def)
  with assms(3) obtain c k where "c < SLAB_CLASSES" "k \<le> per_page c" "entry_map s ! p = slab_entry c k"
    "card (free_in s (slab_free_list s ! c) c p) + k = per_page c"
    unfolding page_ok_def by blast
  with per_page_facts(2) [of c] that [of c k] show thesis by simp
qed

lemma blocks_on_page:
  assumes ok: "kmem_ok s" and p: "p < num_pages_in_map s" and b: "(a, m) \<in> blocks_on s p"
  shows "get_page_from_addr s a = p" "page_addr s p \<le> a"
    "a + m \<le> page_addr s p + extent (entry_map s ! p) * PAGE_SIZE"
proof -
  note lay = kmem_ok_layout [OF ok]
  show "get_page_from_addr s a = p" "page_addr s p \<le> a"
    "a + m \<le> page_addr s p + extent (entry_map s ! p) * PAGE_SIZE"
  proof (atomize (full), cases "entry_map s ! p AND SLAB_TAG \<noteq> 0")
    case True
    with ok p obtain c k where c: "c < SLAB_CLASSES" "k \<le> per_page c" "entry_map s ! p = slab_entry c k"
      and k: "k \<le> 128" by (rule kmem_ok_tagged)
    from b obtain i where i: "a = obj_addr s p c i" "m = class_size c" "i < per_page c"
      using slab_entry_facts [OF c(1) k] by (auto simp: blocks_on_def c(3) Let_def)
    show "get_page_from_addr s a = p \<and> page_addr s p \<le> a \<and>
        a + m \<le> page_addr s p + extent (entry_map s ! p) * PAGE_SIZE"
      using obj_page(1) [OF lay p c(1) i(3)] obj_offset(1) [OF c(1) i(3)]
        slab_entry_facts(5) [OF c(1) k]
      by (simp add: i(1,2) c(3)) (simp add: obj_addr_def)
  next
    case False
    with b have "a = page_addr s p" "m = extent (entry_map s ! p) * PAGE_SIZE"
      by (auto simp: blocks_on_def extent_def Let_def split: if_splits)
    then show "get_page_from_addr s a = p \<and> page_addr s p \<le> a \<and>
        a + m \<le> page_addr s p + extent (entry_map s ! p) * PAGE_SIZE"
      using get_page_from_addr_in [OF lay p, of 0] by (simp add: PAGE_SIZE_def)
  qed
qed

lemma live_disjoint:
  assumes ok: "kmem_ok s" and a: "(a, m) \<in> live s" and b: "(b, n) \<in> live s" and ne: "(a, m) \<noteq> (b, n)"
  shows "a + m \<le> b \<or> b + n \<le> a"
proof -
  from a obtain p where p: "p < num_pages_in_map s" "(a, m) \<in> blocks_on s p" by (auto simp: live_def)
  from b obtain q where q: "q < num_pages_in_map s" "(b, n) \<in> blocks_on s q" by (auto simp: live_def)
  show ?thesis
  proof (cases "p = q")
    case False
    have nz: "entry_map s ! p \<noteq> 0" "entry_map s ! q \<noteq> 0"
      using p(2) q(2) by (auto simp: blocks_on_def Let_def split: if_splits)
    have "pages_ok s" using ok by (simp add: kmem_ok_def)
    from blocks_disjoint [OF this p(1) q(1) nz False]
    have "page_addr s p + extent (entry_map s ! p) * PAGE_SIZE \<le> page_addr s q \<or>
        page_addr s q + extent (entry_map s ! q) * PAGE_SIZE \<le> page_addr s p"
      by (simp add: page_addr_def flip: distrib_right)
    with blocks_on_page(2,3) [OF ok p] blocks_on_page(2,3) [OF ok q] show ?thesis by linarith
  next
    case True
    with p q ne have tag: "entry_map s ! p AND SLAB_TAG \<noteq> 0"
      by (auto simp: blocks_on_def Let_def split: if_splits)
    with True p q obtain c i j where c: "a = page_addr s p + i * class_size c"
      "b = page_addr s p + j * class_size c" "m = class_size c" "n = class_size c"
      by (auto simp: blocks_on_def obj_addr_def Let_def split: if_splits)
    with ne have "i < j \<or> j < i" by auto
    then have "Suc i * class_size c \<le> j * class_size c \<or> Suc j * class_size c \<le> i * class_size c"
      using mult_le_mono1 Suc_leI by blast
    with c show ?thesis by auto
  qed
qed

lemma live_change:
  assumes ok: "kmem_ok s" and num: "num_pages_in_map s' = num_pages_in_map s"
    and p: "p < num_pages_in_map s"
    and same: "\<And>q. q < num_pages_in_map s \<Longrightarrow> q \<noteq> p \<Longrightarrow> blocks_on s' q = blocks_on s q"
  shows "live s' = (live s - blocks_on s p) \<union> blocks_on s' p"
proof -
  define others where "others = {..<num_pages_in_map s} - {p}"
  have pages: "{..<num_pages_in_map s} = insert p others" using p by (auto simp: others_def)
  have "(\<Union>q \<in> others. blocks_on s q) \<inter> blocks_on s p = {}"
  proof (rule equals0I)
    fix b assume b: "b \<in> (\<Union>q \<in> others. blocks_on s q) \<inter> blocks_on s p"
    with blocks_on_page(1) [OF ok p, of "fst b" "snd b"] have "get_page_from_addr s (fst b) = p" by simp
    moreover from b obtain q where "q < num_pages_in_map s" "q \<noteq> p" "b \<in> blocks_on s q"
      by (auto simp: others_def)
    with blocks_on_page(1) [OF ok, of q "fst b" "snd b"] have "get_page_from_addr s (fst b) = q" by simp
    ultimately show False using \<open>q \<noteq> p\<close> by simp
  qed
  moreover have "(\<Union>q \<in> others. blocks_on s' q) = (\<Union>q \<in> others. blocks_on s q)"
    by (rule SUP_cong) (simp_all add: others_def same)
  ultimately show ?thesis unfolding live_def num pages UN_insert by blast
qed

text \<open>Replacing an entry by another one of the same extent, as tagging and counting do.\<close>

lemma pages_ok_retag:
  assumes ok: "pages_ok s" and p: "p < num_pages_in_map s"
    and e: "entry_map s ! p \<noteq> 0" "e' \<noteq> 0" "extent e' = extent (entry_map s ! p)"
  shows "pages_ok (s\<lparr>entry_map := (entry_map s)[p := e']\<rparr>)"
proof -
  let ?s = "s\<lparr>entry_map := (entry_map s)[p := e']\<rparr>"
  have n: "num_pages_in_map s \<le> length (entry_map s)" using ok by (simp add: pages_ok_def layout_ok_def)
  have "block_ok ?s q" if q: "q < num_pages_in_map s" "entry_map ?s ! q \<noteq> 0" for q
  proof -
    have a: "entry_map s ! q \<noteq> 0" using q e(1) p n by (auto simp: nth_list_update split: if_splits)
    with ok q(1) have b: "block_ok s q" by (simp add: pages_ok_def)
    have x: "extent (entry_map ?s ! q) = extent (entry_map s ! q)"
      using e(3) p n by (simp add: nth_list_update)
    have "p \<noteq> r" if "q < r" "r < q + extent (entry_map s ! q)" for r
      using b e(1) that by (auto simp: block_ok_def)
    then have "\<forall>r. q < r \<and> r < q + extent (entry_map s ! q) \<longrightarrow>
        (entry_map s)[p := e'] ! r = entry_map s ! r" by simp
    with b x show ?thesis by (simp add: block_ok_def)
  qed
  with ok show ?thesis by (simp add: pages_ok_def layout_ok_def free_pages_def)
qed

text \<open>
  The lemma behind all slab operations: page \<open>p\<close> gets a new entry and class \<open>c\<close> a new free list
  that differs from the old one in objects of page \<open>p\<close> only.
\<close>

definition relist :: "kmem \<Rightarrow> nat \<Rightarrow> u32 \<Rightarrow> nat \<Rightarrow> nat list \<Rightarrow> kmem" where
  "relist s p e c fl = s\<lparr>entry_map := (entry_map s)[p := e],
     slab_free_list := (slab_free_list s)[c := fl],
     slab_free_count := (slab_free_count s)[c := of_nat (length fl)]\<rparr>"

definition relist_ok :: "kmem \<Rightarrow> nat \<Rightarrow> u32 \<Rightarrow> nat \<Rightarrow> nat list \<Rightarrow> bool" where
  "relist_ok s p e c fl \<longleftrightarrow>
    c < SLAB_CLASSES \<and> p < num_pages_in_map s \<and>
    entry_map s ! p \<noteq> 0 \<and> extent (entry_map s ! p) = 1 \<and>
    (entry_map s ! p AND SLAB_TAG \<noteq> 0 \<longrightarrow> SLAB_CLASS (entry_map s ! p) = c) \<and>
    distinct fl \<and>
    (\<forall>q i. q < num_pages_in_map s \<and> q \<noteq> p \<and> i < per_page c \<longrightarrow>
       (obj_addr s q c i \<in> set fl \<longleftrightarrow> obj_addr s q c i \<in> set (slab_free_list s ! c))) \<and>
    (\<forall>a \<in> set fl. \<exists>q i. q < num_pages_in_map s \<and> i < per_page c \<and> a = obj_addr s q c i) \<and>
    (e = 1 \<and> free_in s fl c p = {} \<or>
     (\<exists>k \<le> per_page c. e = slab_entry c k \<and> card (free_in s fl c p) + k = per_page c))"

lemma extent_1 [simp]: "extent 1 = 1" "1 AND SLAB_TAG = 0"
  using extent_of_nat [of 1] by simp_all

lemma relist_simps [simp]:
  "num_pages_in_map (relist s p e c fl) = num_pages_in_map s"
  "obj_addr (relist s p e c fl) = obj_addr s" "page_addr (relist s p e c fl) = page_addr s"
  "entry_map (relist s p e c fl) = (entry_map s)[p := e]"
  "slab_free_list (relist s p e c fl) = (slab_free_list s)[c := fl]"
  "free_in (relist s p e c fl) = free_in s"
  by (auto simp: relist_def obj_addr_def page_addr_def free_in_def fun_eq_iff)

lemma relist_entry:
  assumes "relist_ok s p e c fl"
  shows "e \<noteq> 0" "extent e = 1" "e AND SLAB_TAG \<noteq> 0 \<Longrightarrow> SLAB_CLASS e = c"
proof -
  from assms have c: "c < SLAB_CLASSES" and
    "e = 1 \<or> (\<exists>k \<le> per_page c. e = slab_entry c k)" by (auto simp: relist_ok_def)
  then have "e \<noteq> 0 \<and> extent e = 1 \<and> (e AND SLAB_TAG \<noteq> 0 \<longrightarrow> SLAB_CLASS e = c)"
  proof (elim disjE exE conjE)
    fix k
    assume k: "k \<le> per_page c" "e = slab_entry c k"
    with per_page_facts(2) [OF c] have "k \<le> 128" by simp
    with slab_entry_facts [OF c this] k(2) show ?thesis by simp
  qed simp
  then show "e \<noteq> 0" "extent e = 1" "e AND SLAB_TAG \<noteq> 0 \<Longrightarrow> SLAB_CLASS e = c" by simp_all
qed

lemma pages_ok_lists [simp]:
  "pages_ok (s\<lparr>slab_free_list := fl\<rparr>) = pages_ok s" "pages_ok (s\<lparr>slab_free_count := fc\<rparr>) = pages_ok s"
  by (simp_all add: pages_ok_def layout_ok_def block_ok_def free_pages_def)

lemma relist_pages_ok:
  assumes "kmem_ok s" and "relist_ok s p e c fl"
  shows "pages_ok (relist s p e c fl)"
proof -
  have "pages_ok s" using assms(1) by (simp add: kmem_ok_def)
  moreover have "p < num_pages_in_map s" "entry_map s ! p \<noteq> 0" "extent (entry_map s ! p) = 1"
    using assms(2) unfolding relist_ok_def by blast+
  ultimately have "pages_ok (s\<lparr>entry_map := (entry_map s)[p := e]\<rparr>)"
    using relist_entry(1,2) [OF assms(2)] by (simp add: pages_ok_retag)
  then show ?thesis by (simp add: relist_def)
qed

text \<open>An object in the free list of another class is not on page \<open>p\<close>.\<close>

lemma relist_other_class:
  assumes ok: "kmem_ok s" and r: "relist_ok s p e c fl" and d: "d < SLAB_CLASSES" "d \<noteq> c"
  shows "list_ok (relist s p e c fl) d"
proof -
  have l: "list_ok s d" using ok d by (simp add: kmem_ok_def)
  have "q \<noteq> p" if "k \<le> per_page d" "entry_map s ! q = slab_entry d k" for q k
  proof -
    have "k \<le> 128" using that per_page_facts(2) [OF d(1)] by simp
    with slab_entry_facts(1,2) [OF d(1)] that r d(2) show ?thesis by (auto simp: relist_ok_def)
  qed
  then have other: "(entry_map s)[p := e] ! q = slab_entry d k"
    if "k \<le> per_page d" "entry_map s ! q = slab_entry d k" for q k
    using that by (metis nth_list_update_neq)
  have "\<exists>q i k. q < num_pages_in_map s \<and> i < per_page d \<and> k \<le> per_page d \<and>
      (entry_map s)[p := e] ! q = slab_entry d k \<and> a = obj_addr s q d i"
    if a: "a \<in> set (slab_free_list s ! d)" for a
  proof -
    from l a obtain q i k where "q < num_pages_in_map s" "i < per_page d" "k \<le> per_page d"
      "entry_map s ! q = slab_entry d k" "a = obj_addr s q d i" unfolding list_ok_def by blast
    with other show ?thesis by blast
  qed
  moreover have "slab_free_count (relist s p e c fl) ! d = slab_free_count s ! d"
    using d(2) by (simp add: relist_def)
  ultimately show ?thesis using l d(2) by (simp add: list_ok_def)
qed

lemma relist_okD:
  assumes "relist_ok s p e c fl"
  shows "c < SLAB_CLASSES" "p < num_pages_in_map s" "entry_map s ! p \<noteq> 0"
    "entry_map s ! p AND SLAB_TAG \<noteq> 0 \<Longrightarrow> SLAB_CLASS (entry_map s ! p) = c" "distinct fl"
    "\<And>q i. q < num_pages_in_map s \<Longrightarrow> q \<noteq> p \<Longrightarrow> i < per_page c \<Longrightarrow>
       obj_addr s q c i \<in> set fl \<longleftrightarrow> obj_addr s q c i \<in> set (slab_free_list s ! c)"
    "\<And>a. a \<in> set fl \<Longrightarrow> \<exists>q i. q < num_pages_in_map s \<and> i < per_page c \<and> a = obj_addr s q c i"
    "e = 1 \<and> free_in s fl c p = {} \<or>
     (\<exists>k \<le> per_page c. e = slab_entry c k \<and> card (free_in s fl c p) + k = per_page c)"
  using assms unfolding relist_ok_def by blast+

lemma kmem_ok_lengths:
  assumes "kmem_ok s"
  shows "length (slab_free_list s) = SLAB_CLASSES" "length (slab_free_count s) = SLAB_CLASSES"
    "num_pages_in_map s \<le> length (entry_map s)"
  using assms by (simp_all add: kmem_ok_def pages_ok_def layout_ok_def)

lemma kmem_ok_free_obj:
  assumes "kmem_ok s" and "c < SLAB_CLASSES" and "a \<in> set (slab_free_list s ! c)"
  obtains p i k where "p < num_pages_in_map s" "i < per_page c" "k \<le> per_page c"
    "entry_map s ! p = slab_entry c k" "a = obj_addr s p c i"
proof -
  have "list_ok s c" using assms(1,2) by (simp add: kmem_ok_def)
  with assms(3) that show thesis unfolding list_ok_def by blast
qed

lemma relist_same_class:
  assumes ok: "kmem_ok s" and r: "relist_ok s p e c fl"
  shows "list_ok (relist s p e c fl) c"
proof -
  note d = relist_okD [OF r] and n = kmem_ok_lengths [OF ok]
  have "\<exists>q i k. q < num_pages_in_map s \<and> i < per_page c \<and> k \<le> per_page c \<and>
      (entry_map s)[p := e] ! q = slab_entry c k \<and> a = obj_addr s q c i"
    if a: "a \<in> set fl" for a
  proof -
    from d(7) [OF a] obtain q i where q: "q < num_pages_in_map s" "i < per_page c" "a = obj_addr s q c i"
      by blast
    show ?thesis
    proof (cases "q = p")
      case True
      with a q have "i \<in> free_in s fl c p" by (simp add: free_in_def)
      with d(8) obtain k where "k \<le> per_page c" "e = slab_entry c k" by blast
      with True q d(2) n(3) show ?thesis by (intro exI [of _ q] exI [of _ i] exI [of _ k]) simp
    next
      case False
      with d(6) [OF q(1) False q(2)] a q(3) have "a \<in> set (slab_free_list s ! c)" by simp
      then obtain q' j k where q': "q' < num_pages_in_map s" "j < per_page c" "k \<le> per_page c"
        "entry_map s ! q' = slab_entry c k" "a = obj_addr s q' c j"
        by (rule kmem_ok_free_obj [OF ok d(1)])
      have "obj_addr s q' c j = obj_addr s q c i" by (rule trans [OF q'(5) [symmetric] q(3)])
      then have "q' = q"
        using obj_addr_inj [OF kmem_ok_layout [OF ok] q'(1) q(1) d(1) q'(2) q(2)] by blast
      with False q q'(3,4) show ?thesis by (intro exI [of _ q] exI [of _ i] exI [of _ k]) simp
    qed
  qed
  moreover have "slab_free_count (relist s p e c fl) ! c = of_nat (length fl)"
    using d(1) n(2) by (simp add: relist_def)
  ultimately show ?thesis using d(1,5) n(1) by (simp add: list_ok_def)
qed

lemma relist_free_in:
  assumes r: "relist_ok s p e c fl" and "q < num_pages_in_map s" and "q \<noteq> p"
  shows "free_in s fl c q = free_in s (slab_free_list s ! c) c q"
  using relist_okD(6) [OF r assms(2,3)] unfolding free_in_def by blast

lemma relist_page_ok:
  assumes ok: "kmem_ok s" and r: "relist_ok s p e c fl" and q: "q < num_pages_in_map s"
  shows "page_ok (relist s p e c fl) q"
proof (cases "q = p")
  case True
  note d = relist_okD [OF r] and n = kmem_ok_lengths [OF ok]
  show ?thesis
  proof (cases "e = 1")
    case True
    with \<open>q = p\<close> d(2) n(3) show ?thesis by (simp add: page_ok_def)
  next
    case False
    with d(8) obtain k where "k \<le> per_page c" "e = slab_entry c k" "card (free_in s fl c p) + k = per_page c"
      by blast
    with \<open>q = p\<close> d(1,2) n(1,3) show ?thesis
      unfolding page_ok_def by (intro impI exI [of _ c] exI [of _ k]) simp
  qed
next
  case False
  have "page_ok s q" using ok q by (simp add: kmem_ok_def)
  moreover have "free_in s ((slab_free_list s)[c := fl] ! d) d q = free_in s (slab_free_list s ! d) d q"
    if "d < SLAB_CLASSES" for d
    using relist_free_in [OF r q False] kmem_ok_lengths(1) [OF ok] that
    by (cases "d = c") auto
  moreover have "entry_map (relist s p e c fl) ! q = entry_map s ! q" using False by simp
  ultimately show ?thesis unfolding page_ok_def relist_simps by metis
qed

lemma relist_kmem_ok:
  assumes "kmem_ok s" and "relist_ok s p e c fl"
  shows "kmem_ok (relist s p e c fl)"
proof -
  have "list_ok (relist s p e c fl) d" if "d < SLAB_CLASSES" for d
    using relist_same_class [OF assms] relist_other_class [OF assms that] by (cases "d = c") auto
  moreover have "length (slab_free_count (relist s p e c fl)) = SLAB_CLASSES"
    using kmem_ok_lengths(2) [OF assms(1)] by (simp add: relist_def)
  ultimately show ?thesis
    using relist_pages_ok [OF assms] relist_page_ok [OF assms] kmem_ok_lengths(1) [OF assms(1)]
    by (simp add: kmem_ok_def)
qed

lemma blocks_on_slab:
  assumes "d < SLAB_CLASSES" and "k \<le> 128" and "entry_map s ! q = slab_entry d k"
  shows "blocks_on s q = (\<lambda>i. (obj_addr s q d i, class_size d)) `
    ({..<per_page d} - free_in s (slab_free_list s ! d) d q)"
  using slab_entry_facts [OF assms(1,2)] unfolding blocks_on_def assms(3) Let_def
  by (auto simp: free_in_def)

lemma blocks_on_page_block:
  assumes "entry_map s ! q AND SLAB_TAG = 0"
  shows "blocks_on s q =
    (if entry_map s ! q = 0 then {} else {(page_addr s q, unat (entry_map s ! q) * PAGE_SIZE)})"
  using assms by (simp add: blocks_on_def Let_def)

lemma relist_blocks_on:
  assumes ok: "kmem_ok s" and r: "relist_ok s p e c fl" and q: "q < num_pages_in_map s" "q \<noteq> p"
  shows "blocks_on (relist s p e c fl) q = blocks_on s q"
proof (cases "entry_map s ! q AND SLAB_TAG \<noteq> 0")
  case True
  with ok q(1) obtain d k where d: "d < SLAB_CLASSES" "k \<le> 128" "entry_map s ! q = slab_entry d k"
    by (rule kmem_ok_tagged)
  have "free_in s ((slab_free_list s)[c := fl] ! d) d q = free_in s (slab_free_list s ! d) d q"
    using relist_free_in [OF r q] kmem_ok_lengths(1) [OF ok] d(1) by (cases "d = c") auto
  with q(2) d(3) show ?thesis
    by (simp add: blocks_on_slab [OF d(1,2)])
next
  case False
  with q(2) show ?thesis by (simp add: blocks_on_page_block)
qed

lemma relist_live:
  assumes ok: "kmem_ok s" and r: "relist_ok s p e c fl"
  shows "live (relist s p e c fl) = (live s - blocks_on s p) \<union> blocks_on (relist s p e c fl) p"
  by (rule live_change [OF ok _ relist_okD(2) [OF r] relist_blocks_on [OF ok r]]) simp_all

section \<open>Whole pages\<close>

text \<open>
  Allocating and freeing pages changes entries without the tag only and leaves the slab lists
  alone.
\<close>

lemma same_layout_simps:
  fixes s s' :: kmem
  assumes "same_layout s s'"
  shows "slab_free_list s' = slab_free_list s" "slab_free_count s' = slab_free_count s"
    "num_pages_in_map s' = num_pages_in_map s" "page_addr s' = page_addr s"
    "obj_addr s' = obj_addr s" "free_in s' = free_in s"
proof -
  have m: "pmm.more s' = pmm.more s" "lowest_address s' = lowest_address s"
    "higher_half_offset s' = higher_half_offset s" "num_pages_in_map s' = num_pages_in_map s"
    using assms by (simp_all add: same_layout_def)
  show "slab_free_list s' = slab_free_list s" "slab_free_count s' = slab_free_count s"
    using m(1) by (cases s; cases s'; simp)+
  show "num_pages_in_map s' = num_pages_in_map s" by (fact m(4))
  show p: "page_addr s' = page_addr s" by (simp add: page_addr_def fun_eq_iff m)
  then show o: "obj_addr s' = obj_addr s" by (simp add: obj_addr_def fun_eq_iff)
  then show "free_in s' = free_in s" by (simp add: free_in_def fun_eq_iff)
qed

lemma untagged_change:
  assumes ok: "kmem_ok s" and pok: "pages_ok s'" and lay: "same_layout s s'"
    and em: "entry_map s' = (entry_map s)[p := e]" and p: "p < num_pages_in_map s"
    and tag: "entry_map s ! p AND SLAB_TAG = 0" "e AND SLAB_TAG = 0"
  shows "kmem_ok s'" "live s' = (live s - blocks_on s p) \<union> blocks_on s' p"
proof -
  note l = same_layout_simps [OF lay] and n = kmem_ok_lengths [OF ok]
  have slab: "entry_map s' ! q = slab_entry d k"
    if "d < SLAB_CLASSES" "k \<le> per_page d" "entry_map s ! q = slab_entry d k" for q d k
  proof -
    have "k \<le> 128" using per_page_facts(2) [OF that(1)] that(2) by simp
    with slab_entry_facts(1) [OF that(1)] that(3) tag(1) have "q \<noteq> p" by auto
    with that(3) em show ?thesis by simp
  qed
  have "list_ok s' c" if c: "c < SLAB_CLASSES" for c
  proof -
    have "list_ok s c" using ok c by (simp add: kmem_ok_def)
    then show ?thesis unfolding list_ok_def l using slab [OF c] by blast
  qed
  moreover have other: "entry_map s' ! q = entry_map s ! q" if "q \<noteq> p" for q
    using that em by simp
  have "page_ok s' q" if q: "q < num_pages_in_map s" for q
  proof (cases "q = p")
    case True
    with p n(3) tag(2) show ?thesis by (simp add: page_ok_def em)
  next
    case False
    have "page_ok s q" using ok q by (simp add: kmem_ok_def)
    then show ?thesis unfolding page_ok_def l other [OF False] .
  qed
  ultimately show "kmem_ok s'" using pok n(1,2) by (simp add: kmem_ok_def l)
  have "blocks_on s' q = blocks_on s q" if "q \<noteq> p" for q
    unfolding blocks_on_def l other [OF that] by (rule refl)
  then show "live s' = (live s - blocks_on s p) \<union> blocks_on s' p"
    by (intro live_change [OF ok l(3) p])
qed

lemma free_page_entry:
  assumes "pages_ok s" and "q < num_pages_in_map s" and "\<not> taken (page_bitmap s) q"
  shows "entry_map s ! q = 0"
proof (rule ccontr)
  assume a: "entry_map s ! q \<noteq> 0"
  with assms(1,2) have "block_ok s q" by (simp add: pages_ok_def)
  with extent_pos [OF a] have "taken (page_bitmap s) q" by (simp add: block_ok_def)
  with assms(3) show False by simp
qed

lemma grabbed_kmem:
  assumes ok: "kmem_ok s" and g: "grabbed s p k s'" and free: "free_run (page_bitmap s) p k"
    and le: "p + k \<le> num_pages_in_map s" and k: "0 < k"
  shows "kmem_ok s'" "live s' = insert (page_addr s p, k * PAGE_SIZE) (live s)"
    "entry_map s' ! p = of_nat k" "entry_map s ! p = 0"
proof -
  have pok: "pages_ok s" using ok by (simp add: kmem_ok_def)
  have p: "p < num_pages_in_map s" using le k by simp
  have "num_pages_in_map s < 2 ^ 31" using pok by (simp add: pages_ok_def layout_ok_def)
  with le have k31: "k < 2 ^ 31" by simp
  show e0: "entry_map s ! p = 0"
    using free_page_entry [OF pok p] free k by (simp add: free_run_def)
  have lay: "same_layout s s'" using g by (simp add: grabbed_def)
  note ch = untagged_change [OF ok grabbed_pages_ok [OF pok g free le k] lay grabbedD(2) [OF g] p]
  show "kmem_ok s'" by (rule ch(1)) (simp_all add: e0 extent_of_nat(2) [OF k31])
  show e': "entry_map s' ! p = of_nat k"
    using grabbedD(2) [OF g] p kmem_ok_lengths(3) [OF ok] by simp
  have "(of_nat k :: u32) \<noteq> 0" using extent_of_nat(3) [OF k31] k by auto
  then have "blocks_on s' p = {(page_addr s p, k * PAGE_SIZE)}"
    using extent_of_nat(2,3) [OF k31] same_layout_simps(4) [OF lay]
    by (simp add: blocks_on_page_block e')
  moreover have "blocks_on s p = {}" by (simp add: blocks_on_def e0)
  moreover have "live s' = (live s - blocks_on s p) \<union> blocks_on s' p"
    by (rule ch(2)) (simp_all add: e0 extent_of_nat(2) [OF k31])
  ultimately show "live s' = insert (page_addr s p, k * PAGE_SIZE) (live s)" by simp
qed

lemma dropped_kmem:
  assumes ok: "kmem_ok s" and p: "p < num_pages_in_map s"
    and e: "entry_map s ! p \<noteq> 0" "entry_map s ! p AND SLAB_TAG = 0"
    and d: "dropped s p (extent (entry_map s ! p)) s'"
  shows "kmem_ok s'"
    "live s' = live s - {(page_addr s p, unat (entry_map s ! p) * PAGE_SIZE)}"
proof -
  have pok: "pages_ok s" using ok by (simp add: kmem_ok_def)
  have lay: "same_layout s s'" using d by (simp add: dropped_def)
  note ch = untagged_change [OF ok dropped_pages_ok [OF pok d p e(1) refl] lay droppedD(2) [OF d] p e(2)]
  show "kmem_ok s'" by (rule ch(1)) simp
  have "entry_map s' ! p = 0"
    using droppedD(2) [OF d] p kmem_ok_lengths(3) [OF ok] by simp
  then have "blocks_on s' p = {}" by (simp add: blocks_on_def)
  with ch(2) blocks_on_page_block [OF e(2)] e(1)
  show "live s' = live s - {(page_addr s p, unat (entry_map s ! p) * PAGE_SIZE)}" by simp
qed

section \<open>Objects\<close>

lemma live_on_page:
  assumes "kmem_ok s" and "(a, m) \<in> live s"
  shows "get_page_from_addr s a < num_pages_in_map s" "(a, m) \<in> blocks_on s (get_page_from_addr s a)"
proof -
  from assms(2) obtain p where p: "p < num_pages_in_map s" "(a, m) \<in> blocks_on s p"
    by (auto simp: live_def)
  with blocks_on_page(1) [OF assms(1) p]
  show "get_page_from_addr s a < num_pages_in_map s" "(a, m) \<in> blocks_on s (get_page_from_addr s a)"
    by simp_all
qed

lemma finite_free_in [simp]: "finite (free_in s fl c p)"
  by (simp add: free_in_def)

lemma kmem_ok_slab_page:
  assumes ok: "kmem_ok s" and p: "p < num_pages_in_map s" and c: "c < SLAB_CLASSES"
    and e: "entry_map s ! p = slab_entry c k" and k: "k \<le> per_page c"
  shows "card (free_in s (slab_free_list s ! c) c p) + k = per_page c" "k \<le> 128"
proof -
  show k128: "k \<le> 128" using k per_page_facts(2) [OF c] by simp
  have "entry_map s ! p AND SLAB_TAG \<noteq> 0" using slab_entry_facts(1) [OF c k128] e by simp
  with ok p obtain d j where d: "d < SLAB_CLASSES" "j \<le> 128" "entry_map s ! p = slab_entry d j"
    "card (free_in s (slab_free_list s ! d) d p) + j = per_page d" by (rule kmem_ok_tagged)
  have "d = c" "j = k"
    using slab_entry_facts(2,3) [OF c k128] slab_entry_facts(2,3) [OF d(1,2)] d(3) e by simp_all
  with d(4) show "card (free_in s (slab_free_list s ! c) c p) + k = per_page c" by simp
qed

lemma blocks_on_live: "p < num_pages_in_map s \<Longrightarrow> blocks_on s p \<subseteq> live s"
  by (auto simp: live_def)

text \<open>Taking an object off the free list, and putting one back.\<close>

lemma relist_ok_take:
  assumes ok: "kmem_ok s" and c: "c < SLAB_CLASSES" and fl: "slab_free_list s ! c = a # fl"
    and p: "p < num_pages_in_map s" "i < per_page c" "k \<le> per_page c"
      "entry_map s ! p = slab_entry c k" "a = obj_addr s p c i"
  shows "relist_ok s p (slab_entry c (Suc k)) c fl" "i \<notin> free_in s fl c p"
    "free_in s (slab_free_list s ! c) c p = insert i (free_in s fl c p)" "Suc k \<le> per_page c"
proof -
  note lay = kmem_ok_layout [OF ok] and sp = kmem_ok_slab_page [OF ok p(1) c p(4,3)]
  have "list_ok s c" using ok c by (simp add: kmem_ok_def)
  then have dist: "distinct (a # fl)" by (simp add: list_ok_def fl)
  show fin: "i \<notin> free_in s fl c p"
    "free_in s (slab_free_list s ! c) c p = insert i (free_in s fl c p)"
    using obj_addr_inj [OF lay p(1,1) c _ p(2)] p(2,5) dist by (auto simp: free_in_def fl)
  with sp(1) have sum: "card (free_in s fl c p) + Suc k = per_page c" by simp
  then show "Suc k \<le> per_page c" by simp
  show "relist_ok s p (slab_entry c (Suc k)) c fl"
    unfolding relist_ok_def
  proof (intro conjI allI impI ballI)
    show "obj_addr s q c j \<in> set fl \<longleftrightarrow> obj_addr s q c j \<in> set (slab_free_list s ! c)"
      if "q < num_pages_in_map s \<and> q \<noteq> p \<and> j < per_page c" for q j
      using obj_addr_inj [OF lay _ p(1) c _ p(2), of q j] that p(5) by (simp add: fl)
    show "\<exists>q i. q < num_pages_in_map s \<and> i < per_page c \<and> b = obj_addr s q c i" if "b \<in> set fl" for b
      using kmem_ok_free_obj [OF ok c, of b] that fl by (metis list.set_intros(2))
    show "slab_entry c (Suc k) = 1 \<and> free_in s fl c p = {} \<or>
        (\<exists>k' \<le> per_page c. slab_entry c (Suc k) = slab_entry c k' \<and> card (free_in s fl c p) + k' = per_page c)"
      using sum by (intro disjI2 exI [of _ "Suc k"]) simp
  qed (use c p(1,4) slab_entry_facts [OF c sp(2)] dist in simp_all)
qed

lemma slab_take_ok:
  assumes ok: "kmem_ok s" and c: "c < SLAB_CLASSES" and fl: "slab_free_list s ! c = a # fl"
  shows "\<exists>s'. slab_take s c = Some (Some a, s') \<and> kmem_ok s' \<and> (a, class_size c) \<notin> live s \<and>
    live s' = insert (a, class_size c) (live s)"
proof -
  have "a \<in> set (slab_free_list s ! c)" by (simp add: fl)
  then obtain p i k where p: "p < num_pages_in_map s" "i < per_page c" "k \<le> per_page c"
    "entry_map s ! p = slab_entry c k" "a = obj_addr s p c i" by (rule kmem_ok_free_obj [OF ok c])
  note lay = kmem_ok_layout [OF ok] and n = kmem_ok_lengths [OF ok]
  note sp = kmem_ok_slab_page [OF ok p(1) c p(4,3)] and pg = obj_page(1) [OF lay p(1) c p(2)]
  note r = relist_ok_take [OF ok c fl p]
  let ?s = "relist s p (slab_entry c (Suc k)) c fl"
  have "slab_free_count s ! c = of_nat (length (a # fl))"
    using ok c fl by (simp add: kmem_ok_def list_ok_def)
  then have "slab_take s c = Some (Some a, ?s)"
    using p(1) n(3) slab_entry_facts(6) [OF c sp(2)]
    by (simp add: slab_take_def fl p(5) pg relist_def p(4))
  moreover have old: "blocks_on s p = (\<lambda>i. (obj_addr s p c i, class_size c)) `
      ({..<per_page c} - insert i (free_in s fl c p))"
    using blocks_on_slab [OF c sp(2) p(4)] r(3) by simp
  have "(a, class_size c) \<notin> blocks_on s p"
    using old obj_addr_inj [OF lay p(1,1) c p(2)] p(5) by (auto simp: image_iff)
  then have "(a, class_size c) \<notin> live s" using live_on_page(2) [OF ok] p(5) pg by metis
  moreover have "blocks_on ?s p = (\<lambda>i. (obj_addr s p c i, class_size c)) `
      ({..<per_page c} - free_in s fl c p)"
    using blocks_on_slab [OF c, of "Suc k" ?s p] r(4) per_page_facts(2) [OF c] p(1) n(1,3) c by simp
  moreover have "{..<per_page c} - free_in s fl c p
      = insert i ({..<per_page c} - insert i (free_in s fl c p))" using r(2) p(2) by auto
  ultimately have "blocks_on ?s p = insert (a, class_size c) (blocks_on s p)"
    using old p(5) by simp
  then have "live ?s = insert (a, class_size c) (live s)"
    using relist_live [OF ok r(1)] blocks_on_live [OF p(1)] by auto
  with \<open>slab_take s c = _\<close> \<open>(a, class_size c) \<notin> live s\<close> relist_kmem_ok [OF ok r(1)]
  show ?thesis by blast
qed

text \<open>Dividing a fresh page.\<close>

definition carved :: "kmem \<Rightarrow> nat \<Rightarrow> nat \<Rightarrow> nat list" where
  "carved s p c = rev (map (obj_addr s p c) [0..<per_page c])"

lemma carve_from:
  assumes "c < SLAB_CLASSES"
  shows "j \<le> per_page c \<Longrightarrow> carve (page_addr s p) c (j * class_size c) fl n =
    (rev (map (obj_addr s p c) [j..<per_page c]) @ fl, n + of_nat (per_page c - j))"
proof (induction "per_page c - j" arbitrary: j fl n)
  case 0
  then have "j = per_page c" by simp
  then show ?case using per_page_facts(1) [OF assms] by (simp add: carve.simps)
next
  case (Suc m)
  then have j: "j < per_page c" by simp
  have "carve (page_addr s p) c (j * class_size c) fl n
      = carve (page_addr s p) c (Suc j * class_size c) (obj_addr s p c j # fl) (n + 1)"
    using obj_offset(2) [OF assms j]
    by (subst carve.simps) (simp add: obj_addr_def add.commute)
  also have "\<dots> = (rev (map (obj_addr s p c) [Suc j..<per_page c]) @ (obj_addr s p c j # fl),
      n + 1 + of_nat (per_page c - Suc j))"
    using Suc.hyps(2) j by (intro Suc.hyps(1)) simp_all
  also have "n + 1 + of_nat (per_page c - Suc j) = n + of_nat (per_page c - j)"
    using j by (simp add: Suc_diff_Suc [symmetric])
  finally show ?case using j by (simp add: upt_conv_Cons)
qed

lemma carve_page:
  "c < SLAB_CLASSES \<Longrightarrow> carve (page_addr s p) c 0 [] 0 = (carved s p c, of_nat (length (carved s p c)))"
  using carve_from [of c 0 s p "[]" 0] by (simp add: carved_def)

lemma relist_ok_carved:
  assumes ok: "kmem_ok s" and c: "c < SLAB_CLASSES" and fl: "slab_free_list s ! c = []"
    and p: "p < num_pages_in_map s" "entry_map s ! p = 1"
  shows "relist_ok s p (slab_entry c 0) c (carved s p c)"
    "free_in s (carved s p c) c p = {..<per_page c}"
proof -
  note inj = obj_addr_inj [OF kmem_ok_layout [OF ok]]
  have set: "set (carved s p c) = obj_addr s p c ` {..<per_page c}"
    by (auto simp: carved_def)
  show fin: "free_in s (carved s p c) c p = {..<per_page c}"
    unfolding free_in_def set by auto
  have dist: "distinct (carved s p c)"
    using inj [OF p(1,1) c] by (auto simp: carved_def distinct_map inj_on_def)
  show "relist_ok s p (slab_entry c 0) c (carved s p c)"
    unfolding relist_ok_def
  proof (intro conjI allI impI ballI)
    show "obj_addr s q c j \<in> set (carved s p c) \<longleftrightarrow> obj_addr s q c j \<in> set (slab_free_list s ! c)"
      if "q < num_pages_in_map s \<and> q \<noteq> p \<and> j < per_page c" for q j
      using inj [OF _ p(1) c, of q j] that by (auto simp: set fl)
    show "\<exists>q i. q < num_pages_in_map s \<and> i < per_page c \<and> b = obj_addr s q c i"
      if "b \<in> set (carved s p c)" for b
      using that p(1) by (auto simp: set)
    show "slab_entry c 0 = 1 \<and> free_in s (carved s p c) c p = {} \<or>
        (\<exists>k \<le> per_page c. slab_entry c 0 = slab_entry c k \<and> card (free_in s (carved s p c) c p) + k = per_page c)"
      by (intro disjI2 exI [of _ 0]) (simp add: fin)
  qed (use c p dist in simp_all)
qed

text \<open>A new slab page changes nothing about the blocks in use.\<close>

lemma slab_grow:
  assumes ok: "kmem_ok s" and c: "c < SLAB_CLASSES" and fl: "slab_free_list s ! c = []"
    and page: "kalloc_internal s PAGE_SIZE 0 True = Some (Some (page_addr s p), s1)"
      "p + 1 \<le> num_pages_in_map s" "free_run (page_bitmap s) p 1" "grabbed s p 1 s1"
  shows "\<exists>s2. slab_alloc s c = slab_take s2 c \<and> kmem_ok s2 \<and> slab_free_list s2 ! c \<noteq> [] \<and> live s2 = live s"
proof -
  note n = kmem_ok_lengths [OF ok] and g = grabbed_kmem [OF ok page(4,3,2)]
  have p: "p < num_pages_in_map s" using page(2) by simp
  have "same_layout s s1" using page(4) by (simp add: grabbed_def)
  note l = same_layout_simps [OF this]
  have ok1: "kmem_ok s1" and e1: "entry_map s1 ! p = 1" using g(1,3) by simp_all
  have pg: "get_page_from_addr s1 (page_addr s1 p) = p"
    using get_page_from_addr_in [OF kmem_ok_layout [OF ok1], of p 0] p l(3) by (simp add: PAGE_SIZE_def)
  have cnt: "slab_free_count s1 ! c = 0" using ok c fl l(2) by (simp add: kmem_ok_def list_ok_def)
  have r: "relist_ok s1 p (slab_entry c 0) c (carved s1 p c)"
    "free_in s1 (carved s1 p c) c p = {..<per_page c}"
    using relist_ok_carved [OF ok1 c] fl p l(1,3) e1 by simp_all
  let ?s2 = "relist s1 p (slab_entry c 0) c (carved s1 p c)"
  have "slab_alloc s c = slab_take ?s2 c"
    using p n(3) page(4) carve_page [OF c, of s1 p] fl
    by (simp add: slab_alloc_def page(1) pg l(1,4) [symmetric] cnt grabbed_def relist_def slab_entry_def)
  moreover have "slab_free_list ?s2 ! c \<noteq> []"
    using n(1) c l(1) per_page_facts(3) [OF c] by (simp add: carved_def)
  moreover have "blocks_on ?s2 p = {}"
    using blocks_on_slab [OF c, of 0 ?s2 p] p n(1,3) l(1) c g(3) r(2) kmem_ok_lengths(3) [OF ok1] l(3)
    by simp
  moreover have "blocks_on s1 p = {(page_addr s p, PAGE_SIZE)}"
    using e1 l(4) by (simp add: blocks_on_page_block)
  moreover have "(page_addr s p, PAGE_SIZE) \<notin> live s"
    using live_on_page(2) [OF ok, of "page_addr s p" PAGE_SIZE] g(4)
      get_page_from_addr_in [OF kmem_ok_layout [OF ok] p, of 0]
    by (auto simp: PAGE_SIZE_def blocks_on_def)
  ultimately show ?thesis
    using relist_kmem_ok [OF ok1 r(1)] relist_live [OF ok1 r(1)] g(2) by (intro exI [of _ ?s2]) auto
qed

lemma slab_alloc_ok:
  assumes ok: "kmem_ok s" and c: "c < SLAB_CLASSES"
  shows "\<exists>r s'. slab_alloc s c = Some (r, s') \<and> kmem_ok s' \<and>
    (case r of None \<Rightarrow> s' = s
     | Some a \<Rightarrow> (a, class_size c) \<notin> live s \<and> live s' = insert (a, class_size c) (live s))"
proof (cases "slab_free_list s ! c")
  case (Cons a fl)
  from slab_take_ok [OF ok c this] Cons show ?thesis by (force simp: slab_alloc_def)
next
  case Nil
  have pok: "pages_ok s" and num: "0 < num_pages_in_map s" and one: "1 = DIV_ROUNDUP PAGE_SIZE PAGE_SIZE"
    using ok by (simp_all add: kmem_ok_def pages_ok_def layout_ok_def DIV_ROUNDUP_def PAGE_SIZE_def)
  from kalloc_internal_cases [OF pok num one, of True] consider
    (null) "kalloc_internal s PAGE_SIZE 0 True = Some (None, s)"
  | (page) p s1 where "kalloc_internal s PAGE_SIZE 0 True = Some (Some (page_addr s p), s1)"
      "p + 1 \<le> num_pages_in_map s" "free_run (page_bitmap s) p 1" "grabbed s p 1 s1" by blast
  then show ?thesis
  proof cases
    case null
    with Nil ok show ?thesis by (simp add: slab_alloc_def)
  next
    case page
    from slab_grow [OF ok c Nil page] obtain s2 a fl where s2: "slab_alloc s c = slab_take s2 c"
      "kmem_ok s2" "slab_free_list s2 ! c = a # fl" "live s2 = live s" by (auto simp: neq_Nil_conv)
    from slab_take_ok [OF s2(2) c s2(3)] show ?thesis by (force simp: s2(1,4))
  qed
qed

lemma kalloc_ok:
  assumes ok: "kmem_ok s"
  shows "\<exists>r s'. kalloc s n = Some (r, s') \<and> kmem_ok s' \<and>
    (case r of None \<Rightarrow> s' = s
     | Some a \<Rightarrow> \<exists>m. n \<le> m \<and> (a, m) \<notin> live s \<and> live s' = insert (a, m) (live s))"
proof (cases "n > 0 \<and> n \<le> SLAB_MAX_SIZE \<and> max_pages_available s \<noteq> 0")
  case True
  then have c: "slab_class_for n < SLAB_CLASSES" "n \<le> class_size (slab_class_for n)"
    and k: "kalloc s n = slab_alloc s (slab_class_for n)"
    using slab_class_for_fits [of n] by (auto simp: kalloc_def)
  from slab_alloc_ok [OF ok c(1)] obtain r s' where
    "slab_alloc s (slab_class_for n) = Some (r, s')" "kmem_ok s'"
    "case r of None \<Rightarrow> s' = s | Some a \<Rightarrow> (a, class_size (slab_class_for n)) \<notin> live s \<and>
       live s' = insert (a, class_size (slab_class_for n)) (live s)" by blast
  with c(2) k show ?thesis by (intro exI [of _ r] exI [of _ s']) (cases r; auto)
next
  case False
  have pok: "pages_ok s" and num: "0 < num_pages_in_map s"
    using ok by (simp_all add: kmem_ok_def pages_ok_def layout_ok_def)
  from kalloc_internal_cases [OF pok num refl, of n True] show ?thesis
  proof (elim disjE exE conjE)
    fix p s'
    let ?k = "DIV_ROUNDUP n PAGE_SIZE"
    assume a: "kalloc_internal s n 0 True = Some (Some (page_addr s p), s')" "0 < ?k"
      "p + ?k \<le> num_pages_in_map s" "free_run (page_bitmap s) p ?k" "grabbed s p ?k s'"
    note g = grabbed_kmem [OF ok a(5,4,3,2)]
    have "p < num_pages_in_map s" using a(2,3) by simp
    then have "(page_addr s p, ?k * PAGE_SIZE) \<notin> live s"
      using live_on_page(2) [OF ok, of "page_addr s p" "?k * PAGE_SIZE"] g(4)
        get_page_from_addr_in [OF kmem_ok_layout [OF ok], of p 0]
      by (auto simp: PAGE_SIZE_def blocks_on_def)
    with False a(1) g(1,2) DIV_ROUNDUP_covers [of n] show ?thesis by (auto simp: kalloc_def)
  qed (use False ok in \<open>auto simp: kalloc_def\<close>)
qed

section \<open>Freeing\<close>

lemma slab_unlink_page_eq:
  "slab_unlink_page page fl (n + of_nat (length fl)) =
    (filter (\<lambda>a. slab_page_base a \<noteq> page) fl,
     n + of_nat (length (filter (\<lambda>a. slab_page_base a \<noteq> page) fl)))"
proof (induction fl arbitrary: n)
  case (Cons a fl)
  show ?case
  proof (cases "slab_page_base a = page")
    case True
    have "n + of_nat (length (a # fl)) - 1 = n + of_nat (length fl)" by simp
    with True Cons.IH [of n] show ?thesis
      by (simp only: slab_unlink_page.simps filter.simps if_True if_False simp_thms)
  next
    case False
    have "n + of_nat (length (a # fl)) = (n + 1) + of_nat (length fl)" by simp
    with False Cons.IH [of "n + 1"] show ?thesis by (simp add: add.assoc)
  qed
qed simp

lemma relist_ok_put:
  assumes ok: "kmem_ok s" and c: "c < SLAB_CLASSES"
    and p: "p < num_pages_in_map s" "i < per_page c" "k \<le> per_page c" "entry_map s ! p = slab_entry c k"
    and i: "i \<notin> free_in s (slab_free_list s ! c) c p"
  shows "0 < k" "relist_ok s p (slab_entry c (k - 1)) c (obj_addr s p c i # slab_free_list s ! c)"
    "free_in s (obj_addr s p c i # slab_free_list s ! c) c p = insert i (free_in s (slab_free_list s ! c) c p)"
proof -
  let ?fl = "slab_free_list s ! c" and ?a = "obj_addr s p c i"
  note lay = kmem_ok_layout [OF ok] and sp = kmem_ok_slab_page [OF ok p(1) c p(4,3)]
  have "list_ok s c" using ok c by (simp add: kmem_ok_def)
  moreover have a: "?a \<notin> set ?fl" using i p(2) by (simp add: free_in_def)
  ultimately have dist: "distinct (?a # ?fl)" by (simp add: list_ok_def)
  show fin: "free_in s (?a # ?fl) c p = insert i (free_in s ?fl c p)"
    using obj_addr_inj [OF lay p(1,1) c _ p(2)] p(2) by (auto simp: free_in_def)
  have "insert i (free_in s ?fl c p) \<subseteq> {..<per_page c}" using p(2) by (auto simp: free_in_def)
  then have "card (insert i (free_in s ?fl c p)) \<le> per_page c" by (metis card_lessThan card_mono finite_lessThan)
  with sp(1) i show k: "0 < k" by simp
  show "relist_ok s p (slab_entry c (k - 1)) c (?a # ?fl)"
    unfolding relist_ok_def
  proof (intro conjI allI impI ballI)
    show "obj_addr s q c j \<in> set (?a # ?fl) \<longleftrightarrow> obj_addr s q c j \<in> set ?fl"
      if "q < num_pages_in_map s \<and> q \<noteq> p \<and> j < per_page c" for q j
      using obj_addr_inj [OF lay _ p(1) c _ p(2), of q j] that by simp
    show "\<exists>q i. q < num_pages_in_map s \<and> i < per_page c \<and> b = obj_addr s q c i"
      if "b \<in> set (?a # ?fl)" for b
      using kmem_ok_free_obj [OF ok c, of b] that p(1,2) by (metis set_ConsD)
    show "slab_entry c (k - 1) = 1 \<and> free_in s (?a # ?fl) c p = {} \<or>
        (\<exists>k' \<le> per_page c. slab_entry c (k - 1) = slab_entry c k' \<and> card (free_in s (?a # ?fl) c p) + k' = per_page c)"
      using sp(1) fin k i p(3) by (intro disjI2 exI [of _ "k - 1"]) simp
  qed (use c p(1,4) slab_entry_facts [OF c sp(2)] dist in simp_all)
qed

text \<open>Unhooking all objects of a page none of which is live.\<close>

lemma relist_ok_release:
  assumes ok: "kmem_ok s" and r: "relist_ok s p e c fl"
    and fl': "fl' = filter (\<lambda>a. slab_page_base a \<noteq> page_addr s p) fl"
  shows "relist_ok s p 1 c fl'"
proof -
  note lay = kmem_ok_layout [OF ok] and d = relist_okD [OF r]
  have base: "slab_page_base (obj_addr s q c j) = page_addr s p \<longleftrightarrow> q = p"
    if "q < num_pages_in_map s" "j < per_page c" for q j
    using obj_page(2) [OF lay that(1) d(1) that(2)] by (simp add: page_addr_def PAGE_SIZE_def)
  have "obj_addr s q c j \<in> set fl' \<longleftrightarrow> q \<noteq> p \<and> obj_addr s q c j \<in> set fl"
    if "q < num_pages_in_map s" "j < per_page c" for q j
    using base [OF that] by (auto simp: fl')
  then have "free_in s fl' c p = {}"
    and "\<forall>q j. q < num_pages_in_map s \<and> q \<noteq> p \<and> j < per_page c \<longrightarrow>
      (obj_addr s q c j \<in> set fl' \<longleftrightarrow> obj_addr s q c j \<in> set (slab_free_list s ! c))"
    using d(2,6) by (auto simp: free_in_def)
  moreover have "\<forall>a \<in> set fl'. \<exists>q i. q < num_pages_in_map s \<and> i < per_page c \<and> a = obj_addr s q c i"
    using d(7) by (simp add: fl')
  moreover have "extent (entry_map s ! p) = 1" using r by (simp add: relist_ok_def)
  ultimately show ?thesis
    using d(1-5) unfolding relist_ok_def by (simp add: fl')
qed

lemma slab_free_put:
  assumes ok: "kmem_ok s" and c: "c < SLAB_CLASSES"
    and p: "p < num_pages_in_map s" "i < per_page c" "k \<le> per_page c" "entry_map s ! p = slab_entry c k"
    and i: "i \<notin> free_in s (slab_free_list s ! c) c p"
  shows "slab_free s (obj_addr s p c i) p =
      (relist s p (slab_entry c (k - 1)) c (obj_addr s p c i # slab_free_list s ! c), None) \<or>
    k = 1 \<and> slab_free s (obj_addr s p c i) p =
      (relist s p 1 c (filter (\<lambda>a. slab_page_base a \<noteq> page_addr s p)
         (obj_addr s p c i # slab_free_list s ! c)), Some (page_addr s p))"
proof -
  let ?a = "obj_addr s p c i" and ?e = "slab_entry c k"
  note sp = kmem_ok_slab_page [OF ok p(1) c p(4,3)] and k = relist_ok_put(1) [OF ok c p i]
  note f = slab_entry_facts [OF c sp(2)]
  have "?e = slab_entry c (k - 1) + 1" using slab_entry_facts(6) [OF c, of "k - 1"] k sp(2) by simp
  then have e1: "?e - 1 = slab_entry c (k - 1)" by simp
  have use1: "SLAB_INUSE (slab_entry c (k - 1)) = k - 1"
    using slab_entry_facts(3) [OF c, of "k - 1"] sp(2) by simp
  have base: "slab_page_base ?a = page_addr s p" by (rule obj_page(2) [OF kmem_ok_layout [OF ok] p(1) c p(2)])
  have mod0: "(?a - page_addr s p) mod class_size c = 0" by (simp add: obj_addr_def)
  have "slab_free_count s ! c = of_nat (length (slab_free_list s ! c))"
    using ok c by (simp add: kmem_ok_def list_ok_def)
  then have cnt: "slab_free_count s ! c + 1 = 0 + of_nat (length (?a # slab_free_list s ! c))" by simp
  have unl: "slab_unlink_page (page_addr s p) (?a # slab_free_list s ! c) (slab_free_count s ! c + 1) =
      (filter (\<lambda>a. slab_page_base a \<noteq> page_addr s p) (?a # slab_free_list s ! c),
       of_nat (length (filter (\<lambda>a. slab_page_base a \<noteq> page_addr s p) (?a # slab_free_list s ! c))))"
    unfolding cnt slab_unlink_page_eq by simp
  show ?thesis
    unfolding slab_free_def p(4) f(2) base Let_def e1 use1 unl prod.case
    using f(1,3) k mod0 cnt by (auto simp: relist_def add.commute)
qed

text \<open>The pointer of a live block is not null, and its page is in the map.\<close>

lemma live_ptr:
  assumes "kmem_ok s" and "(a, m) \<in> live s"
  shows "a \<noteq> 0" "get_page_from_addr s a < num_pages_in_map s"
proof -
  show p: "get_page_from_addr s a < num_pages_in_map s" by (rule live_on_page(1) [OF assms])
  have "page_addr s (get_page_from_addr s a) \<le> a"
    by (rule blocks_on_page(2) [OF assms(1) p live_on_page(2) [OF assms]])
  moreover have "0 < page_addr s (get_page_from_addr s a)"
    using kmem_ok_layout [OF assms(1)] by (simp add: layout_ok_def page_addr_def)
  ultimately show "a \<noteq> 0" by linarith
qed

lemma kfree_page_block:
  assumes ok: "kmem_ok s" and p: "p < num_pages_in_map s"
    and e: "entry_map s ! p \<noteq> 0" "entry_map s ! p AND SLAB_TAG = 0"
  shows "\<exists>s'. kfree s (page_addr s p) = Some s' \<and> kmem_ok s' \<and>
    live s' = live s - {(page_addr s p, unat (entry_map s ! p) * PAGE_SIZE)}"
proof -
  have pok: "pages_ok s" and lay: "layout_ok s" using ok by (simp_all add: kmem_ok_def kmem_ok_layout [OF ok])
  have pg: "get_page_from_addr s (page_addr s p) = p"
    using get_page_from_addr_in [OF lay p, of 0] by (simp add: PAGE_SIZE_def)
  have "page_addr s p \<noteq> 0" using lay by (auto simp: layout_ok_def page_addr_def)
  then have "kfree s (page_addr s p) = kfree_pages s (page_addr s p)"
    using pg p e(2) kmem_ok_lengths(3) [OF ok] by (subst kfree.simps) simp
  moreover obtain s' where "kfree_pages s (page_addr s p) = Some s'"
    "dropped s p (extent (entry_map s ! p)) s'"
    using kfree_pages_spec [OF pok p _ e, of 0] by (auto simp: PAGE_SIZE_def)
  ultimately show ?thesis using dropped_kmem [OF ok p e] by auto
qed

lemma kfree_object:
  assumes ok: "kmem_ok s" and c: "c < SLAB_CLASSES"
    and p: "p < num_pages_in_map s" "i < per_page c" "k \<le> per_page c" "entry_map s ! p = slab_entry c k"
    and i: "i \<notin> free_in s (slab_free_list s ! c) c p"
  shows "\<exists>s'. kfree s (obj_addr s p c i) = Some s' \<and> kmem_ok s' \<and>
    live s' = live s - {(obj_addr s p c i, class_size c)}"
proof -
  let ?a = "obj_addr s p c i" and ?fl = "slab_free_list s ! c"
  note lay = kmem_ok_layout [OF ok] and n = kmem_ok_lengths [OF ok]
  note sp = kmem_ok_slab_page [OF ok p(1) c p(4,3)] and put = relist_ok_put [OF ok c p i]
  note pg = obj_page(1) [OF lay p(1) c p(2)]
  let ?objs = "\<lambda>X. (\<lambda>i. (obj_addr s p c i, class_size c)) ` ({..<per_page c} - X)"
  have old: "blocks_on s p = ?objs (free_in s ?fl c p)" by (rule blocks_on_slab [OF c sp(2) p(4)])
  have rest: "?objs (insert i (free_in s ?fl c p)) = blocks_on s p - {(?a, class_size c)}"
    unfolding old using obj_addr_inj [OF lay p(1,1) c _ p(2)] by auto
  have mem: "(?a, class_size c) \<in> blocks_on s p" unfolding old using i p(2) by auto
  have "?a \<noteq> 0" using lay by (auto simp: layout_ok_def page_addr_def obj_addr_def)
  then have kf: "kfree s ?a = (case slab_free s ?a p of (s', None) \<Rightarrow> Some s' | (s', Some page) \<Rightarrow> kfree s' page)"
    using pg p(1,4) n(3) slab_entry_facts(1) [OF c sp(2)] by (subst kfree.simps) simp
  from slab_free_put [OF ok c p i] show ?thesis
  proof (elim disjE conjE)
    let ?s = "relist s p (slab_entry c (k - 1)) c (?a # ?fl)"
    assume "slab_free s ?a p = (?s, None)"
    moreover have "blocks_on ?s p = ?objs (insert i (free_in s ?fl c p))"
      using blocks_on_slab [OF c, of "k - 1" ?s p] sp(2) p(1) n c put(3) by simp
    then have "live ?s = live s - {(?a, class_size c)}"
      using relist_live [OF ok put(2)] rest mem blocks_on_live [OF p(1)] by auto
    ultimately show ?thesis using kf relist_kmem_ok [OF ok put(2)] by simp
  next
    let ?fl' = "filter (\<lambda>a. slab_page_base a \<noteq> page_addr s p) (?a # ?fl)"
    let ?s = "relist s p 1 c ?fl'"
    assume k1: "k = 1" and sf: "slab_free s ?a p = (?s, Some (page_addr s p))"
    note r = relist_ok_release [OF ok put(2) refl]
    have e: "entry_map ?s ! p = 1" using p(1) n(3) by simp
    from kfree_page_block [OF relist_kmem_ok [OF ok r], of p] e p(1) obtain s' where
      s': "kfree ?s (page_addr s p) = Some s'" "kmem_ok s'" "live s' = live ?s - {(page_addr s p, PAGE_SIZE)}"
      by auto
    have "blocks_on ?s p = {(page_addr s p, PAGE_SIZE)}" using e by (simp add: blocks_on_page_block)
    with s'(3) relist_live [OF ok r] have live': "live s' = live s - blocks_on s p - {(page_addr s p, PAGE_SIZE)}"
      by auto
    have "insert i (free_in s ?fl c p) = {..<per_page c}"
      using sp(1) k1 i p(2) by (intro card_subset_eq) (auto simp: free_in_def)
    with rest mem have "blocks_on s p = {(?a, class_size c)}" by auto
    moreover have "(page_addr s p, PAGE_SIZE) \<in> live s \<Longrightarrow> (page_addr s p, PAGE_SIZE) \<in> blocks_on s p"
      using live_on_page(2) [OF ok, of "page_addr s p" PAGE_SIZE] get_page_from_addr_in [OF lay p(1), of 0]
      by (simp add: PAGE_SIZE_def)
    ultimately have "live s' = live s - {(?a, class_size c)}" using live' by auto
    with kf sf s'(1,2) show ?thesis by simp
  qed
qed

lemma kfree_ok:
  assumes ok: "kmem_ok s" and a: "(a, m) \<in> live s"
  shows "\<exists>s'. kfree s a = Some s' \<and> kmem_ok s' \<and> live s' = live s - {(a, m)}"
proof -
  let ?p = "get_page_from_addr s a"
  note p = live_on_page [OF ok a]
  show ?thesis
  proof (cases "entry_map s ! ?p AND SLAB_TAG \<noteq> 0")
    case True
    with ok p(1) obtain c k where c: "c < SLAB_CLASSES" "k \<le> per_page c" "k \<le> 128"
      "entry_map s ! ?p = slab_entry c k" by (rule kmem_ok_tagged)
    with p(2) obtain i where "a = obj_addr s ?p c i" "m = class_size c" "i < per_page c"
      "i \<notin> free_in s (slab_free_list s ! c) c ?p" by (auto simp: blocks_on_slab)
    with kfree_object [OF ok c(1) p(1) _ c(2,4), of i] show ?thesis by metis
  next
    case False
    with p(2) have e: "entry_map s ! ?p \<noteq> 0" "entry_map s ! ?p AND SLAB_TAG = 0"
      "a = page_addr s ?p" "m = unat (entry_map s ! ?p) * PAGE_SIZE"
      by (auto simp: blocks_on_page_block split: if_splits)
    with kfree_page_block [OF ok p(1) e(1,2)] show ?thesis by metis
  qed
qed

lemma kalloc_usable_size_ok:
  assumes ok: "kmem_ok s" and a: "(a, m) \<in> live s"
  shows "kalloc_usable_size s a = Some m"
proof -
  let ?p = "get_page_from_addr s a"
  note p = live_on_page [OF ok a] and nz = live_ptr(1) [OF ok a] and n = kmem_ok_lengths(3) [OF ok]
  show ?thesis
  proof (cases "entry_map s ! ?p AND SLAB_TAG \<noteq> 0")
    case True
    with ok p(1) obtain c k where c: "c < SLAB_CLASSES" "k \<le> 128" "entry_map s ! ?p = slab_entry c k"
      by (rule kmem_ok_tagged)
    with p(2) have "m = class_size c" by (auto simp: blocks_on_slab)
    with slab_entry_facts [OF c(1,2)] c(3) p(1) n nz show ?thesis by (simp add: kalloc_usable_size_def)
  next
    case False
    with p n nz show ?thesis
      by (auto simp: kalloc_usable_size_def blocks_on_page_block split: if_splits)
  qed
qed

text \<open>The map the allocator works on never changes.\<close>

definition same_map :: "kmem \<Rightarrow> kmem \<Rightarrow> bool" where
  "same_map s s' \<longleftrightarrow>
    num_pages_in_map s' = num_pages_in_map s \<and> lowest_address s' = lowest_address s \<and>
    higher_half_offset s' = higher_half_offset s \<and> total_memory_bytes s' = total_memory_bytes s \<and>
    max_pages_available s' = max_pages_available s"

lemma same_map_refl [simp]: "same_map s s"
  by (simp add: same_map_def)

lemma same_map_trans: "same_map s s1 \<Longrightarrow> same_map s1 s2 \<Longrightarrow> same_map s s2"
  by (simp add: same_map_def)

lemma same_map_page_addr: "same_map s s' \<Longrightarrow> page_addr s' = page_addr s"
  by (simp add: same_map_def page_addr_def fun_eq_iff)

lemma slab_free_map: "slab_free s a i = (s', r) \<Longrightarrow> same_map s s'"
  by (auto simp: slab_free_def same_map_def Let_def split: if_splits prod.splits)

lemma kfree_pages_map: "kfree_pages s a = Some s' \<Longrightarrow> same_map s s'"
  by (auto simp: kfree_pages_def same_map_def Let_def split: if_splits option.splits)

lemma kfree_map: "kfree s a = Some s' \<Longrightarrow> same_map s s'"
proof (induction s a rule: kfree.induct)
  case (1 s ptr)
  let ?i = "get_page_from_addr s ptr"
  obtain s1 r where f: "slab_free s ptr ?i = (s1, r)" by (metis surj_pair)
  show ?case
  proof (cases "ptr \<noteq> 0 \<and> ?i < num_pages_in_map s \<and> ?i < length (entry_map s) \<and>
      entry_map s ! ?i AND SLAB_TAG \<noteq> 0")
    case True
    then have "case r of None \<Rightarrow> s' = s1 | Some page \<Rightarrow> kfree s1 page = Some s'"
      using "1.prems" f by (subst (asm) kfree.simps) (auto split: option.splits)
    moreover have "same_map s1 s'" if "r = Some page" "kfree s1 page = Some s'" for page
      using "1.IH" [OF _ refl _ _ f [symmetric] that(1)] True that(2) by auto
    ultimately show ?thesis
      using slab_free_map [OF f] same_map_trans by (cases r) auto
  next
    case False
    with "1.prems" have "s' = s \<or> kfree_pages s ptr = Some s'"
      by (subst (asm) kfree.simps) (auto simp: Let_def split: if_splits)
    then show ?thesis using kfree_pages_map by auto
  qed
qed

lemma kalloc_internal_map: "kalloc_internal s n p g = Some (r, s') \<Longrightarrow> same_map s s'"
  by (auto simp: kalloc_internal_def same_map_def Let_def split: if_splits option.splits)

lemma slab_take_map: "slab_take s c = Some (r, s') \<Longrightarrow> same_map s s'"
  by (auto simp: slab_take_def same_map_def Let_def split: if_splits list.splits)

lemma same_map_update:
  "same_map (s1\<lparr>entry_map := e, slab_free_list := f, slab_free_count := n\<rparr>) s' = same_map s1 s'"
  by (simp add: same_map_def)

lemma slab_alloc_map: "slab_alloc s c = Some (r, s') \<Longrightarrow> same_map s s'"
  by (auto simp: slab_alloc_def Let_def same_map_update split: if_splits option.splits prod.splits
      dest!: slab_take_map kalloc_internal_map intro: same_map_trans)

lemma kalloc_map: "kalloc s n = Some (r, s') \<Longrightarrow> same_map s s'"
  by (auto simp: kalloc_def split: if_splits dest: slab_alloc_map kalloc_internal_map)

section \<open>The allocator contract\<close>

text \<open>
  What a client of the allocator relies on: blocks in use never overlap, an allocation adds a
  block that was not in use, freeing a block in use removes exactly that block.
\<close>

locale allocator =
  fixes inv :: "'s \<Rightarrow> bool" and blocks :: "'s \<Rightarrow> (nat \<times> nat) set"
    and alloc :: "'s \<Rightarrow> nat \<Rightarrow> (nat option \<times> 's) option" and free :: "'s \<Rightarrow> nat \<Rightarrow> 's option"
  assumes blocks_disjoint: "inv s \<Longrightarrow> (a, m) \<in> blocks s \<Longrightarrow> (b, n) \<in> blocks s \<Longrightarrow> (a, m) \<noteq> (b, n) \<Longrightarrow>
      a + m \<le> b \<or> b + n \<le> a"
    and blocks_nonempty: "inv s \<Longrightarrow> (a, m) \<in> blocks s \<Longrightarrow> 0 < m"
    and alloc_law: "inv s \<Longrightarrow> \<exists>r s'. alloc s n = Some (r, s') \<and> inv s' \<and>
      (case r of None \<Rightarrow> s' = s
       | Some a \<Rightarrow> \<exists>m. n \<le> m \<and> (a, m) \<notin> blocks s \<and> blocks s' = insert (a, m) (blocks s))"
    and free_law: "inv s \<Longrightarrow> (a, m) \<in> blocks s \<Longrightarrow>
      \<exists>s'. free s a = Some s' \<and> inv s' \<and> blocks s' = blocks s - {(a, m)}"

text \<open>
  A client that keeps the pointers it got and frees only those: \<open>Free i\<close> frees the \<open>i\<close>-th one it
  holds. The result is \<open>None\<close> when a call faults.
\<close>

datatype heap_call = Alloc nat | Free nat

fun heap_client ::
  "('s \<Rightarrow> nat \<Rightarrow> (nat option \<times> 's) option) \<Rightarrow> ('s \<Rightarrow> nat \<Rightarrow> 's option) \<Rightarrow>
   heap_call list \<Rightarrow> 's \<Rightarrow> nat list \<Rightarrow> ('s \<times> nat list) option" where
  "heap_client al fr [] s held = Some (s, held)"
| "heap_client al fr (Alloc n # cs) s held =
    (case al s n of
       None \<Rightarrow> None
     | Some (None, s') \<Rightarrow> heap_client al fr cs s' held
     | Some (Some a, s') \<Rightarrow> heap_client al fr cs s' (a # held))"
| "heap_client al fr (Free i # cs) s held =
    (if i < length held then
       (case fr s (held ! i) of
          None \<Rightarrow> None
        | Some s' \<Rightarrow> heap_client al fr cs s' (take i held @ drop (Suc i) held))
     else heap_client al fr cs s held)"

context allocator
begin

lemma same_start: "inv s \<Longrightarrow> (a, m) \<in> blocks s \<Longrightarrow> (a, n) \<in> blocks s \<Longrightarrow> m = n"
  using blocks_disjoint [of s a m a n] blocks_nonempty [of s a m] blocks_nonempty [of s a n] by auto

text \<open>The client's view: what it holds is in use, and it is not the only one who holds blocks.\<close>

lemma client_alloc:
  assumes s: "inv s" "distinct held" "set held \<subseteq> fst ` blocks s"
    and a: "inv s1" "(a, m) \<notin> blocks s" "blocks s1 = insert (a, m) (blocks s)"
  shows "distinct (a # held)" "set (a # held) \<subseteq> fst ` blocks s1"
    "{b \<in> blocks s1. fst b \<notin> set (a # held)} = {b \<in> blocks s. fst b \<notin> set held}"
proof -
  have new: "a \<notin> fst ` blocks s"
  proof
    assume "a \<in> fst ` blocks s"
    then obtain k where k: "(a, k) \<in> blocks s" by force
    with a(3) same_start [OF a(1), of a k m] have "k = m" by simp
    with k a(2) show False by simp
  qed
  with s a(3) show "distinct (a # held)" "set (a # held) \<subseteq> fst ` blocks s1" by auto
  show "{b \<in> blocks s1. fst b \<notin> set (a # held)} = {b \<in> blocks s. fst b \<notin> set held}"
    unfolding a(3) using new by auto
qed

lemma client_free:
  assumes s: "inv s" "distinct held" "set held \<subseteq> fst ` blocks s" and held: "held = xs @ a # ys"
  shows "\<exists>s'. free s a = Some s' \<and> inv s' \<and> distinct (xs @ ys) \<and> set (xs @ ys) \<subseteq> fst ` blocks s' \<and>
    {b \<in> blocks s'. fst b \<notin> set (xs @ ys)} = {b \<in> blocks s. fst b \<notin> set held}"
proof -
  from s(3) held obtain m where m: "(a, m) \<in> blocks s" by force
  from free_law [OF s(1) m] obtain s' where s': "free s a = Some s'" "inv s'"
    "blocks s' = blocks s - {(a, m)}" by blast
  have only: "b = (a, m)" if "b \<in> blocks s" "fst b = a" for b
    using same_start [OF s(1), of a "snd b" m] m that by (cases b) auto
  have a: "a \<notin> set (xs @ ys)" "distinct (xs @ ys)" using s(2) held by auto
  have "set (xs @ ys) \<subseteq> fst ` blocks s'"
  proof
    fix x assume x: "x \<in> set (xs @ ys)"
    with s(3) held obtain b where "b \<in> blocks s" "fst b = x" by force
    with x a(1) s'(3) show "x \<in> fst ` blocks s'" by force
  qed
  moreover have "{b \<in> blocks s'. fst b \<notin> set (xs @ ys)} = {b \<in> blocks s. fst b \<notin> set held}"
  proof (rule set_eqI)
    fix b
    show "b \<in> {b \<in> blocks s'. fst b \<notin> set (xs @ ys)} \<longleftrightarrow> b \<in> {b \<in> blocks s. fst b \<notin> set held}"
      unfolding s'(3) held using only [of b] by (cases "fst b = a") auto
  qed
  ultimately show ?thesis using s'(1,2) a(2) by blast
qed

lemma client_ok:
  "inv s \<Longrightarrow> distinct held \<Longrightarrow> set held \<subseteq> fst ` blocks s \<Longrightarrow>
   \<exists>s' held'. heap_client alloc free cs s held = Some (s', held') \<and> inv s' \<and> distinct held' \<and>
     set held' \<subseteq> fst ` blocks s' \<and>
     {b \<in> blocks s'. fst b \<notin> set held'} = {b \<in> blocks s. fst b \<notin> set held}"
proof (induction cs arbitrary: s held)
  case Nil
  then show ?case by simp
next
  case (Cons c cs)
  show ?case
  proof (cases c)
    case (Alloc n)
    from alloc_law [OF Cons.prems(1), of n] obtain r s1 where r: "alloc s n = Some (r, s1)" "inv s1"
      "case r of None \<Rightarrow> s1 = s
       | Some a \<Rightarrow> \<exists>m. n \<le> m \<and> (a, m) \<notin> blocks s \<and> blocks s1 = insert (a, m) (blocks s)" by blast
    show ?thesis
    proof (cases r)
      case None
      with r Cons Alloc show ?thesis by simp
    next
      case (Some a)
      with r(3) obtain m where m: "(a, m) \<notin> blocks s" "blocks s1 = insert (a, m) (blocks s)" by auto
      note cl = client_alloc [OF Cons.prems r(2) m]
      from Cons.IH [OF r(2) cl(1,2)] cl(3) r(1) Some Alloc show ?thesis by simp
    qed
  next
    case (Free i)
    show ?thesis
    proof (cases "i < length held")
      case False
      with Cons Free show ?thesis by simp
    next
      case True
      then have "held = take i held @ held ! i # drop (Suc i) held" by (rule id_take_nth_drop)
      from client_free [OF Cons.prems this] obtain s1 where
        s1: "free s (held ! i) = Some s1" "inv s1" "distinct (take i held @ drop (Suc i) held)"
          "set (take i held @ drop (Suc i) held) \<subseteq> fst ` blocks s1"
          "{b \<in> blocks s1. fst b \<notin> set (take i held @ drop (Suc i) held)} = {b \<in> blocks s. fst b \<notin> set held}"
        by blast
      from Cons.IH [OF s1(2-4)] True Free s1(1) show ?thesis unfolding s1(5) by simp
    qed
  qed
qed

end

interpretation kmem_heap: allocator kmem_ok live kalloc kfree
proof
  show "0 < m" if "kmem_ok s" "(a, m) \<in> live s" for s a m
  proof -
    let ?p = "get_page_from_addr s a"
    note p = live_on_page [OF that]
    show ?thesis
    proof (cases "entry_map s ! ?p AND SLAB_TAG \<noteq> 0")
      case True
      with that(1) p(1) obtain c k where c: "c < SLAB_CLASSES" "k \<le> 128" "entry_map s ! ?p = slab_entry c k"
        by (rule kmem_ok_tagged)
      with p(2) per_page_facts(4) [OF c(1)] show ?thesis by (auto simp: blocks_on_slab)
    next
      case False
      with p(2) show ?thesis
        by (auto simp: blocks_on_page_block PAGE_SIZE_def unat_gt_0 split: if_splits)
    qed
  qed
qed (fact live_disjoint kalloc_ok kfree_ok)+

lemma slab_boot_simps [simp]:
  "num_pages_in_map (slab_boot s) = num_pages_in_map s" "page_bitmap (slab_boot s) = page_bitmap s"
  "entry_map (slab_boot s) = entry_map s" "lowest_address (slab_boot s) = lowest_address s"
  "higher_half_offset (slab_boot s) = higher_half_offset s"
  "allocation_cursor (slab_boot s) = allocation_cursor s"
  "max_pages_available (slab_boot s) = max_pages_available s"
  "total_memory_bytes (slab_boot s) = total_memory_bytes s"
  "free_pages (slab_boot s) = free_pages s"
  "num_pages_available (slab_boot s) = num_pages_available s"
  "slab_free_list (slab_boot s) = replicate SLAB_CLASSES []"
  "slab_free_count (slab_boot s) = replicate SLAB_CLASSES 0"
  by (simp_all add: slab_boot_def pmm.defs free_pages_def)

lemma slab_boot_ok:
  assumes "pages_ok s" and "\<forall>p < num_pages_in_map s. entry_map s ! p = 0"
  shows "kmem_ok (slab_boot s)" "live (slab_boot s) = {}"
proof -
  have "pages_ok (slab_boot s) = pages_ok s"
    by (simp add: pages_ok_def layout_ok_def block_ok_def free_pages_def)
  with assms show "kmem_ok (slab_boot s)"
    by (simp add: kmem_ok_def list_ok_def page_ok_def)
  show "live (slab_boot s) = {}" using assms(2) by (simp add: live_def blocks_on_def)
qed

text \<open>
  \<^verbatim>\<open>kfree\<close> of a pointer outside the mapped range: the subtraction wraps around and the page
  number is beyond the map.
\<close>

lemma foreign_page:
  assumes lay: "layout_ok s" and a: "a < 2 ^ 64"
    and out: "a < page_addr s 0 \<or> page_addr s (num_pages_in_map s) \<le> a"
  shows "num_pages_in_map s \<le> get_page_from_addr s a"
proof -
  let ?b = "lowest_address s + higher_half_offset s" and ?n = "num_pages_in_map s"
  let ?d = "int a - int (lowest_address s) - int (higher_half_offset s)"
  have "int (?b + ?n * PAGE_SIZE) \<le> int (2 ^ 64)"
    using lay unfolding layout_ok_def by (simp only: of_nat_le_iff)
  then have b: "int (lowest_address s) + int (higher_half_offset s) + int (?n * PAGE_SIZE) \<le> 2 ^ 64"
    by (simp only: of_nat_add of_nat_power of_nat_numeral)
  have "int a < int (2 ^ 64)" using a by (simp only: of_nat_less_iff)
  then have a': "int a < 2 ^ 64" by (simp only: of_nat_power of_nat_numeral)
  have "?n * PAGE_SIZE \<le> nat (?d mod 2 ^ 64)"
  proof (cases "a < ?b")
    case True
    have "?d mod 2 ^ 64 = (?d + 2 ^ 64) mod 2 ^ 64" by (rule mod_add_self2 [symmetric])
    also have "\<dots> = ?d + 2 ^ 64"
      using b True by (intro mod_pos_pos_trivial) linarith+
    finally show ?thesis using b by linarith
  next
    case False
    then have "?d mod 2 ^ 64 = ?d" using a' by (intro mod_pos_pos_trivial) linarith+
    moreover have "?b + ?n * PAGE_SIZE \<le> a" using False out by (simp add: page_addr_def)
    ultimately show ?thesis by linarith
  qed
  then show ?thesis
    unfolding get_page_from_addr_def by (simp add: PAGE_SIZE_def less_eq_div_iff_mult_less_eq)
qed

section \<open>Properties\<close>

lemma kmem_init_offset: "kmem_init es (Some off) = Some s \<Longrightarrow> higher_half_offset s = off"
  by (auto simp: kmem_init_def Let_def split: prod.splits option.splits)

lemma small_heap:
  "\<exists>s. kmem_init small_map (Some 0xFFFF800000000000) = Some s \<and> kmem_ok (slab_boot s) \<and>
     live (slab_boot s) = {} \<and> num_pages_in_map s = 20 \<and> max_pages_available s = 18 \<and>
     lowest_address s = 4096 \<and> free_pages s \<noteq> {}"
  using small_boot slab_boot_ok by metis

text \<open>
  C5. The kernel heap is sound for every client. Whatever sequence of allocations and of frees
  of pointers it holds a client makes, no call faults, the invariant of pages, entry map and
  slab lists is kept, the pointers the client holds are distinct and belong to pairwise disjoint
  blocks, and the blocks of everybody else are exactly what they were: no block is handed out
  twice, and none is lost.
\<close>

theorem heap_isolation:
  assumes "kmem_ok s"
  shows "\<exists>s' held. heap_client kalloc kfree cs s [] = Some (s', held) \<and> kmem_ok s' \<and>
    distinct held \<and> set held \<subseteq> fst ` live s' \<and>
    (\<forall>a m b n. (a, m) \<in> live s' \<and> (b, n) \<in> live s' \<and> (a, m) \<noteq> (b, n) \<longrightarrow> a + m \<le> b \<or> b + n \<le> a) \<and>
    {b \<in> live s'. fst b \<notin> set held} = live s"
  using kmem_heap.client_ok [OF assms, of "[]" cs] kmem_heap.blocks_disjoint by auto

theorem heap_isolation_witness:
  "\<exists>s s' held. kmem_init small_map (Some 0xFFFF800000000000) = Some s \<and>
     heap_client kalloc kfree [Alloc 100, Alloc 5000, Free 1] (slab_boot s) [] = Some (s', held) \<and>
     kmem_ok s' \<and> distinct held \<and> {b \<in> live s'. fst b \<notin> set held} = {}"
proof -
  obtain s where s: "kmem_init small_map (Some 0xFFFF800000000000) = Some s"
    "kmem_ok (slab_boot s)" "live (slab_boot s) = {}" using small_heap by blast
  from heap_isolation [OF s(2), of "[Alloc 100, Alloc 5000, Free 1]"] obtain s' held where
    "heap_client kalloc kfree [Alloc 100, Alloc 5000, Free 1] (slab_boot s) [] = Some (s', held)"
    "kmem_ok s'" "distinct held" "{b \<in> live s'. fst b \<notin> set held} = {}"
    unfolding s(3) by blast
  with s(1) show ?thesis by blast
qed

text \<open>
  C23. A successful \<^verbatim>\<open>kalloc\<close> returns a block of at least the requested size that was not in use,
  \<^verbatim>\<open>kalloc_usable_size\<close> reports the size of that block, and \<^verbatim>\<open>kfree\<close> of the pointer restores the set of
  blocks in use; a failing \<^verbatim>\<open>kalloc\<close> changes nothing.
\<close>

theorem kalloc_kfree_roundtrip:
  assumes "kmem_ok s"
  shows "case kalloc s n of
      None \<Rightarrow> False
    | Some (None, s') \<Rightarrow> s' = s
    | Some (Some a, s') \<Rightarrow>
        (\<exists>m. n \<le> m \<and> (a, m) \<notin> live s \<and> live s' = insert (a, m) (live s) \<and>
           kalloc_usable_size s' a = Some m) \<and>
        (\<exists>s''. kfree s' a = Some s'' \<and> kmem_ok s'' \<and> live s'' = live s)"
proof -
  from kalloc_ok [OF assms, of n] obtain r s' where r: "kalloc s n = Some (r, s')" "kmem_ok s'"
    "case r of None \<Rightarrow> s' = s
     | Some a \<Rightarrow> \<exists>m. n \<le> m \<and> (a, m) \<notin> live s \<and> live s' = insert (a, m) (live s)" by blast
  show ?thesis
  proof (cases r)
    case None
    with r show ?thesis by simp
  next
    case (Some a)
    with r(3) obtain m where m: "n \<le> m" "(a, m) \<notin> live s" "live s' = insert (a, m) (live s)" by auto
    then have "(a, m) \<in> live s'" by simp
    from kfree_ok [OF r(2) this] kalloc_usable_size_ok [OF r(2) this] m r(1) Some show ?thesis
      by auto
  qed
qed

theorem kalloc_kfree_roundtrip_witness:
  "\<exists>s. kmem_init small_map (Some 0xFFFF800000000000) = Some s \<and>
     (case kalloc (slab_boot s) 100 of
        None \<Rightarrow> False
      | Some (None, s') \<Rightarrow> s' = slab_boot s
      | Some (Some a, s') \<Rightarrow>
          (\<exists>m. 100 \<le> m \<and> (a, m) \<notin> live (slab_boot s) \<and>
             live s' = insert (a, m) (live (slab_boot s)) \<and> kalloc_usable_size s' a = Some m) \<and>
          (\<exists>s''. kfree s' a = Some s'' \<and> kmem_ok s'' \<and> live s'' = live (slab_boot s)))"
proof -
  obtain s where "kmem_init small_map (Some 0xFFFF800000000000) = Some s" "kmem_ok (slab_boot s)"
    using small_heap by blast
  with kalloc_kfree_roundtrip [of "slab_boot s" 100] show ?thesis by blast
qed



end
