(* ===== verification/Frames.thy ===== *)
theory Frames
  imports Slab
begin

text \<open>
  Physical frames of user memory (\<^verbatim>\<open>src/src/mem.c\<close>): allocation of zeroed frames, the
  reference counts that copy-on-write sharing is tracked with, and the release of a frame when
  a mapping goes away.

  The count of a frame is a byte. 0 is a frame with one owner that was never shared, 255 one
  that is saturated or already freed, and any other value the number of owners. The
  compare-and-swap loops of the code are single steps here, since nothing runs between the
  load and the swap. Contents of frames are read as 512 words, by the physical address of the
  frame.
\<close>

unbundle bit_operations_syntax

record vmm =
  v_heap :: kmem
  v_refs :: "u8 list option"
  v_max :: nat
  v_tab :: "nat \<Rightarrow> nat \<Rightarrow> u64"
  v_kpml4 :: nat

definition phys_to_virt :: "kmem \<Rightarrow> nat \<Rightarrow> nat" where
  "phys_to_virt h phys = (phys + higher_half_offset h) mod 2 ^ 64"

definition virt_to_phys :: "kmem \<Rightarrow> nat \<Rightarrow> nat" where
  "virt_to_phys h virt = nat ((int virt - int (higher_half_offset h)) mod 2 ^ 64)"

section \<open>Operations\<close>

text \<open>
  \<^verbatim>\<open>vmm_alloc_frame\<close>, with 0 for failure as in the code. The outer \<open>None\<close> is an access outside a
  table.
\<close>

definition vmm_alloc_frame :: "vmm \<Rightarrow> (nat \<times> vmm) option" where
  "vmm_alloc_frame s =
    (case kalloc (v_heap s) PAGE_SIZE of
       None \<Rightarrow> None
     | Some (None, h) \<Rightarrow> Some (0, s\<lparr>v_heap := h\<rparr>)
     | Some (Some page, h) \<Rightarrow>
         let phys = virt_to_phys h page;
             s1 = s\<lparr>v_heap := h, v_tab := (v_tab s)(phys := (\<lambda>_. 0))\<rparr>;
             pfn = phys div PAGE_SIZE in
         case v_refs s of
           None \<Rightarrow> Some (phys, s1)
         | Some rc \<Rightarrow>
             if pfn < v_max s then
               if pfn < length rc then Some (phys, s1\<lparr>v_refs := Some (rc[pfn := 0])\<rparr>) else None
             else Some (phys, s1))"

definition vmm_free_frame :: "vmm \<Rightarrow> nat \<Rightarrow> vmm option" where
  "vmm_free_frame s phys =
    (if phys = 0 then Some s
     else map_option (\<lambda>h. s\<lparr>v_heap := h\<rparr>) (kfree (v_heap s) (phys_to_virt (v_heap s) phys)))"

text \<open>\<^verbatim>\<open>vmm_refcount_init\<close>: one byte for every page of usable memory.\<close>

definition vmm_refcount_init :: "vmm \<Rightarrow> vmm option" where
  "vmm_refcount_init s =
    (let pages = total_memory_bytes (v_heap s) div PAGE_SIZE in
     case kalloc (v_heap s) pages of
       None \<Rightarrow> None
     | Some (None, h) \<Rightarrow> Some (s\<lparr>v_heap := h, v_max := pages, v_refs := None\<rparr>)
     | Some (Some _, h) \<Rightarrow> Some (s\<lparr>v_heap := h, v_max := pages, v_refs := Some (replicate pages 0)\<rparr>))"

definition vmm_page_ref :: "vmm \<Rightarrow> nat \<Rightarrow> vmm option" where
  "vmm_page_ref s phys =
    (case v_refs s of
       None \<Rightarrow> Some s
     | Some rc \<Rightarrow>
         let pfn = phys div PAGE_SIZE in
         if pfn \<ge> v_max s then Some s
         else if pfn \<ge> length rc then None
         else if rc ! pfn \<ge> 255 then Some s
         else Some (s\<lparr>v_refs := Some (rc[pfn := rc ! pfn + 1])\<rparr>))"

definition vmm_page_unref :: "vmm \<Rightarrow> nat \<Rightarrow> vmm option" where
  "vmm_page_unref s phys =
    (case v_refs s of
       None \<Rightarrow> Some s
     | Some rc \<Rightarrow>
         let pfn = phys div PAGE_SIZE in
         if pfn \<ge> v_max s then Some s
         else if pfn \<ge> length rc then None
         else
           let old = rc ! pfn in
           if old \<ge> 255 then Some s
           else if old = 0 then Some s
           else if old = 1 then vmm_free_frame (s\<lparr>v_refs := Some (rc[pfn := 255])\<rparr>) phys
           else Some (s\<lparr>v_refs := Some (rc[pfn := old - 1])\<rparr>))"

text \<open>
  \<^verbatim>\<open>pmm_user_frame_kind\<close>: 1 for a live allocation of one page, -1 for a free page, 0 for
  anything else.
\<close>

definition pmm_user_frame_kind :: "kmem \<Rightarrow> nat \<Rightarrow> int option" where
  "pmm_user_frame_kind h phys =
    (if entry_map h = [] \<or> page_bitmap h = [] then Some 0
     else
       let idx = get_page_from_addr h (phys_to_virt h phys) in
       if idx \<ge> num_pages_in_map h then Some 0
       else if idx \<ge> length (entry_map h) then None
       else
         let e = entry_map h ! idx in
         if e = 1 then Some 1
         else if e = 0 then
           map_option (\<lambda>used. if \<not> used then - 1 else 0) (bitmap_test (page_bitmap h) idx)
         else Some 0)"

definition vmm_leaf_release :: "vmm \<Rightarrow> nat \<Rightarrow> vmm option" where
  "vmm_leaf_release s phys =
    (if phys = 0 then Some s
     else
       case v_refs s of
         None \<Rightarrow>
           (case pmm_user_frame_kind (v_heap s) phys of
              None \<Rightarrow> None
            | Some kind \<Rightarrow> if kind = 1 then vmm_free_frame s phys else Some s)
       | Some rc \<Rightarrow>
           let pfn = phys div PAGE_SIZE in
           if pfn \<ge> v_max s then
             (case pmm_user_frame_kind (v_heap s) phys of
                None \<Rightarrow> None
              | Some kind \<Rightarrow> if kind = 1 then vmm_free_frame s phys else Some s)
           else if pfn \<ge> length rc then None
           else
             let r = rc ! pfn in
             if r \<ge> 255 then Some s
             else
               case pmm_user_frame_kind (v_heap s) phys of
                 None \<Rightarrow> None
               | Some kind \<Rightarrow>
                   if kind < 0 then Some s
                   else if kind = 0 then Some s
                   else if r = 0 then vmm_free_frame (s\<lparr>v_refs := Some (rc[pfn := 255])\<rparr>) phys
                   else vmm_page_unref s phys)"

text \<open>\<^verbatim>\<open>vmm_cow_release_old\<close>; the flush of the TLBs has no effect on this state.\<close>

definition vmm_cow_release_old :: "vmm \<Rightarrow> nat \<Rightarrow> vmm option" where
  "vmm_cow_release_old s phys =
    (if phys = 0 then Some s
     else
       case v_refs s of
         None \<Rightarrow> vmm_leaf_release s phys
       | Some rc \<Rightarrow>
           let pfn = phys div PAGE_SIZE in
           if pfn < v_max s then
             if pfn \<ge> length rc then None
             else
               let r = rc ! pfn in
               if r \<ge> 255 then Some s
               else if r \<le> 1 then vmm_leaf_release s phys
               else Some (s\<lparr>v_refs := Some (rc[pfn := r - 1])\<rparr>)
           else vmm_leaf_release s phys)"

definition vmm_page_get_ref :: "vmm \<Rightarrow> nat \<Rightarrow> u8 option" where
  "vmm_page_get_ref s phys =
    (case v_refs s of
       None \<Rightarrow> Some 0
     | Some rc \<Rightarrow>
         let pfn = phys div PAGE_SIZE in
         if pfn \<ge> v_max s then Some 0
         else if pfn \<ge> length rc then None
         else Some (rc ! pfn))"

text \<open>
  How \<^verbatim>\<open>vmm_clone_table\<close> accounts for a second mapping of a frame: the first share of an
  untracked frame counts both mappings.
\<close>

definition vmm_share_leaf :: "vmm \<Rightarrow> nat \<Rightarrow> vmm option" where
  "vmm_share_leaf s phys =
    (case vmm_page_get_ref s phys of
       None \<Rightarrow> None
     | Some r \<Rightarrow>
         if r = 0 then
           (case vmm_page_ref s phys of None \<Rightarrow> None | Some s1 \<Rightarrow> vmm_page_ref s1 phys)
         else vmm_page_ref s phys)"

section \<open>Frames of the page map\<close>

definition frame_phys :: "kmem \<Rightarrow> nat \<Rightarrow> nat" where
  "frame_phys h p = lowest_address h + p * PAGE_SIZE"

definition frame_live :: "kmem \<Rightarrow> nat \<Rightarrow> bool" where
  "frame_live h p \<longleftrightarrow> (page_addr h p, PAGE_SIZE) \<in> live h"

lemma frame_virt:
  assumes "layout_ok h" and "p < num_pages_in_map h"
  shows "phys_to_virt h (frame_phys h p) = page_addr h p"
proof -
  have "phys_to_virt h (frame_phys h p) = get_addr_from_page h p"
    by (simp add: phys_to_virt_def frame_phys_def get_addr_from_page_def)
  then show ?thesis using get_addr_from_page_eq [OF assms] by simp
qed

lemma frame_of_page:
  assumes "layout_ok h" and "p < num_pages_in_map h"
  shows "virt_to_phys h (page_addr h p) = frame_phys h p"
proof -
  have "int (page_addr h p) - int (higher_half_offset h) = int (frame_phys h p)"
    by (simp add: page_addr_def frame_phys_def)
  moreover have "p * PAGE_SIZE < num_pages_in_map h * PAGE_SIZE" using assms(2) by (simp add: PAGE_SIZE_def)
  then have "frame_phys h p < 2 ^ 64"
    using assms(1) unfolding layout_ok_def frame_phys_def by linarith
  then have "int (frame_phys h p) < int (2 ^ 64)" by (simp only: of_nat_less_iff)
  then have "int (frame_phys h p) mod 2 ^ 64 = int (frame_phys h p)" by simp
  ultimately show ?thesis unfolding virt_to_phys_def by (simp only: nat_int)
qed

lemma frame_live_entry:
  assumes ok: "kmem_ok h" and p: "p < num_pages_in_map h"
  shows "frame_live h p \<longleftrightarrow> entry_map h ! p = 1"
proof -
  have "get_page_from_addr h (page_addr h p) = p"
    using get_page_from_addr_in [OF kmem_ok_layout [OF ok] p, of 0] by (simp add: PAGE_SIZE_def)
  with live_on_page(2) [OF ok] blocks_on_live [OF p]
  have on: "frame_live h p \<longleftrightarrow> (page_addr h p, PAGE_SIZE) \<in> blocks_on h p"
    unfolding frame_live_def by (metis subsetD)
  show ?thesis
  proof (cases "entry_map h ! p AND SLAB_TAG \<noteq> 0")
    case True
    with ok p obtain c k where c: "c < SLAB_CLASSES" "k \<le> 128" "entry_map h ! p = slab_entry c k"
      by (rule kmem_ok_tagged)
    have "class_size c \<noteq> PAGE_SIZE"
      by (cases rule: class_cases [OF c(1)]) (simp_all add: class_size_def SLAB_MIN_SHIFT_def PAGE_SIZE_def)
    with c have "\<not> frame_live h p" unfolding on by (auto simp: blocks_on_slab)
    moreover have "entry_map h ! p \<noteq> 1" using True by auto
    ultimately show ?thesis by simp
  next
    case False
    have "unat (entry_map h ! p) * PAGE_SIZE = PAGE_SIZE \<longleftrightarrow> entry_map h ! p = 1"
      using word_unat_eq_iff [of "entry_map h ! p" 1] by (simp add: PAGE_SIZE_def)
    with False show ?thesis unfolding on by (auto simp: blocks_on_page_block)
  qed
qed

lemma frame_kind:
  assumes ok: "kmem_ok h" and p: "p < num_pages_in_map h"
  shows "frame_live h p \<Longrightarrow> pmm_user_frame_kind h (frame_phys h p) = Some 1"
    "\<not> frame_live h p \<Longrightarrow> \<exists>k \<le> 0. pmm_user_frame_kind h (frame_phys h p) = Some k"
proof -
  note lay = kmem_ok_layout [OF ok] and fl = frame_live_entry [OF ok p]
  have pg: "get_page_from_addr h (phys_to_virt h (frame_phys h p)) = p"
    using get_page_from_addr_in [OF lay p, of 0] frame_virt [OF lay p] by (simp add: PAGE_SIZE_def)
  have n: "p < length (entry_map h)" "p < 8 * length (page_bitmap h)"
    using lay p by (auto simp: layout_ok_def)
  then have ne: "entry_map h \<noteq> []" "page_bitmap h \<noteq> []" by auto
  show "frame_live h p \<Longrightarrow> pmm_user_frame_kind h (frame_phys h p) = Some 1"
    using ne n(1) p pg fl by (simp add: pmm_user_frame_kind_def)
  show "\<not> frame_live h p \<Longrightarrow> \<exists>k \<le> 0. pmm_user_frame_kind h (frame_phys h p) = Some k"
    using ne n p pg fl by (auto simp: pmm_user_frame_kind_def bitmap_test_taken)
qed

lemma vmm_free_frame_ok:
  assumes ok: "kmem_ok (v_heap s)" and p: "p < num_pages_in_map (v_heap s)"
    and fl: "frame_live (v_heap s) p" and nz: "frame_phys (v_heap s) p \<noteq> 0"
  shows "\<exists>h. vmm_free_frame s (frame_phys (v_heap s) p) = Some (s\<lparr>v_heap := h\<rparr>) \<and> kmem_ok h \<and>
    same_map (v_heap s) h \<and> live h = live (v_heap s) - {(page_addr (v_heap s) p, PAGE_SIZE)}"
proof -
  from kfree_ok [OF ok fl [unfolded frame_live_def]] obtain h where
    h: "kfree (v_heap s) (page_addr (v_heap s) p) = Some h" "kmem_ok h"
      "live h = live (v_heap s) - {(page_addr (v_heap s) p, PAGE_SIZE)}" by blast
  with nz frame_virt [OF kmem_ok_layout [OF ok] p] kfree_map [OF h(1)] show ?thesis
    by (auto simp: vmm_free_frame_def)
qed

section \<open>Ownership of a frame\<close>

text \<open>
  A tracked frame with \<open>n\<close> owners: it is allocated as long as it has one, and its count says so.
\<close>

definition owned :: "vmm \<Rightarrow> nat \<Rightarrow> nat \<Rightarrow> bool" where
  "owned s p n \<longleftrightarrow>
    kmem_ok (v_heap s) \<and> p < num_pages_in_map (v_heap s) \<and> frame_phys (v_heap s) p \<noteq> 0 \<and>
    frame_phys (v_heap s) p div PAGE_SIZE < v_max s \<and>
    (frame_live (v_heap s) p \<longleftrightarrow> 0 < n) \<and>
    (\<exists>rc. v_refs s = Some rc \<and> v_max s \<le> length rc \<and>
      (let r = rc ! (frame_phys (v_heap s) p div PAGE_SIZE) in
       (n = 0 \<longrightarrow> r = 255) \<and> (n = 1 \<longrightarrow> r = 0 \<or> r = 1) \<and> (2 \<le> n \<longrightarrow> n < 255 \<and> r = of_nat n)))"

lemma u8_count:
  assumes "2 \<le> n" and "n < 255"
  shows "\<not> (of_nat n :: u8) \<ge> 255" "(of_nat n :: u8) \<noteq> 0" "(of_nat n :: u8) \<noteq> 1" "\<not> (of_nat n :: u8) \<le> 1"
    "(of_nat n :: u8) - 1 = of_nat (n - 1)"
proof -
  have u: "unat (of_nat n :: u8) = n" using assms(2) by (simp add: unat_of_nat)
  show "\<not> (of_nat n :: u8) \<ge> 255" "\<not> (of_nat n :: u8) \<le> 1"
    using u assms by (simp_all add: word_le_nat_alt)
  show "(of_nat n :: u8) \<noteq> 0" "(of_nat n :: u8) \<noteq> 1" using u assms by auto
  show "(of_nat n :: u8) - 1 = of_nat (n - 1)" using assms(1) by (simp add: of_nat_diff)
qed

lemma u8_consts [simp]: "\<not> (255 :: u8) \<le> 1" "\<not> (255 :: u8) \<le> 0" "(1 :: u8) + 1 = 2"
  by (simp_all add: word_le_nat_alt)

text \<open>Setting the count of the frame in a state that is otherwise the same.\<close>

lemma owned_count:
  assumes "owned s p n" and "v_refs s = Some rc" and "0 < n"
    and "m = 1 \<and> (r = 0 \<or> r = 1) \<or> 2 \<le> m \<and> m < 255 \<and> r = of_nat m"
  shows "owned (s\<lparr>v_refs := Some (rc[frame_phys (v_heap s) p div PAGE_SIZE := r])\<rparr>) p m"
  using assms by (auto simp: owned_def Let_def)

lemma owned_share:
  assumes own: "owned s p n" and n: "0 < n" "n < 254"
  shows "\<exists>s'. vmm_share_leaf s (frame_phys (v_heap s) p) = Some s' \<and> owned s' p (Suc n) \<and>
    v_heap s' = v_heap s"
proof -
  let ?i = "frame_phys (v_heap s) p div PAGE_SIZE"
  from own obtain rc where rc: "v_refs s = Some rc" "v_max s \<le> length rc" "?i < v_max s"
    "n = 1 \<Longrightarrow> rc ! ?i = 0 \<or> rc ! ?i = 1" "2 \<le> n \<Longrightarrow> rc ! ?i = of_nat n"
    by (auto simp: owned_def Let_def)
  consider "n = 1" "rc ! ?i = 0" | "n = 1" "rc ! ?i = 1" | "2 \<le> n" "rc ! ?i = of_nat n"
    using n(1) rc(4,5) by linarith
  then show ?thesis
  proof cases
    case 1
    have "vmm_share_leaf s (frame_phys (v_heap s) p) = Some (s\<lparr>v_refs := Some (rc[?i := 2])\<rparr>)"
      using rc(1-3) 1 by (simp add: vmm_share_leaf_def vmm_page_get_ref_def vmm_page_ref_def Let_def)
    with owned_count [OF own rc(1) n(1), of 2 2] 1 show ?thesis by (simp add: numeral_2_eq_2)
  next
    case 2
    have "vmm_share_leaf s (frame_phys (v_heap s) p) = Some (s\<lparr>v_refs := Some (rc[?i := 2])\<rparr>)"
      using rc(1-3) 2 by (simp add: vmm_share_leaf_def vmm_page_get_ref_def vmm_page_ref_def Let_def)
    with owned_count [OF own rc(1) n(1), of 2 2] 2 show ?thesis by (simp add: numeral_2_eq_2)
  next
    case 3
    have "vmm_share_leaf s (frame_phys (v_heap s) p) = Some (s\<lparr>v_refs := Some (rc[?i := of_nat (Suc n)])\<rparr>)"
      using rc(1-3) 3 u8_count [of n] n
      by (simp add: vmm_share_leaf_def vmm_page_get_ref_def vmm_page_ref_def add.commute)
    with owned_count [OF own rc(1) n(1), of "Suc n" "of_nat (Suc n)"] 3 n show ?thesis by simp
  qed
qed

text \<open>Dropping a frame that nobody else owns: the count is parked at 255 and the frame is freed.\<close>

lemma owned_free:
  assumes own: "owned s p 1" and rc: "v_refs s = Some rc"
  shows "\<exists>s'. vmm_free_frame (s\<lparr>v_refs := Some (rc[frame_phys (v_heap s) p div PAGE_SIZE := 255])\<rparr>)
      (frame_phys (v_heap s) p) = Some s' \<and> owned s' p 0 \<and> same_map (v_heap s) (v_heap s')"
proof -
  let ?i = "frame_phys (v_heap s) p div PAGE_SIZE"
  let ?s = "s\<lparr>v_refs := Some (rc[?i := 255])\<rparr>"
  from own rc have o: "kmem_ok (v_heap s)" "p < num_pages_in_map (v_heap s)" "frame_live (v_heap s) p"
    "frame_phys (v_heap s) p \<noteq> 0" "?i < v_max s" "v_max s \<le> length rc"
    by (auto simp: owned_def)
  obtain h where h: "vmm_free_frame ?s (frame_phys (v_heap s) p) = Some (?s\<lparr>v_heap := h\<rparr>)" "kmem_ok h"
    "same_map (v_heap s) h" "live h = live (v_heap s) - {(page_addr (v_heap s) p, PAGE_SIZE)}"
    using vmm_free_frame_ok [of ?s p] o by auto
  have "frame_phys h p = frame_phys (v_heap s) p" "num_pages_in_map h = num_pages_in_map (v_heap s)"
    using h(3) by (simp_all add: same_map_def frame_phys_def)
  moreover have "\<not> frame_live h p"
    using h(4) same_map_page_addr [OF h(3)] by (simp add: frame_live_def)
  ultimately have "owned (?s\<lparr>v_heap := h\<rparr>) p 0"
    using o h(2) by (simp add: owned_def)
  with h(1,3) show ?thesis by simp
qed

lemma owned_release:
  assumes own: "owned s p n"
  shows "\<exists>s'. vmm_leaf_release s (frame_phys (v_heap s) p) = Some s' \<and> owned s' p (n - 1) \<and>
    same_map (v_heap s) (v_heap s')"
proof -
  let ?i = "frame_phys (v_heap s) p div PAGE_SIZE"
  from own obtain rc where rc: "v_refs s = Some rc" "?i < v_max s" "v_max s \<le> length rc"
    "n = 0 \<Longrightarrow> rc ! ?i = 255" "n = 1 \<Longrightarrow> rc ! ?i = 0 \<or> rc ! ?i = 1" "2 \<le> n \<Longrightarrow> n < 255 \<and> rc ! ?i = of_nat n"
    and nz: "frame_phys (v_heap s) p \<noteq> 0" and live: "frame_live (v_heap s) p \<longleftrightarrow> 0 < n"
    and ok: "kmem_ok (v_heap s)" "p < num_pages_in_map (v_heap s)"
    by (auto simp: owned_def Let_def)
  have kind: "0 < n \<Longrightarrow> pmm_user_frame_kind (v_heap s) (frame_phys (v_heap s) p) = Some 1"
    using frame_kind(1) [OF ok] live by simp
  consider "n = 0" | "n = 1" | "2 \<le> n" by linarith
  then show ?thesis
  proof cases
    case 1
    with rc nz own show ?thesis by (simp add: vmm_leaf_release_def)
  next
    case 2
    with own have "owned s p 1" by simp
    from owned_free [OF this rc(1)] 2 rc(1-3,5) kind nz show ?thesis
      by (auto simp: vmm_leaf_release_def vmm_page_unref_def Let_def)
  next
    case 3
    with rc nz kind u8_count [of n]
    have "vmm_leaf_release s (frame_phys (v_heap s) p) = Some (s\<lparr>v_refs := Some (rc[?i := of_nat (n - 1)])\<rparr>)"
      by (simp add: vmm_leaf_release_def vmm_page_unref_def)
    moreover have "owned (s\<lparr>v_refs := Some (rc[?i := of_nat (n - 1)])\<rparr>) p (n - 1)"
      using 3 rc(6) by (intro owned_count [OF own rc(1)]) (cases "n = 2"; auto)+
    ultimately show ?thesis by simp
  qed
qed

text \<open>Breaking copy-on-write drops the claim on the old frame in the same way.\<close>

lemma owned_cow_release:
  assumes own: "owned s p n"
  shows "\<exists>s'. vmm_cow_release_old s (frame_phys (v_heap s) p) = Some s' \<and> owned s' p (n - 1) \<and>
    same_map (v_heap s) (v_heap s')"
proof -
  let ?i = "frame_phys (v_heap s) p div PAGE_SIZE"
  from own obtain rc where rc: "v_refs s = Some rc" "?i < v_max s" "v_max s \<le> length rc"
    "n = 0 \<Longrightarrow> rc ! ?i = 255" "n = 1 \<Longrightarrow> rc ! ?i = 0 \<or> rc ! ?i = 1" "2 \<le> n \<Longrightarrow> n < 255 \<and> rc ! ?i = of_nat n"
    and nz: "frame_phys (v_heap s) p \<noteq> 0"
    by (auto simp: owned_def Let_def)
  consider "n = 0" | "n = 1" | "2 \<le> n" by linarith
  then show ?thesis
  proof cases
    case 1
    with rc nz own show ?thesis by (simp add: vmm_cow_release_old_def)
  next
    case 2
    then have "vmm_cow_release_old s (frame_phys (v_heap s) p) = vmm_leaf_release s (frame_phys (v_heap s) p)"
      using rc(1-3,5) nz by (auto simp: vmm_cow_release_old_def Let_def)
    with owned_release [OF own] show ?thesis by simp
  next
    case 3
    with rc nz u8_count [of n]
    have "vmm_cow_release_old s (frame_phys (v_heap s) p) = Some (s\<lparr>v_refs := Some (rc[?i := of_nat (n - 1)])\<rparr>)"
      by (simp add: vmm_cow_release_old_def)
    moreover have "owned (s\<lparr>v_refs := Some (rc[?i := of_nat (n - 1)])\<rparr>) p (n - 1)"
      using 3 rc(6) by (intro owned_count [OF own rc(1)]) (cases "n = 2"; auto)+
    ultimately show ?thesis by simp
  qed
qed

text \<open>The life of a frame: what \<^verbatim>\<open>fork\<close>, unmapping and write faults do to it.\<close>

datatype frame_op = Share | Unmap | Cow_break

fun frame_step :: "vmm \<Rightarrow> nat \<Rightarrow> frame_op \<Rightarrow> vmm option" where
  "frame_step s phys Share = vmm_share_leaf s phys"
| "frame_step s phys Unmap = vmm_leaf_release s phys"
| "frame_step s phys Cow_break = vmm_cow_release_old s phys"

fun frame_run :: "vmm \<Rightarrow> nat \<Rightarrow> frame_op list \<Rightarrow> vmm option" where
  "frame_run s phys [] = Some s"
| "frame_run s phys (c # cs) =
    (case frame_step s phys c of None \<Rightarrow> None | Some s' \<Rightarrow> frame_run s' phys cs)"

text \<open>
  The number of mappings of the frame after the operations. Only a mapped frame can be shared;
  254 mappings is the most a count can tell apart from a saturated one.
\<close>

fun mappings :: "nat \<Rightarrow> frame_op list \<Rightarrow> nat option" where
  "mappings n [] = Some n"
| "mappings n (Share # cs) = (if 0 < n \<and> n < 254 then mappings (n + 1) cs else None)"
| "mappings n (Unmap # cs) = mappings (n - 1) cs"
| "mappings n (Cow_break # cs) = mappings (n - 1) cs"

lemma frame_run_owned:
  "owned s p n \<Longrightarrow> phys = frame_phys (v_heap s) p \<Longrightarrow> mappings n cs = Some m \<Longrightarrow>
   \<exists>s'. frame_run s phys cs = Some s' \<and> owned s' p m \<and> same_map (v_heap s) (v_heap s')"
proof (induction cs arbitrary: s n)
  case Nil
  then show ?case by simp
next
  case (Cons c cs)
  have step: "\<exists>s'. frame_step s phys c = Some s' \<and> owned s' p n' \<and> same_map (v_heap s) (v_heap s')"
    and rest: "mappings n' cs = Some m" if "n' = (case c of Share \<Rightarrow> n + 1 | _ \<Rightarrow> n - 1)" for n'
    using that Cons.prems owned_share [of s p n] owned_release [of s p n] owned_cow_release [of s p n]
    by (cases c; auto split: if_splits)+
  from step [OF refl] obtain s1 where s1: "frame_step s phys c = Some s1"
    "owned s1 p (case c of Share \<Rightarrow> n + 1 | _ \<Rightarrow> n - 1)" "same_map (v_heap s) (v_heap s1)" by blast
  then have "phys = frame_phys (v_heap s1) p"
    using Cons.prems(2) by (simp add: frame_phys_def same_map_def)
  from Cons.IH [OF s1(2) this rest [OF refl]] s1(1,3) same_map_trans show ?case by fastforce
qed

text \<open>A frame comes from a page that was free; failure means that there was none.\<close>

lemma kalloc_page:
  assumes ok: "kmem_ok h"
  shows "(\<exists>p h'. kalloc h PAGE_SIZE = Some (Some (page_addr h p), h') \<and> p < num_pages_in_map h \<and>
      p \<in> free_pages h \<and> kmem_ok h' \<and> same_map h h' \<and> \<not> frame_live h p \<and> live h' = insert (page_addr h p, PAGE_SIZE) (live h) \<and>
      free_pages h' = free_pages h - {p}) \<or>
    kalloc h PAGE_SIZE = Some (None, h) \<and> (max_pages_available h < 4 \<or> free_pages h = {})"
proof -
  have pok: "pages_ok h" and num: "0 < num_pages_in_map h" and one: "1 = DIV_ROUNDUP PAGE_SIZE PAGE_SIZE"
    using ok by (simp_all add: kmem_ok_def pages_ok_def layout_ok_def DIV_ROUNDUP_def PAGE_SIZE_def)
  have k: "kalloc h PAGE_SIZE = kalloc_internal h PAGE_SIZE 0 True"
    by (simp add: kalloc_def PAGE_SIZE_def SLAB_MAX_SIZE_def SLAB_MAX_SHIFT_def)
  from kalloc_internal_cases [OF pok num one, of True] show ?thesis
  proof (elim disjE exE conjE)
    fix p h'
    assume a: "kalloc_internal h PAGE_SIZE 0 True = Some (Some (page_addr h p), h')"
      "p + 1 \<le> num_pages_in_map h" "free_run (page_bitmap h) p 1" "grabbed h p 1 h'"
    have p: "p < num_pages_in_map h" using a(2) by simp
    note g = grabbed_kmem [OF ok a(4,3,2)]
    have "\<not> frame_live h p" using g(4) frame_live_entry [OF ok p] by simp
    moreover have "p \<in> free_pages h" using p a(3) by (simp add: free_pages_def free_run_def)
    ultimately show ?thesis
      using a(1) k p g(1,2) kalloc_map [of h PAGE_SIZE] grabbed_free_pages [OF a(4)]
      by (intro disjI1 exI) auto
  next
    assume none: "kalloc_internal h PAGE_SIZE 0 True = Some (None, h)"
      and "\<forall>p. 0 \<le> p \<and> p + 1 \<le> num_pages_in_map h \<longrightarrow> \<not> free_run (page_bitmap h) p 1"
    then have "taken (page_bitmap h) p" if "p < num_pages_in_map h" for p
      using that by (auto simp: free_run_def Suc_le_eq less_Suc_eq_le dest!: spec [of _ p])
    then have "free_pages h = {}" by (auto simp: free_pages_def)
    with none k show ?thesis by simp
  qed (use k in \<open>auto simp: PAGE_SIZE_def\<close>)
qed

lemma vmm_alloc_frame_owned:
  assumes ok: "kmem_ok (v_heap s)" and rc: "v_refs s = Some rc" "v_max s \<le> length rc"
    and low: "0 < lowest_address (v_heap s)"
  shows "(\<exists>p s'. vmm_alloc_frame s = Some (frame_phys (v_heap s) p, s') \<and>
      p \<in> free_pages (v_heap s) \<and> p < num_pages_in_map (v_heap s) \<and> v_tab s' (frame_phys (v_heap s) p) = (\<lambda>_. 0) \<and>
      \<not> frame_live (v_heap s) p \<and> frame_live (v_heap s') p \<and> kmem_ok (v_heap s') \<and>
      same_map (v_heap s) (v_heap s') \<and> v_max s' = v_max s \<and>
      (v_max s \<le> frame_phys (v_heap s) p div PAGE_SIZE \<longrightarrow> v_refs s' = v_refs s) \<and>
      (frame_phys (v_heap s) p div PAGE_SIZE < v_max s \<longrightarrow> owned s' p 1)) \<or>
    vmm_alloc_frame s = Some (0, s) \<and>
      (max_pages_available (v_heap s) < 4 \<or> free_pages (v_heap s) = {})"
  using kalloc_page [OF ok]
proof (elim disjE exE conjE)
  fix p h'
  let ?phys = "frame_phys (v_heap s) p"
  assume a: "kalloc (v_heap s) PAGE_SIZE = Some (Some (page_addr (v_heap s) p), h')"
    "p < num_pages_in_map (v_heap s)" "kmem_ok h'" "same_map (v_heap s) h'" "\<not> frame_live (v_heap s) p"
    "p \<in> free_pages (v_heap s)"
    "live h' = insert (page_addr (v_heap s) p, PAGE_SIZE) (live (v_heap s))"
  have fp: "frame_phys h' p = ?phys" "num_pages_in_map h' = num_pages_in_map (v_heap s)"
    "higher_half_offset h' = higher_half_offset (v_heap s)"
    using a(4) by (simp_all add: same_map_def frame_phys_def)
  have v: "virt_to_phys h' (page_addr (v_heap s) p) = ?phys"
    using frame_of_page [OF kmem_ok_layout [OF ok] a(2)] fp(3) by (simp add: virt_to_phys_def)
  have fl: "frame_live h' p" using a(7) same_map_page_addr [OF a(4)] by (simp add: frame_live_def)
  let ?s1 = "s\<lparr>v_heap := h', v_tab := (v_tab s)(?phys := (\<lambda>_. 0))\<rparr>"
  let ?s' = "if ?phys div PAGE_SIZE < v_max s then ?s1\<lparr>v_refs := Some (rc[?phys div PAGE_SIZE := 0])\<rparr> else ?s1"
  have "vmm_alloc_frame s = Some (?phys, ?s')"
    using a(1) rc by (simp add: vmm_alloc_frame_def v Let_def)
  moreover have "?phys div PAGE_SIZE < v_max s \<longrightarrow> owned ?s' p 1"
    using a(2,3) fp fl rc low by (simp add: owned_def) (simp add: frame_phys_def)
  ultimately show ?thesis using a(2-6) fl by (intro disjI1 exI [of _ p] exI [of _ ?s']) simp
qed (auto simp: vmm_alloc_frame_def)

section \<open>Properties\<close>

text \<open>A fresh machine with counts for 32 frames, and one with a hole in its memory map.\<close>

abbreviation vmm_over :: "pmm \<Rightarrow> nat \<Rightarrow> vmm" where
  "vmm_over s n \<equiv> \<lparr>v_heap = slab_boot s, v_refs = Some (replicate n 0), v_max = n,
     v_tab = (\<lambda>_ _. 0), v_kpml4 = 0\<rparr>"

lemma small_frame:
  "\<exists>s p s'. kmem_init small_map (Some 0xFFFF800000000000) = Some s \<and>
     vmm_alloc_frame (vmm_over s 32) = Some (frame_phys (v_heap s') p, s') \<and> owned s' p 1"
proof -
  obtain s where s: "kmem_init small_map (Some 0xFFFF800000000000) = Some s" "kmem_ok (slab_boot s)"
    "num_pages_in_map s = 20" "max_pages_available s = 18" "lowest_address s = 4096" "free_pages s \<noteq> {}"
    using small_heap by blast
  from vmm_alloc_frame_owned [of "vmm_over s 32" "replicate 32 0"] s obtain p s' where
    a: "vmm_alloc_frame (vmm_over s 32) = Some (frame_phys (slab_boot s) p, s')" "p < 20"
      "same_map (slab_boot s) (v_heap s')"
      "frame_phys (slab_boot s) p div PAGE_SIZE < 32 \<Longrightarrow> owned s' p 1" by auto
  have "frame_phys (slab_boot s) p div PAGE_SIZE < 32"
    using a(2) s(5) by (simp add: frame_phys_def PAGE_SIZE_def)
  moreover have "frame_phys (v_heap s') p = frame_phys (slab_boot s) p"
    using a(3) by (simp add: same_map_def frame_phys_def)
  ultimately show ?thesis using s(1) a(1,4) by metis
qed



text \<open>
  C32. A frame whose number is not below \<^verbatim>\<open>vmm_max_phys_pages\<close> is not counted: sharing it changes
  nothing, and the first of its two owners that unmaps it frees it while the other one still
  maps it.
\<close>

theorem untracked_frame_freed_early:
  assumes "kmem_ok (v_heap s)" and "p < num_pages_in_map (v_heap s)" and "frame_live (v_heap s) p"
    and "phys = frame_phys (v_heap s) p" and "phys \<noteq> 0"
    and "v_refs s = Some rc" and "v_max s \<le> phys div PAGE_SIZE"
  shows "\<exists>s'. frame_run s phys [Share, Unmap] = Some s' \<and> \<not> frame_live (v_heap s') p"
proof -
  have sh: "vmm_share_leaf s phys = Some s"
    using assms(6,7) by (simp add: vmm_share_leaf_def vmm_page_get_ref_def vmm_page_ref_def)
  have "vmm_leaf_release s phys = vmm_free_frame s phys"
    using assms frame_kind(1) [OF assms(1-3)] by (simp add: vmm_leaf_release_def)
  moreover obtain h where "vmm_free_frame s phys = Some (s\<lparr>v_heap := h\<rparr>)" "same_map (v_heap s) h"
    "live h = live (v_heap s) - {(page_addr (v_heap s) p, PAGE_SIZE)}"
    using vmm_free_frame_ok [OF assms(1-3)] assms(4,5) by auto
  ultimately show ?thesis
    using sh same_map_page_addr [of "v_heap s" h] by (simp add: frame_live_def)
qed

abbreviation hole_map :: "mem_entry list" where
  "hole_map \<equiv> [\<lparr>e_base = 4096, e_length = 8192, e_usable = True\<rparr>,
                \<lparr>e_base = 0x100000, e_length = 32768, e_usable = True\<rparr>]"

lemma hole_boot:
  "\<exists>s. kmem_init hole_map (Some 0xFFFF800000000000) = Some s \<and> kmem_ok (slab_boot s) \<and>
     lowest_address s = 4096 \<and> max_pages_available s = 8 \<and> free_pages s = {255..<263}"
proof -
  have b: "bitmap_bytes 263 = 4096" "entry_map_bytes 263 = 4096"
    by (simp_all add: bitmap_bytes_def entry_map_bytes_def ALIGN_UP_def PAGE_SIZE_def)
  have m: "memmap_ok hole_map" by (simp add: memmap_ok_def before_def entry_ok_def PAGE_SIZE_def)
  have i: "init_stats hole_map (0, 0, 0, 0) = (40960, 10, 0x108000, 4096)" by (simp add: PAGE_SIZE_def)
  have n: "263 = (0x108000 - 4096) div PAGE_SIZE" by (simp add: PAGE_SIZE_def)
  have p1: "place (bitmap_bytes 263) hole_map = Some (4096,
      [\<lparr>e_base = 8192, e_length = 4096, e_usable = True\<rparr>, \<lparr>e_base = 0x100000, e_length = 32768, e_usable = True\<rparr>])"
    by (simp add: b)
  have p2: "place (entry_map_bytes 263)
      [\<lparr>e_base = 8192, e_length = 4096, e_usable = True\<rparr>, \<lparr>e_base = 0x100000, e_length = 32768, e_usable = True\<rparr>]
      = Some (8192, [\<lparr>e_base = 12288, e_length = 0, e_usable = True\<rparr>,
          \<lparr>e_base = 0x100000, e_length = 32768, e_usable = True\<rparr>])"
    by (simp add: b)
  show ?thesis
    using kmem_init_pages_ok [OF m i n _ _ p1 p2, of "0xFFFF800000000000"] slab_boot_ok
    by (auto simp: PAGE_SIZE_def b map_pages_def entry_pages_def)
qed

theorem untracked_frame_freed_early_witness:
  "\<exists>s p s1 s2. kmem_init hole_map (Some 0xFFFF800000000000) = Some s \<and>
     vmm_alloc_frame (vmm_over s 10) = Some (frame_phys (v_heap s1) p, s1) \<and>
     frame_run s1 (frame_phys (v_heap s1) p) [Share, Unmap] = Some s2 \<and> \<not> frame_live (v_heap s2) p"
proof -
  obtain s where s: "kmem_init hole_map (Some 0xFFFF800000000000) = Some s" "kmem_ok (slab_boot s)"
    "lowest_address s = 4096" "max_pages_available s = 8" "free_pages s = {255..<263}"
    using hole_boot by blast
  have "free_pages s \<noteq> {}" unfolding s(5) by simp
  then obtain p s1 where a: "vmm_alloc_frame (vmm_over s 10) = Some (frame_phys (slab_boot s) p, s1)"
    "p \<in> {255..<263}" "p < num_pages_in_map s" "frame_live (v_heap s1) p" "kmem_ok (v_heap s1)"
    "same_map (slab_boot s) (v_heap s1)" "v_max s1 = 10"
    "10 \<le> frame_phys (slab_boot s) p div PAGE_SIZE \<Longrightarrow> v_refs s1 = Some (replicate 10 0)"
    using vmm_alloc_frame_owned [of "vmm_over s 10" "replicate 10 0"] s by auto
  have f: "frame_phys (v_heap s1) p = frame_phys (slab_boot s) p" "num_pages_in_map (v_heap s1) = num_pages_in_map s"
    using a(6) by (simp_all add: same_map_def frame_phys_def)
  with untracked_frame_freed_early [OF a(5) _ a(4) refl, of "replicate 10 0"] a f s show ?thesis
    by (auto simp: frame_phys_def PAGE_SIZE_def)
qed

end
