(* ===== verification/Vmm.thy ===== *)
theory Vmm
  imports Frames
begin

text \<open>
  The page tables of \<^verbatim>\<open>src/src/mem.c\<close>: walking the four levels, mapping, unmapping and
  looking up a page, mapping a range, and creating an address space.

  A table is named by its physical address (the code's pointers are these addresses plus the
  offset of the direct map); \<open>v_tab\<close> holds its 512 entries. The \<open>None\<close> of the result of an
  operation is an access outside the tables of the allocator, and cannot happen under the
  invariant. Flushing the translation of the page has no effect on this state.
\<close>

unbundle bit_operations_syntax

section \<open>Entries and indices\<close>

definition VMM_PRESENT :: u64 where "VMM_PRESENT = 0x1"
definition VMM_WRITABLE :: u64 where "VMM_WRITABLE = 0x2"
definition VMM_USER :: u64 where "VMM_USER = 0x4"
definition PTE_ADDR_MASK :: u64 where "PTE_ADDR_MASK = 0x000FFFFFFFFFF000"

definition PML4_INDEX :: "u64 \<Rightarrow> nat" where "PML4_INDEX v = unat (drop_bit 39 v AND 0x1FF)"
definition PDP_INDEX :: "u64 \<Rightarrow> nat" where "PDP_INDEX v = unat (drop_bit 30 v AND 0x1FF)"
definition PD_INDEX :: "u64 \<Rightarrow> nat" where "PD_INDEX v = unat (drop_bit 21 v AND 0x1FF)"
definition PT_INDEX :: "u64 \<Rightarrow> nat" where "PT_INDEX v = unat (drop_bit 12 v AND 0x1FF)"

definition pte_addr :: "u64 \<Rightarrow> nat" where
  "pte_addr e = unat (e AND PTE_ADDR_MASK)"

definition set_entry :: "vmm \<Rightarrow> nat \<Rightarrow> nat \<Rightarrow> u64 \<Rightarrow> vmm" where
  "set_entry s t i e = s\<lparr>v_tab := (v_tab s)(t := (v_tab s t)(i := e))\<rparr>"

section \<open>Operations\<close>

definition vmm_get_next_level ::
  "vmm \<Rightarrow> nat \<Rightarrow> nat \<Rightarrow> bool \<Rightarrow> u64 \<Rightarrow> (nat option \<times> vmm) option" where
  "vmm_get_next_level s t i create parent_flags =
    (if v_tab s t i AND VMM_PRESENT \<noteq> 0 then Some (Some (pte_addr (v_tab s t i)), s)
     else if \<not> create then Some (None, s)
     else
       case vmm_alloc_frame s of
         None \<Rightarrow> None
       | Some (new_phys, s1) \<Rightarrow>
           if new_phys = 0 then Some (None, s1)
           else Some (Some new_phys,
             set_entry s1 t i (of_nat new_phys OR VMM_PRESENT OR VMM_WRITABLE OR parent_flags)))"

text \<open>The three calls that lead from the top-level table to the page table of an address.\<close>

definition vmm_walk :: "vmm \<Rightarrow> nat \<Rightarrow> u64 \<Rightarrow> bool \<Rightarrow> u64 \<Rightarrow> (nat option \<times> vmm) option" where
  "vmm_walk s pml4 va create pf =
    (case vmm_get_next_level s pml4 (PML4_INDEX va) create pf of
       None \<Rightarrow> None
     | Some (None, s1) \<Rightarrow> Some (None, s1)
     | Some (Some pdpt, s1) \<Rightarrow>
         (case vmm_get_next_level s1 pdpt (PDP_INDEX va) create pf of
            None \<Rightarrow> None
          | Some (None, s2) \<Rightarrow> Some (None, s2)
          | Some (Some pd, s2) \<Rightarrow> vmm_get_next_level s2 pd (PD_INDEX va) create pf))"

definition vmm_map_page_in :: "vmm \<Rightarrow> nat option \<Rightarrow> u64 \<Rightarrow> u64 \<Rightarrow> u64 \<Rightarrow> (int \<times> vmm) option" where
  "vmm_map_page_in s pml4 va pa flags =
    (case pml4 of
       None \<Rightarrow> Some (- 1, s)
     | Some root \<Rightarrow>
         let pf = (if flags AND VMM_USER \<noteq> 0 then VMM_USER else 0) in
         case vmm_walk s root va True pf of
           None \<Rightarrow> None
         | Some (None, s1) \<Rightarrow> Some (- 1, s1)
         | Some (Some pt, s1) \<Rightarrow>
             Some (0, set_entry s1 pt (PT_INDEX va) ((pa AND PTE_ADDR_MASK) OR flags OR VMM_PRESENT)))"

definition vmm_unmap_page_in :: "vmm \<Rightarrow> nat option \<Rightarrow> u64 \<Rightarrow> (int \<times> vmm) option" where
  "vmm_unmap_page_in s pml4 va =
    (case pml4 of
       None \<Rightarrow> Some (- 1, s)
     | Some root \<Rightarrow>
         case vmm_walk s root va False 0 of
           None \<Rightarrow> None
         | Some (None, s1) \<Rightarrow> Some (- 1, s1)
         | Some (Some pt, s1) \<Rightarrow> Some (0, set_entry s1 pt (PT_INDEX va) 0))"

definition vmm_is_mapped_in :: "vmm \<Rightarrow> nat option \<Rightarrow> u64 \<Rightarrow> u64 option" where
  "vmm_is_mapped_in s pml4 va =
    (case pml4 of
       None \<Rightarrow> Some 0
     | Some root \<Rightarrow>
         case vmm_walk s root va False 0 of
           None \<Rightarrow> None
         | Some (None, _) \<Rightarrow> Some 0
         | Some (Some pt, s1) \<Rightarrow>
             let entry = v_tab s1 pt (PT_INDEX va) in
             Some (if entry AND VMM_PRESENT \<noteq> 0 then entry AND PTE_ADDR_MASK else 0))"

text \<open>\<^verbatim>\<open>vmm_get_pte_in\<close>: the address of an entry is its table and its index.\<close>

definition vmm_get_pte_in :: "vmm \<Rightarrow> nat option \<Rightarrow> u64 \<Rightarrow> (nat \<times> nat) option option" where
  "vmm_get_pte_in s pml4 va =
    (case pml4 of
       None \<Rightarrow> Some None
     | Some root \<Rightarrow>
         case vmm_walk s root va False 0 of
           None \<Rightarrow> None
         | Some (None, _) \<Rightarrow> Some None
         | Some (Some pt, _) \<Rightarrow> Some (Some (pt, PT_INDEX va)))"

definition vmm_map_page :: "vmm \<Rightarrow> u64 \<Rightarrow> u64 \<Rightarrow> u64 \<Rightarrow> (int \<times> vmm) option" where
  "vmm_map_page s va pa flags = vmm_map_page_in s (Some (v_kpml4 s)) va pa flags"

definition vmm_unmap_page :: "vmm \<Rightarrow> u64 \<Rightarrow> (int \<times> vmm) option" where
  "vmm_unmap_page s va = vmm_unmap_page_in s (Some (v_kpml4 s)) va"

definition vmm_is_mapped :: "vmm \<Rightarrow> u64 \<Rightarrow> u64 option" where
  "vmm_is_mapped s va = vmm_is_mapped_in s (Some (v_kpml4 s)) va"

definition vmm_get_pte :: "vmm \<Rightarrow> u64 \<Rightarrow> (nat \<times> nat) option option" where
  "vmm_get_pte s va = vmm_get_pte_in s (Some (v_kpml4 s)) va"

text \<open>\<^verbatim>\<open>vmm_map_range\<close>, from page \<open>i\<close> on with \<open>n\<close> pages to go; stops at the first failure.\<close>

fun map_range_from :: "vmm \<Rightarrow> nat option \<Rightarrow> u64 \<Rightarrow> u64 \<Rightarrow> u64 \<Rightarrow> u64 \<Rightarrow> nat \<Rightarrow> (int \<times> vmm) option" where
  "map_range_from s pml4 virt phys flags i 0 = Some (0, s)"
| "map_range_from s pml4 virt phys flags i (Suc n) =
    (case vmm_map_page_in s pml4 (virt + i * of_nat PAGE_SIZE) (phys + i * of_nat PAGE_SIZE) flags of
       None \<Rightarrow> None
     | Some (r, s1) \<Rightarrow> if r \<noteq> 0 then Some (r, s1) else map_range_from s1 pml4 virt phys flags (i + 1) n)"

definition vmm_map_range :: "vmm \<Rightarrow> nat option \<Rightarrow> u64 \<Rightarrow> u64 \<Rightarrow> u64 \<Rightarrow> u64 \<Rightarrow> (int \<times> vmm) option" where
  "vmm_map_range s pml4 virt phys num_pages flags =
    map_range_from s pml4 virt phys flags 0 (unat num_pages)"

definition vmm_create_address_space :: "vmm \<Rightarrow> (nat option \<times> vmm) option" where
  "vmm_create_address_space s =
    (case vmm_alloc_frame s of
       None \<Rightarrow> None
     | Some (new_phys, s1) \<Rightarrow>
         if new_phys = 0 then Some (None, s1)
         else Some (Some new_phys, s1\<lparr>v_tab := (v_tab s1)(new_phys :=
             (\<lambda>i. if i < 256 then 0 else if i < 512 then v_tab s1 (v_kpml4 s1) i
                   else v_tab s1 new_phys i))\<rparr>))"

section \<open>Addresses in entries\<close>

lemma mask_push: "PTE_ADDR_MASK = push_bit 12 (mask 40)"
  by (simp add: PTE_ADDR_MASK_def mask_numeral)

lemma pte_addr_of_nat:
  assumes "phys mod PAGE_SIZE = 0" and "phys < 2 ^ 52" and "f AND PTE_ADDR_MASK = 0"
  shows "pte_addr (of_nat phys OR f) = phys"
proof -
  obtain q where q: "phys = q * 4096" using assms(1) by (metis PAGE_SIZE_def dvd_def mod_0_imp_dvd mult.commute)
  with assms(2) have q40: "q < 2 ^ 40" by simp
  have of_phys: "(of_nat phys :: u64) = push_bit 12 (of_nat q)" by (simp add: q push_bit_eq_mult)
  have "unat (take_bit 40 (of_nat q :: u64)) = unat (of_nat q :: u64)"
    using q40 by (simp add: unsigned_take_bit_eq unat_of_nat take_bit_eq_mod unat_mod_distrib)
  then have "take_bit 40 (of_nat q :: u64) = of_nat q" by (simp only: word_unat_eq_iff)
  then have "of_nat phys AND PTE_ADDR_MASK = (of_nat phys :: u64)"
    unfolding of_phys mask_push by (simp only: push_bit_and [symmetric] take_bit_eq_mask [symmetric])
  then have "(of_nat phys OR f) AND PTE_ADDR_MASK = (of_nat phys :: u64)"
    using assms(3) by (simp add: bit.conj_disj_distrib2)
  then show ?thesis using assms(2) by (simp add: pte_addr_def unat_of_nat)
qed

section \<open>The tree of tables\<close>

fun walk :: "(nat \<Rightarrow> nat \<Rightarrow> u64) \<Rightarrow> nat \<Rightarrow> nat list \<Rightarrow> nat option" where
  "walk t f [] = Some f"
| "walk t f (i # is) = (if t f i AND VMM_PRESENT \<noteq> 0 then walk t (pte_addr (t f i)) is else None)"

definition is_path :: "nat list \<Rightarrow> bool" where
  "is_path is \<longleftrightarrow> length is \<le> 3 \<and> set is \<subseteq> {..<512}"

definition tree_ok :: "(nat \<Rightarrow> nat \<Rightarrow> u64) \<Rightarrow> nat \<Rightarrow> bool" where
  "tree_ok t root \<longleftrightarrow> (\<forall>is js f. is_path is \<and> is_path js \<and>
     walk t root is = Some f \<and> walk t root js = Some f \<longrightarrow> is = js)"

definition tables :: "(nat \<Rightarrow> nat \<Rightarrow> u64) \<Rightarrow> nat \<Rightarrow> nat set" where
  "tables t root = {f. \<exists>is. is_path is \<and> walk t root is = Some f}"

lemma walk_snoc:
  "walk t f (is @ [i]) = (case walk t f is of None \<Rightarrow> None
     | Some g \<Rightarrow> if t g i AND VMM_PRESENT \<noteq> 0 then Some (pte_addr (t g i)) else None)"
  by (induction "is" arbitrary: f) auto

lemma is_path_snoc: "is_path (is @ [i]) \<Longrightarrow> is_path is \<and> i < 512 \<and> length is \<le> 2"
  by (auto simp: is_path_def)

lemma tree_okD:
  "tree_ok t root \<Longrightarrow> is_path is \<Longrightarrow> is_path js \<Longrightarrow> walk t root is = Some f \<Longrightarrow> walk t root js = Some f \<Longrightarrow> is = js"
  unfolding tree_ok_def by blast

text \<open>Hooking a fresh table into an empty slot adds one path and changes no other.\<close>

lemma walk_hook:
  assumes tree: "tree_ok t root" and x: "walk t root is = Some x" "is_path (is @ [i])"
    and absent: "t x i AND VMM_PRESENT = 0" and new: "new \<notin> tables t root"
    and e: "e AND VMM_PRESENT \<noteq> 0" "pte_addr e = new"
    and t': "t' = (t(new := (\<lambda>_. 0)))(x := ((t(new := (\<lambda>_. 0))) x)(i := e))"
  shows "is_path js \<Longrightarrow> walk t' root js = (if js = is @ [i] then Some new else walk t root js)"
proof (induction js rule: rev_induct)
  case Nil
  then show ?case by simp
next
  case (snoc k ks)
  note ks = is_path_snoc [OF snoc.prems]
  have xs: "is_path is" "x \<noteq> new" using is_path_snoc [OF x(2)] x(1) new by (auto simp: tables_def)
  then have at: "t' f j = (if f = x \<and> j = i then e else if f = new then 0 else t f j)" for f j
    by (simp add: t')
  show ?case
  proof (cases "ks = is @ [i]")
    case True
    with ks snoc.IH have "walk t' root ks = Some new" by simp
    then have "walk t' root (ks @ [k]) = None" using xs(2) by (simp add: walk_snoc at)
    moreover have "walk t root ks = None" using True x(1) absent by (simp add: walk_snoc)
    then have "walk t root (ks @ [k]) = None" by (simp add: walk_snoc)
    ultimately show ?thesis using True by simp
  next
    case False
    then have IH: "walk t' root ks = walk t root ks" using snoc.IH ks by simp
    show ?thesis
    proof (cases "walk t root ks")
      case None
      then have "ks \<noteq> is" using x(1) by auto
      with None IH show ?thesis by (simp add: walk_snoc)
    next
      case (Some f)
      then have "f \<noteq> new" using ks new by (auto simp: tables_def)
      moreover have "ks = is \<Longrightarrow> f = x" using Some x(1) by simp
      moreover have "f = x \<Longrightarrow> ks = is" using tree_okD [OF tree _ xs(1), of ks x] ks Some x(1) by simp
      moreover have "walk t' root (ks @ [k])
          = (if t' f k AND VMM_PRESENT \<noteq> 0 then Some (pte_addr (t' f k)) else None)"
        using IH Some by (simp add: walk_snoc)
      moreover have "walk t root (ks @ [k])
          = (if t f k AND VMM_PRESENT \<noteq> 0 then Some (pte_addr (t f k)) else None)"
        using Some by (simp add: walk_snoc)
      ultimately show ?thesis using at [of f k] e by auto
    qed
  qed
qed

text \<open>Changing an entry of a last-level table changes no path.\<close>

lemma walk_leaf:
  assumes tree: "tree_ok t root" and x: "walk t root is = Some x" "is_path is" "length is = 3"
  shows "is_path js \<Longrightarrow> walk (t(x := g)) root js = walk t root js"
proof (induction js rule: rev_induct)
  case (snoc k ks)
  note ks = is_path_snoc [OF snoc.prems]
  then have "f \<noteq> x" if "walk t root ks = Some f" for f
    using tree_okD [OF tree _ x(2) _ x(1)] that x(3) by auto
  with snoc.IH ks show ?case by (auto simp: walk_snoc split: option.split)
qed simp

section \<open>The invariant\<close>

text \<open>
  The tables of an address space form a tree, and none of them is a free page of the allocator.
  Physical memory lies below \<open>2^52\<close>, the largest address an entry can hold.
\<close>

definition vmm_ok :: "vmm \<Rightarrow> bool" where
  "vmm_ok s \<longleftrightarrow> kmem_ok (v_heap s) \<and>
    (\<forall>rc. v_refs s = Some rc \<longrightarrow> v_max s \<le> length rc) \<and>
    0 < lowest_address (v_heap s) \<and> lowest_address (v_heap s) mod PAGE_SIZE = 0 \<and>
    lowest_address (v_heap s) + num_pages_in_map (v_heap s) * PAGE_SIZE \<le> 2 ^ 52"

definition space_ok :: "vmm \<Rightarrow> nat \<Rightarrow> bool" where
  "space_ok s root \<longleftrightarrow> vmm_ok s \<and> tree_ok (v_tab s) root \<and>
    (\<forall>p \<in> free_pages (v_heap s). frame_phys (v_heap s) p \<notin> tables (v_tab s) root)"

lemma vmm_alloc_frame_cases:
  assumes ok: "vmm_ok s"
  shows "(\<exists>p s'. vmm_alloc_frame s = Some (frame_phys (v_heap s) p, s') \<and>
      p \<in> free_pages (v_heap s) \<and> v_tab s' = (v_tab s)(frame_phys (v_heap s) p := (\<lambda>_. 0)) \<and>
      v_kpml4 s' = v_kpml4 s \<and> vmm_ok s' \<and> same_map (v_heap s) (v_heap s') \<and>
      free_pages (v_heap s') = free_pages (v_heap s) - {p}) \<or>
    vmm_alloc_frame s = Some (0, s) \<and>
      (max_pages_available (v_heap s) < 4 \<or> free_pages (v_heap s) = {})"
proof -
  have k: "kmem_ok (v_heap s)" and rc: "\<And>rc. v_refs s = Some rc \<Longrightarrow> v_max s \<le> length rc"
    using ok by (simp_all add: vmm_ok_def)
  from kalloc_page [OF k] show ?thesis
  proof (elim disjE exE conjE)
    fix p h'
    let ?phys = "frame_phys (v_heap s) p"
    assume a: "kalloc (v_heap s) PAGE_SIZE = Some (Some (page_addr (v_heap s) p), h')"
      "p < num_pages_in_map (v_heap s)" "kmem_ok h'" "same_map (v_heap s) h'" "p \<in> free_pages (v_heap s)"
      "free_pages h' = free_pages (v_heap s) - {p}"
    have v: "virt_to_phys h' (page_addr (v_heap s) p) = ?phys"
      using frame_of_page [OF kmem_ok_layout [OF k] a(2)] a(4) by (simp add: virt_to_phys_def same_map_def)
    let ?s1 = "s\<lparr>v_heap := h', v_tab := (v_tab s)(?phys := (\<lambda>_. 0))\<rparr>"
    have ok1: "vmm_ok ?s1" using ok a(3,4) by (simp add: vmm_ok_def same_map_def)
    obtain s' where s': "vmm_alloc_frame s = Some (?phys, s')" "v_heap s' = h'" "v_kpml4 s' = v_kpml4 s"
      "v_tab s' = (v_tab s)(?phys := (\<lambda>_. 0))" "vmm_ok s'"
    proof (cases "v_refs s")
      case None
      with a(1) v that [of ?s1] ok1 show ?thesis by (simp add: vmm_alloc_frame_def Let_def)
    next
      case (Some r)
      with a(1) v that [of "if ?phys div PAGE_SIZE < v_max s
          then ?s1\<lparr>v_refs := Some (r[?phys div PAGE_SIZE := 0])\<rparr> else ?s1"] ok1 rc [OF Some]
      show ?thesis by (auto simp: vmm_alloc_frame_def vmm_ok_def Let_def split: if_splits)
    qed
    with a(4,5,6) show ?thesis by (intro disjI1 exI [of _ p] exI [of _ s']) simp
  next
    assume "kalloc (v_heap s) PAGE_SIZE = Some (None, v_heap s)" "max_pages_available (v_heap s) < 4"
    then show ?thesis by (simp add: vmm_alloc_frame_def)
  next
    assume "kalloc (v_heap s) PAGE_SIZE = Some (None, v_heap s)" "free_pages (v_heap s) = {}"
    then show ?thesis by (simp add: vmm_alloc_frame_def)
  qed
qed

lemma frame_phys_entry:
  assumes ok: "vmm_ok s" and p: "p < num_pages_in_map (v_heap s)" and f: "f AND PTE_ADDR_MASK = 0"
  shows "pte_addr (of_nat (frame_phys (v_heap s) p) OR f) = frame_phys (v_heap s) p"
    "frame_phys (v_heap s) p \<noteq> 0"
proof -
  have "p * PAGE_SIZE + PAGE_SIZE \<le> num_pages_in_map (v_heap s) * PAGE_SIZE"
    using p by (metis Suc_leI add.commute mult_Suc mult_le_mono1)
  then have "frame_phys (v_heap s) p < 2 ^ 52"
    using ok unfolding vmm_ok_def frame_phys_def PAGE_SIZE_def by linarith
  moreover have "frame_phys (v_heap s) p mod PAGE_SIZE = 0" using ok by (simp add: vmm_ok_def frame_phys_def)
  ultimately show "pte_addr (of_nat (frame_phys (v_heap s) p) OR f) = frame_phys (v_heap s) p"
    using f by (intro pte_addr_of_nat)
  show "frame_phys (v_heap s) p \<noteq> 0" using ok by (simp add: vmm_ok_def frame_phys_def)
qed

section \<open>What the walk sees\<close>

text \<open>
  The entry of a page, by the path to its page table; pages without a table have the entry 0.
  \<open>extends\<close> relates states in which every page has the same entry and no table has gone.
\<close>

definition leaf :: "vmm \<Rightarrow> nat \<Rightarrow> nat list \<Rightarrow> nat \<Rightarrow> u64" where
  "leaf s root is i = (case walk (v_tab s) root is of None \<Rightarrow> 0 | Some pt \<Rightarrow> v_tab s pt i)"

definition extends :: "nat \<Rightarrow> vmm \<Rightarrow> vmm \<Rightarrow> bool" where
  "extends root s s' \<longleftrightarrow> space_ok s' root \<and> v_kpml4 s' = v_kpml4 s \<and>
    (\<forall>is f. is_path is \<and> walk (v_tab s) root is = Some f \<longrightarrow> walk (v_tab s') root is = Some f) \<and>
    (\<forall>is i. is_path is \<and> length is = 3 \<longrightarrow> leaf s' root is i = leaf s root is i)"

lemma extends_refl: "space_ok s root \<Longrightarrow> extends root s s"
  by (simp add: extends_def)

lemma extends_trans: "extends root s s1 \<Longrightarrow> extends root s1 s2 \<Longrightarrow> extends root s s2"
  unfolding extends_def by metis

lemma flags_mask:
  "VMM_PRESENT AND PTE_ADDR_MASK = 0" "VMM_WRITABLE AND PTE_ADDR_MASK = 0" "VMM_USER AND PTE_ADDR_MASK = 0"
  "VMM_PRESENT AND VMM_PRESENT = VMM_PRESENT" "VMM_PRESENT \<noteq> 0"
  by (simp_all add: VMM_PRESENT_def VMM_WRITABLE_def VMM_USER_def PTE_ADDR_MASK_def)

lemma or_present: "(a OR VMM_PRESENT OR b) AND VMM_PRESENT \<noteq> 0"
proof -
  have "bit ((a OR VMM_PRESENT OR b) AND VMM_PRESENT) 0" by (simp add: bit_simps VMM_PRESENT_def)
  then show ?thesis by (metis bit_0_eq bot_apply bot_bool_def)
qed

text \<open>The pages that stay free after one is taken are neither the new frame nor a table.\<close>

lemma free_frames_kept:
  assumes ok: "space_ok s root" and p: "p \<in> free_pages (v_heap s)"
    and h: "same_map (v_heap s) h" "free_pages h = free_pages (v_heap s) - {p}" and q: "q \<in> free_pages h"
  shows "frame_phys h q \<noteq> frame_phys (v_heap s) p" "frame_phys h q \<notin> tables (v_tab s) root"
proof -
  from q h(2) have q': "q \<in> free_pages (v_heap s)" "q \<noteq> p" by auto
  then have "frame_phys (v_heap s) q \<notin> tables (v_tab s) root" using ok by (simp add: space_ok_def)
  with q'(2) h(1) show "frame_phys h q \<noteq> frame_phys (v_heap s) p" "frame_phys h q \<notin> tables (v_tab s) root"
    by (simp_all add: frame_phys_def same_map_def PAGE_SIZE_def)
qed

text \<open>A table that is missing is created; the pages keep their entries.\<close>

lemma hook_extends:
  assumes ok: "space_ok s root" and x: "walk (v_tab s) root is = Some x" "is_path (is @ [i])"
    and absent: "v_tab s x i AND VMM_PRESENT = 0"
    and a: "p \<in> free_pages (v_heap s)" "new = frame_phys (v_heap s) p"
      "v_tab s1 = (v_tab s)(new := (\<lambda>_. 0))" "vmm_ok s1" "same_map (v_heap s) (v_heap s1)"
      "free_pages (v_heap s1) = free_pages (v_heap s) - {p}" "v_kpml4 s1 = v_kpml4 s"
    and e: "e AND VMM_PRESENT \<noteq> 0" "pte_addr e = new"
  shows "extends root s (set_entry s1 x i e)" "walk (v_tab (set_entry s1 x i e)) root (is @ [i]) = Some new"
proof -
  let ?t = "v_tab s" and ?t' = "v_tab (set_entry s1 x i e)" and ?s' = "set_entry s1 x i e"
  have tree: "tree_ok ?t root" and new: "new \<notin> tables ?t root"
    using ok a(1,2) by (auto simp: space_ok_def)
  have t': "?t' = (?t(new := (\<lambda>_. 0)))(x := ((?t(new := (\<lambda>_. 0))) x)(i := e))"
    by (simp add: set_entry_def a(3))
  note w = walk_hook [OF tree x absent new e t']
  show wn: "walk ?t' root (is @ [i]) = Some new" using w [OF x(2)] by simp
  have pi: "is_path is" "length is \<le> 2" using is_path_snoc [OF x(2)] by simp_all
  have mem: "f \<in> tables ?t root" if "is_path js" "walk ?t root js = Some f" for js f
    using that by (auto simp: tables_def)
  have xn: "x \<noteq> new" using mem [OF pi(1) x(1)] new by auto
  have old: "walk ?t root (is @ [i]) = None" using x(1) absent by (simp add: walk_snoc)
  have "tree_ok ?t' root"
    unfolding tree_ok_def
  proof (intro allI impI, elim conjE)
    fix js ks f
    assume j: "is_path js" "is_path ks" "walk ?t' root js = Some f" "walk ?t' root ks = Some f"
    then show "js = ks"
      using w [OF j(1)] w [OF j(2)] mem [OF j(1)] mem [OF j(2)] new tree_okD [OF tree j(1,2)]
      by (auto split: if_splits)
  qed
  moreover have sub: "tables ?t' root \<subseteq> insert new (tables ?t root)"
    using w by (auto simp: tables_def split: if_splits)
  have "frame_phys (v_heap s1) q \<notin> tables ?t' root" if q: "q \<in> free_pages (v_heap s1)" for q
    using free_frames_kept [OF ok a(1,5,6) q] sub a(2) by auto
  moreover have "vmm_ok ?s'" using a(4) by (simp add: set_entry_def vmm_ok_def)
  moreover have "v_heap ?s' = v_heap s1" by (simp add: set_entry_def)
  ultimately have sp: "space_ok ?s' root" unfolding space_ok_def by simp
  have "leaf ?s' root js j = leaf s root js j" if j: "is_path js" "length js = 3" for js j
  proof (cases "js = is @ [i]")
    case True
    with w [OF j(1)] old xn show ?thesis by (simp add: leaf_def t')
  next
    case False
    have "f \<noteq> new \<and> f \<noteq> x" if "walk ?t root js = Some f" for f
      using mem [OF j(1) that] new tree_okD [OF tree j(1) pi(1) _ x(1)] that j(2) pi(2) by auto
    with False w [OF j(1)] show ?thesis by (auto simp: leaf_def t' split: option.split)
  qed
  moreover have "walk ?t' root js = Some f" if "is_path js" "walk ?t root js = Some f" for js f
    using w [OF that(1)] that(2) old by auto
  ultimately show "extends root s ?s'" using sp a(7) by (simp add: extends_def set_entry_def)
qed

lemma next_level_create:
  assumes ok: "space_ok s root" and x: "walk (v_tab s) root is = Some x" "is_path (is @ [i])"
    and pf: "pf = 0 \<or> pf = VMM_USER"
  shows "\<exists>r s'. vmm_get_next_level s x i True pf = Some (r, s') \<and> extends root s s' \<and>
    (case r of None \<Rightarrow> s' = s \<and> (max_pages_available (v_heap s) < 4 \<or> free_pages (v_heap s) = {})
     | Some f \<Rightarrow> walk (v_tab s') root (is @ [i]) = Some f)"
proof (cases "v_tab s x i AND VMM_PRESENT \<noteq> 0")
  case True
  then have "walk (v_tab s) root (is @ [i]) = Some (pte_addr (v_tab s x i))"
    using x(1) by (simp add: walk_snoc)
  with True extends_refl [OF ok] show ?thesis by (simp add: vmm_get_next_level_def)
next
  case False
  then have absent: "v_tab s x i AND VMM_PRESENT = 0" by simp
  have vok: "vmm_ok s" using ok by (simp add: space_ok_def)
  from vmm_alloc_frame_cases [OF vok] show ?thesis
  proof (elim disjE exE conjE)
    fix p s1
    let ?new = "frame_phys (v_heap s) p"
    let ?e = "of_nat ?new OR VMM_PRESENT OR VMM_WRITABLE OR pf"
    assume al: "vmm_alloc_frame s = Some (?new, s1)" and a: "p \<in> free_pages (v_heap s)"
      "v_tab s1 = (v_tab s)(?new := (\<lambda>_. 0))" "v_kpml4 s1 = v_kpml4 s" "vmm_ok s1"
      "same_map (v_heap s) (v_heap s1)" "free_pages (v_heap s1) = free_pages (v_heap s) - {p}"
    have p: "p < num_pages_in_map (v_heap s)" using a(1) by (simp add: free_pages_def)
    have "(VMM_PRESENT OR VMM_WRITABLE OR pf) AND PTE_ADDR_MASK = 0"
      using pf flags_mask by (auto simp: bit.conj_disj_distrib2)
    note f = frame_phys_entry [OF vok p this]
    have "?e AND VMM_PRESENT \<noteq> 0" using or_present [of "of_nat ?new" "VMM_WRITABLE OR pf"] by simp
    note h = hook_extends [OF ok x absent a(1) refl a(2,4-6,3) this f(1)]
    show ?thesis
      using False al f(2) h by (intro exI [of _ "Some ?new"] exI [of _ "set_entry s1 x i ?e"])
        (simp add: vmm_get_next_level_def)
  qed (use False extends_refl [OF ok] in \<open>auto simp: vmm_get_next_level_def\<close>)
qed

section \<open>Mapping and looking up\<close>

definition va_path :: "u64 \<Rightarrow> nat list" where
  "va_path va = [PML4_INDEX va, PDP_INDEX va, PD_INDEX va]"

lemma index_bound: "unat (w AND 0x1FF :: u64) < 512"
proof -
  have "w AND 0x1FF = take_bit 9 w" by (simp add: take_bit_eq_mask mask_numeral)
  then have "unat (w AND 0x1FF) = take_bit 9 (unat w)" by (simp only: unsigned_take_bit_eq)
  also have "\<dots> < 2 ^ 9" by (rule take_bit_nat_less_exp)
  finally show ?thesis by simp
qed

lemma va_path_ok: "is_path (va_path va)" "length (va_path va) = 3"
  using index_bound by (simp_all add: is_path_def va_path_def PML4_INDEX_def PDP_INDEX_def PD_INDEX_def)

lemma next_level_lookup:
  "vmm_get_next_level s f i False pf = Some (walk (v_tab s) f [i], s)"
  by (simp add: vmm_get_next_level_def)

lemma vmm_walk_lookup: "vmm_walk s root va False pf = Some (walk (v_tab s) root (va_path va), s)"
  by (simp add: vmm_walk_def next_level_lookup va_path_def)

definition no_memory :: "vmm \<Rightarrow> bool" where
  "no_memory s \<longleftrightarrow> max_pages_available (v_heap s) < 4 \<or> free_pages (v_heap s) = {}"

lemma next_level_created:
  assumes "space_ok s root" and "walk (v_tab s) root is = Some x" and "is_path (is @ [i])"
    and "pf = 0 \<or> pf = VMM_USER"
  obtains r s' where "vmm_get_next_level s x i True pf = Some (r, s')" and "extends root s s'"
    and "space_ok s' root" and "r = None \<Longrightarrow> no_memory s'"
    and "\<And>f. r = Some f \<Longrightarrow> walk (v_tab s') root (is @ [i]) = Some f"
  using next_level_create [OF assms] by (force simp: extends_def no_memory_def split: option.splits)

lemma vmm_walk_create:
  assumes ok: "space_ok s root" and pf: "pf = 0 \<or> pf = VMM_USER"
  shows "\<exists>r s'. vmm_walk s root va True pf = Some (r, s') \<and> extends root s s' \<and>
    (case r of None \<Rightarrow> no_memory s' | Some pt \<Rightarrow> walk (v_tab s') root (va_path va) = Some pt)"
proof -
  let ?i = "PML4_INDEX va" and ?j = "PDP_INDEX va" and ?k = "PD_INDEX va"
  have path: "is_path ([] @ [?i])" "is_path ([?i] @ [?j])" "is_path ([?i, ?j] @ [?k])"
    using va_path_ok(1) [of va] by (auto simp: is_path_def va_path_def)
  have root: "walk (v_tab s) root [] = Some root" by simp
  from next_level_created [OF ok root path(1) pf] obtain r1 s1 where
    1: "vmm_get_next_level s root ?i True pf = Some (r1, s1)" "extends root s s1" "space_ok s1 root"
      "r1 = None \<Longrightarrow> no_memory s1" "\<And>f. r1 = Some f \<Longrightarrow> walk (v_tab s1) root [?i] = Some f"
    by auto
  show ?thesis
  proof (cases r1)
    case None
    with 1 show ?thesis by (simp add: vmm_walk_def)
  next
    case (Some pdpt)
    from next_level_created [OF 1(3) 1(5) [OF Some] path(2) pf] obtain r2 s2 where
      2: "vmm_get_next_level s1 pdpt ?j True pf = Some (r2, s2)" "extends root s1 s2" "space_ok s2 root"
        "r2 = None \<Longrightarrow> no_memory s2" "\<And>f. r2 = Some f \<Longrightarrow> walk (v_tab s2) root [?i, ?j] = Some f"
      by (metis append_Cons append_Nil)
    note e2 = extends_trans [OF 1(2) 2(2)]
    show ?thesis
    proof (cases r2)
      case None
      with 1(1) 2 Some e2 show ?thesis by (simp add: vmm_walk_def)
    next
      case s2: (Some pd)
      from next_level_created [OF 2(3) 2(5) [OF s2] path(3) pf] obtain r3 s3 where
        3: "vmm_get_next_level s2 pd ?k True pf = Some (r3, s3)" "extends root s2 s3"
          "r3 = None \<Longrightarrow> no_memory s3" "\<And>f. r3 = Some f \<Longrightarrow> walk (v_tab s3) root [?i, ?j, ?k] = Some f"
        by (metis append_Cons append_Nil)
      from extends_trans [OF e2 3(2)] 1(1) 2(1) 3(1,3,4) Some s2 show ?thesis
        by (auto simp: vmm_walk_def va_path_def split: option.split)
    qed
  qed
qed

lemma is_mapped_leaf:
  "vmm_is_mapped_in s (Some root) va =
    Some (if leaf s root (va_path va) (PT_INDEX va) AND VMM_PRESENT \<noteq> 0
          then leaf s root (va_path va) (PT_INDEX va) AND PTE_ADDR_MASK else 0)"
  by (simp add: vmm_is_mapped_in_def vmm_walk_lookup leaf_def split: option.split)

text \<open>Writing the entry of one page.\<close>

lemma set_leaf:
  assumes ok: "space_ok s root" and pt: "walk (v_tab s) root is = Some pt" "is_path is" "length is = 3"
  shows "space_ok (set_entry s pt i e) root"
    "is_path js \<Longrightarrow> length js = 3 \<Longrightarrow>
     leaf (set_entry s pt i e) root js j = (if js = is \<and> j = i then e else leaf s root js j)"
proof -
  let ?s' = "set_entry s pt i e"
  have tree: "tree_ok (v_tab s) root" using ok by (simp add: space_ok_def)
  have w: "walk (v_tab ?s') root js = walk (v_tab s) root js" if "is_path js" for js
    using walk_leaf [OF tree pt that] by (simp add: set_entry_def)
  have "tree_ok (v_tab ?s') root"
    unfolding tree_ok_def
  proof (intro allI impI, elim conjE)
    fix js ks f
    assume "is_path js" "is_path ks" "walk (v_tab ?s') root js = Some f" "walk (v_tab ?s') root ks = Some f"
    then show "js = ks" using tree_okD [OF tree, of js ks f] w [of js] w [of ks] by simp
  qed
  moreover have "tables (v_tab ?s') root = tables (v_tab s) root"
    unfolding tables_def by (intro Collect_cong ex_cong conj_cong refl) (simp add: w)
  ultimately show "space_ok ?s' root" using ok by (simp add: space_ok_def set_entry_def vmm_ok_def)
  assume j: "is_path js" "length js = 3"
  have "f \<noteq> pt" if "walk (v_tab s) root js = Some f" "js \<noteq> is" for f
    using tree_okD [OF tree j(1) pt(2), of pt] that pt(1) by auto
  then show "leaf ?s' root js j = (if js = is \<and> j = i then e else leaf s root js j)"
    using w [OF j(1)] pt(1) by (auto simp: leaf_def set_entry_def split: option.split)
qed

text \<open>Two addresses lie on the same page when their bits 12 to 47 agree.\<close>

definition same_page :: "u64 \<Rightarrow> u64 \<Rightarrow> bool" where
  "same_page va va' \<longleftrightarrow> take_bit 36 (drop_bit 12 va) = take_bit 36 (drop_bit 12 va')"

lemma take_drop_eq_iff:
  "take_bit m (drop_bit k v) = take_bit m (drop_bit k (w :: u64)) \<longleftrightarrow> (\<forall>n < m. bit v (k + n) = bit w (k + n))"
proof
  assume eq: "take_bit m (drop_bit k v) = take_bit m (drop_bit k w)"
  show "\<forall>n < m. bit v (k + n) = bit w (k + n)"
  proof (intro allI impI)
    fix n assume "n < m"
    with arg_cong [OF eq, of "\<lambda>u. bit u n"] show "bit v (k + n) = bit w (k + n)"
      by (simp add: bit_take_bit_iff bit_drop_bit_eq)
  qed
next
  assume "\<forall>n < m. bit v (k + n) = bit w (k + n)"
  then show "take_bit m (drop_bit k v) = take_bit m (drop_bit k w)"
    by (intro bit_eqI) (auto simp: bit_take_bit_iff bit_drop_bit_eq)
qed

lemma index_eq_iff:
  "unat (drop_bit k v AND 0x1FF :: u64) = unat (drop_bit k w AND 0x1FF :: u64) \<longleftrightarrow>
   (\<forall>n < 9. bit v (k + n) = bit w (k + n))"
proof -
  have m: "u AND 0x1FF = take_bit 9 u" for u :: u64 by (simp add: take_bit_eq_mask mask_numeral)
  show ?thesis unfolding m word_unat_eq_iff [symmetric] take_drop_eq_iff ..
qed

lemma same_page_iff: "same_page va va' \<longleftrightarrow> va_path va = va_path va' \<and> PT_INDEX va = PT_INDEX va'"
proof -
  let ?same = "\<lambda>k n. bit va (k + n) = bit va' (k + n)"
  have "(\<forall>n < 36. ?same 12 n) \<longleftrightarrow>
      (\<forall>n < 9. ?same 39 n) \<and> (\<forall>n < 9. ?same 30 n) \<and> (\<forall>n < 9. ?same 21 n) \<and> (\<forall>n < 9. ?same 12 n)"
    by (simp add: numeral_eq_Suc All_less_Suc)
  then show ?thesis
    by (simp add: same_page_def take_drop_eq_iff va_path_def PML4_INDEX_def PDP_INDEX_def PD_INDEX_def
        PT_INDEX_def index_eq_iff)
qed

lemma extends_lookup:
  "extends root s s' \<Longrightarrow> vmm_is_mapped_in s' (Some root) va = vmm_is_mapped_in s (Some root) va"
  using va_path_ok [of va] by (simp add: is_mapped_leaf extends_def)

lemma entry_bits:
  assumes "flags AND PTE_ADDR_MASK = 0"
  shows "((pa AND PTE_ADDR_MASK) OR flags OR VMM_PRESENT) AND PTE_ADDR_MASK = pa AND PTE_ADDR_MASK"
    "((pa AND PTE_ADDR_MASK) OR flags OR VMM_PRESENT) AND VMM_PRESENT \<noteq> 0"
  using assms or_present [of "(pa AND PTE_ADDR_MASK) OR flags" 0]
  by (simp_all add: bit.conj_disj_distrib2 flags_mask and.assoc or.assoc)

lemma set_leaf_lookup:
  assumes ok: "space_ok s root" and pt: "walk (v_tab s) root (va_path va) = Some pt"
  shows "vmm_is_mapped_in (set_entry s pt (PT_INDEX va) e) (Some root) va' =
    (if same_page va va' then Some (if e AND VMM_PRESENT \<noteq> 0 then e AND PTE_ADDR_MASK else 0)
     else vmm_is_mapped_in s (Some root) va')"
  using set_leaf(2) [OF ok pt va_path_ok va_path_ok [of va']]
  by (auto simp: is_mapped_leaf same_page_iff)

section \<open>New address spaces\<close>

lemma walk_same_tables:
  assumes same: "\<And>f. f \<in> tables t root \<Longrightarrow> t' f = t f"
  shows "is_path js \<Longrightarrow> walk t' root js = walk t root js"
proof (induction js rule: rev_induct)
  case (snoc k ks)
  then have ks: "is_path ks" "walk t' root ks = walk t root ks" using is_path_snoc by blast+
  have "t' f = t f" if "walk t root ks = Some f" for f
    using same that ks(1) by (auto simp: tables_def)
  with ks(2) show ?case by (auto simp: walk_snoc split: option.split)
qed simp

text \<open>The kernel's tables keep their contents and the fresh root copies the upper half.\<close>

lemma create_walks:
  assumes new: "new \<notin> tables t kp"
    and t': "t' = t(new := (\<lambda>i. if i < 256 then 0 else if i < 512 then t kp i else g i))"
  shows "is_path js \<Longrightarrow> walk t' kp js = walk t kp js"
    and "is_path (i # is) \<Longrightarrow> walk t' new (i # is) = (if i < 256 then None else walk t kp (i # is))"
proof -
  have "kp \<in> tables t kp" by (auto simp: tables_def is_path_def intro: exI [of _ "[]"])
  then have "new \<noteq> kp" using new by auto
  have w: "walk t' kp js = walk t kp js" if "is_path js" for js
    by (rule walk_same_tables [OF _ that]) (use new in \<open>auto simp: t'\<close>)
  show "is_path js \<Longrightarrow> walk t' kp js = walk t kp js" by (rule w)
  show "walk t' new (i # is) = (if i < 256 then None else walk t kp (i # is))" if p: "is_path (i # is)"
  proof -
    have "i < 512" using p by (simp add: is_path_def)
    then have "t' new i = (if i < 256 then 0 else t' kp i)" using \<open>new \<noteq> kp\<close> by (simp add: t')
    then have "walk t' new (i # is) = (if i < 256 then None else walk t' kp (i # is))" by simp
    with w [OF p] show ?thesis by simp
  qed
qed

lemma create_tree:
  assumes tree: "tree_ok t kp" and new: "new \<notin> tables t kp"
    and t': "t' = t(new := (\<lambda>i. if i < 256 then 0 else if i < 512 then t kp i else g i))"
  shows "tree_ok t' kp" "tree_ok t' new" "tables t' kp = tables t kp" "tables t' new \<subseteq> insert new (tables t kp)"
proof -
  note w = create_walks [OF new t']
  have sub: "f \<in> tables t kp" if "is_path js" "walk t kp js = Some f" for js f
    using that by (auto simp: tables_def)
  have up: "js \<noteq> [] \<and> walk t kp js = Some f \<or> js = [] \<and> f = new"
    if "is_path js" "walk t' new js = Some f" for js f
    using that w(2) by (cases js) (auto split: if_splits)
  show "tables t' kp = tables t kp"
    unfolding tables_def by (intro Collect_cong ex_cong conj_cong refl) (simp add: w(1))
  show "tables t' new \<subseteq> insert new (tables t kp)"
    using up sub unfolding tables_def by blast
  show "tree_ok t' kp"
    unfolding tree_ok_def
  proof (intro allI impI, elim conjE)
    fix js ks f
    assume "is_path js" "is_path ks" "walk t' kp js = Some f" "walk t' kp ks = Some f"
    then show "js = ks" using tree_okD [OF tree, of js ks f] w(1) [of js] w(1) [of ks] by simp
  qed
  show "tree_ok t' new"
    unfolding tree_ok_def
  proof (intro allI impI, elim conjE)
    fix js ks f
    assume j: "is_path js" "is_path ks" "walk t' new js = Some f" "walk t' new ks = Some f"
    then show "js = ks"
      using up [OF j(1,3)] up [OF j(2,4)] tree_okD [OF tree j(1,2), of f] sub [OF j(1), of f] sub [OF j(2), of f] new
      by auto
  qed
qed

lemma create_lookup:
  assumes new: "new \<notin> tables (v_tab s) kp"
    and t': "v_tab s' = (v_tab s)(new := (\<lambda>i. if i < 256 then 0 else if i < 512 then v_tab s kp i else g i))"
  shows "vmm_is_mapped_in s' (Some kp) va = vmm_is_mapped_in s (Some kp) va"
    "vmm_is_mapped_in s' (Some new) va = (if PML4_INDEX va < 256 then Some 0 else vmm_is_mapped_in s (Some kp) va)"
proof -
  note w = create_walks [OF new t']
  have "f \<noteq> new" if "walk (v_tab s) kp (va_path va) = Some f" for f
    using that new va_path_ok(1) by (auto simp: tables_def)
  then have same: "v_tab s' f = v_tab s f" if "walk (v_tab s) kp (va_path va) = Some f" for f
    using that by (simp add: t')
  show "vmm_is_mapped_in s' (Some kp) va = vmm_is_mapped_in s (Some kp) va"
    using w(1) [OF va_path_ok(1)] same by (simp add: is_mapped_leaf leaf_def split: option.split)
  have "walk (v_tab s') new (va_path va) = (if PML4_INDEX va < 256 then None else walk (v_tab s) kp (va_path va))"
    using w(2) [of "PML4_INDEX va" "[PDP_INDEX va, PD_INDEX va]"] va_path_ok(1) [of va]
    by (simp add: va_path_def)
  then show "vmm_is_mapped_in s' (Some new) va =
      (if PML4_INDEX va < 256 then Some 0 else vmm_is_mapped_in s (Some kp) va)"
    using same by (simp add: is_mapped_leaf leaf_def split: option.split)
qed

section \<open>Mapping one page\<close>

lemma vmm_map_page_ok:
  assumes ok: "space_ok s root" and flags: "flags AND PTE_ADDR_MASK = 0"
  shows "\<exists>r s'. vmm_map_page_in s (Some root) va pa flags = Some (r, s') \<and> space_ok s' root \<and>
    (r = 0 \<and> (\<forall>va'. vmm_is_mapped_in s' (Some root) va' =
        (if same_page va va' then Some (pa AND PTE_ADDR_MASK) else vmm_is_mapped_in s (Some root) va')) \<or>
     r = - 1 \<and> no_memory s' \<and>
       (\<forall>va'. vmm_is_mapped_in s' (Some root) va' = vmm_is_mapped_in s (Some root) va'))"
proof -
  let ?pf = "if flags AND VMM_USER \<noteq> 0 then VMM_USER else 0"
  let ?e = "(pa AND PTE_ADDR_MASK) OR flags OR VMM_PRESENT"
  obtain r s1 where w: "vmm_walk s root va True ?pf = Some (r, s1)" "extends root s s1"
    "case r of None \<Rightarrow> no_memory s1 | Some pt \<Rightarrow> walk (v_tab s1) root (va_path va) = Some pt"
    using vmm_walk_create [OF ok, of ?pf va] by (cases "flags AND VMM_USER \<noteq> 0") auto
  have ok1: "space_ok s1 root" using w(2) by (simp add: extends_def)
  note same = extends_lookup [OF w(2)]
  show ?thesis
  proof (cases r)
    case None
    with w ok1 show ?thesis by (simp add: vmm_map_page_in_def same Let_def)
  next
    case (Some pt)
    with w(3) have pt: "walk (v_tab s1) root (va_path va) = Some pt" by simp
    from set_leaf(1) [OF ok1 pt va_path_ok] Some w(1) show ?thesis
      by (simp add: vmm_map_page_in_def Let_def set_leaf_lookup [OF ok1 pt] entry_bits [OF flags] same)
  qed
qed

section \<open>Mapping a range\<close>

lemma page_number: "unat (take_bit 36 (drop_bit 12 (v :: u64))) = unat v div 4096 mod 2 ^ 36"
proof -
  have "unat v < 2 ^ LENGTH(64)" by (rule unsigned_less)
  then show ?thesis
    by (simp only: unsigned_take_bit_eq unsigned_drop_bit_eq) (simp add: take_bit_eq_mod drop_bit_eq_div)
qed

lemma offset_page:
  "unat (take_bit 36 (drop_bit 12 (virt + of_nat i * of_nat PAGE_SIZE :: u64))) =
    (unat virt div 4096 + i) mod 2 ^ 36"
proof -
  have "unat (virt + of_nat i * of_nat PAGE_SIZE :: u64) = (unat virt + i * 4096) mod 2 ^ 64"
    by (simp add: PAGE_SIZE_def unat_word_ariths unat_of_nat mod_simps)
  moreover have "(m mod 2 ^ 64) div 4096 mod 2 ^ 36 = m div 4096 mod 2 ^ 36" for m :: nat
  proof -
    have "m mod (4096 * 2 ^ 52) = 4096 * (m div 4096 mod 2 ^ 52) + m mod 4096" by (rule mod_mult2_eq)
    then have "(m mod 2 ^ 64) div 4096 = m div 4096 mod 2 ^ 52" by simp
    moreover have "(m div 4096 mod 2 ^ 52) mod 2 ^ 36 = m div 4096 mod (2 :: nat) ^ 36"
      by (rule mod_mod_cancel) (simp add: le_imp_power_dvd)
    ultimately show ?thesis by simp
  qed
  ultimately show ?thesis by (simp only: page_number) (simp add: add.commute)
qed

lemma same_page_offset:
  assumes "i < 2 ^ 36" and "j < 2 ^ 36"
  shows "same_page (virt + of_nat i * of_nat PAGE_SIZE) (virt + of_nat j * of_nat PAGE_SIZE) \<longleftrightarrow> i = j"
proof
  assume "same_page (virt + of_nat i * of_nat PAGE_SIZE) (virt + of_nat j * of_nat PAGE_SIZE)"
  then have "(unat virt div 4096 + i) mod 2 ^ 36 = (unat virt div 4096 + j) mod 2 ^ 36"
    unfolding same_page_def word_unat_eq_iff offset_page .
  then have "i mod 2 ^ 36 = j mod 2 ^ 36" by (simp add: mod_add_cong nat_mod_eq_iff)
  with assms show "i = j" by simp
qed (simp add: same_page_def)

lemma map_range_from_ok:
  assumes "space_ok s root" and flags: "flags AND PTE_ADDR_MASK = 0" and "i + n \<le> 2 ^ 36"
  shows "\<exists>r s' k. map_range_from s (Some root) virt phys flags (of_nat i) n = Some (r, s') \<and>
    space_ok s' root \<and> i \<le> k \<and> (r = 0 \<and> k = i + n \<or> r = - 1 \<and> k < i + n \<and> no_memory s') \<and>
    (\<forall>j. i \<le> j \<and> j < k \<longrightarrow> vmm_is_mapped_in s' (Some root) (virt + of_nat j * of_nat PAGE_SIZE)
        = Some ((phys + of_nat j * of_nat PAGE_SIZE) AND PTE_ADDR_MASK)) \<and>
    (\<forall>va. (\<forall>j. i \<le> j \<and> j < k \<longrightarrow> \<not> same_page (virt + of_nat j * of_nat PAGE_SIZE) va) \<longrightarrow>
        vmm_is_mapped_in s' (Some root) va = vmm_is_mapped_in s (Some root) va)"
  using assms(1,3)
proof (induction n arbitrary: s i)
  case 0
  show ?case by (rule exI [of _ 0], rule exI [of _ s], rule exI [of _ i]) (use 0 in auto)
next
  case (Suc n)
  let ?v = "\<lambda>j. virt + of_nat j * of_nat PAGE_SIZE" and ?p = "\<lambda>j. phys + of_nat j * of_nat PAGE_SIZE"
  obtain r1 s1 where m: "vmm_map_page_in s (Some root) (?v i) (?p i) flags = Some (r1, s1)" "space_ok s1 root"
    "r1 = 0 \<and> (\<forall>va. vmm_is_mapped_in s1 (Some root) va =
        (if same_page (?v i) va then Some (?p i AND PTE_ADDR_MASK) else vmm_is_mapped_in s (Some root) va)) \<or>
     r1 = - 1 \<and> no_memory s1 \<and> (\<forall>va. vmm_is_mapped_in s1 (Some root) va = vmm_is_mapped_in s (Some root) va)"
    using vmm_map_page_ok [OF Suc.prems(1) flags, of "?v i" "?p i"] by blast
  show ?case
  proof (cases "r1 = 0")
    case False
    with m show ?thesis by (intro exI [of _ "- 1"] exI [of _ s1] exI [of _ i]) auto
  next
    case True
    with m(3) have look: "\<forall>va. vmm_is_mapped_in s1 (Some root) va =
        (if same_page (?v i) va then Some (?p i AND PTE_ADDR_MASK) else vmm_is_mapped_in s (Some root) va)" by simp
    from Suc.IH [OF m(2), of "Suc i"] Suc.prems(2) obtain r s' k where
      h: "map_range_from s1 (Some root) virt phys flags (of_nat (Suc i)) n = Some (r, s')" "space_ok s' root"
        "Suc i \<le> k" "r = 0 \<and> k = Suc i + n \<or> r = - 1 \<and> k < Suc i + n \<and> no_memory s'"
        "\<forall>j. Suc i \<le> j \<and> j < k \<longrightarrow> vmm_is_mapped_in s' (Some root) (?v j) = Some (?p j AND PTE_ADDR_MASK)"
        "\<forall>va. (\<forall>j. Suc i \<le> j \<and> j < k \<longrightarrow> \<not> same_page (?v j) va) \<longrightarrow>
          vmm_is_mapped_in s' (Some root) va = vmm_is_mapped_in s1 (Some root) va" by auto
    have "\<not> same_page (?v j) (?v i)" if "Suc i \<le> j" "j < k" for j
      using same_page_offset [of j i virt] that h(4) Suc.prems(2) by auto
    then have vi: "vmm_is_mapped_in s' (Some root) (?v i) = Some (?p i AND PTE_ADDR_MASK)"
      using h(6) look by (simp add: same_page_def)
    show ?thesis
    proof (intro exI conjI allI impI)
      show "map_range_from s (Some root) virt phys flags (of_nat i) (Suc n) = Some (r, s')"
        using m(1) True h(1) by (simp add: add.commute)
      show "space_ok s' root" "i \<le> k" "r = 0 \<and> k = i + Suc n \<or> r = - 1 \<and> k < i + Suc n \<and> no_memory s'"
        using h(2-4) by auto
      show "vmm_is_mapped_in s' (Some root) (?v j) = Some (?p j AND PTE_ADDR_MASK)" if "i \<le> j \<and> j < k" for j
        using that h(5) vi by (cases "j = i") simp_all
      show "vmm_is_mapped_in s' (Some root) va = vmm_is_mapped_in s (Some root) va"
        if "\<forall>j. i \<le> j \<and> j < k \<longrightarrow> \<not> same_page (?v j) va" for va
        using that h(3,6) look by simp
    qed
  qed
qed

text \<open>A kernel address space over the allocator of the boot example, with an empty top-level table.\<close>

lemma empty_space:
  assumes "vmm_ok s" and "v_tab s = (\<lambda>_ _. 0)" and "\<forall>p \<in> free_pages (v_heap s). frame_phys (v_heap s) p \<noteq> root"
  shows "space_ok s root" "tables (v_tab s) root = {root}"
proof -
  have w: "walk (v_tab s) root is = Some f \<longleftrightarrow> is = [] \<and> f = root" for "is" f
    using assms(2) by (cases "is") auto
  show t: "tables (v_tab s) root = {root}" unfolding tables_def w by (auto simp: is_path_def)
  have "tree_ok (v_tab s) root" unfolding tree_ok_def w by simp
  with t assms show "space_ok s root" by (simp add: space_ok_def)
qed

lemma small_space:
  "\<exists>s. kmem_init small_map (Some 0xFFFF800000000000) = Some s \<and> space_ok (vmm_over s 32) 0"
proof -
  obtain s where s: "kmem_init small_map (Some 0xFFFF800000000000) = Some s" "kmem_ok (slab_boot s)"
    "num_pages_in_map s = 20" "lowest_address s = 4096" using small_heap by blast
  then have "vmm_ok (vmm_over s 32)" by (simp add: vmm_ok_def PAGE_SIZE_def)
  then have "space_ok (vmm_over s 32) 0"
    by (rule empty_space(1)) (simp_all add: frame_phys_def s(4))
  with s(1) show ?thesis by blast
qed

section \<open>Properties\<close>









end
