(* ===== verification/Wire.thy ===== *)
theory Wire
  imports Prelude
begin

text \<open>
  Bytes on the wire: big-endian 16-bit fields, and the Internet checksum as the three
  protocol files compute it (\<^verbatim>\<open>ip_header_checksum_bytes\<close> of \<^verbatim>\<open>src/src/net_ip.c\<close>,
  \<^verbatim>\<open>udp_checksum\<close> of \<^verbatim>\<open>src/src/net_udp.c\<close>, \<^verbatim>\<open>icmp_checksum\<close> of \<^verbatim>\<open>src/src/net_icmp.c\<close>): a
  32-bit sum of 16-bit words whose carries are folded back. The folding loop is given in
  closed form, as the representative in \<open>1 \<dots> 65535\<close> of a positive sum modulo 65535.

  Reading a byte outside of a buffer is \<open>None\<close>.
\<close>

unbundle bit_operations_syntax

section \<open>Fields\<close>

definition get8 :: "u8 list \<Rightarrow> nat \<Rightarrow> u8 option" where
  "get8 f i = (if i < length f then Some (f ! i) else None)"

definition slice :: "u8 list \<Rightarrow> nat \<Rightarrow> nat \<Rightarrow> u8 list option" where
  "slice f i n = (if i + n \<le> length f then Some (take n (drop i f)) else None)"

definition be16 :: "u8 \<Rightarrow> u8 \<Rightarrow> u16" where
  "be16 a b = push_bit 8 (ucast a) OR ucast b"

definition hi8 :: "u16 \<Rightarrow> u8" where "hi8 w = ucast (drop_bit 8 w)"

definition lo8 :: "u16 \<Rightarrow> u8" where "lo8 w = ucast w"

definition bswap16 :: "u16 \<Rightarrow> u16" where
  "bswap16 x = push_bit 8 (x AND 0xFF) OR (drop_bit 8 x AND 0xFF)"

definition get16 :: "u8 list \<Rightarrow> nat \<Rightarrow> u16 option" where
  "get16 f i = (if i + 1 < length f then Some (be16 (f ! i) (f ! (i + 1))) else None)"

lemma get8_nth [simp]: "i < length f \<Longrightarrow> get8 f i = Some (f ! i)"
  by (simp add: get8_def)

lemma get16_nth [simp]: "Suc i < length f \<Longrightarrow> get16 f i = Some (be16 (f ! i) (f ! Suc i))"
  by (simp add: get16_def)

lemma slice_some [simp]: "i + n \<le> length f \<Longrightarrow> slice f i n = Some (take n (drop i f))"
  by (simp add: slice_def)

lemma bit_be16: "bit (be16 a b) n \<longleftrightarrow> (if n < 8 then bit b n else n < 16 \<and> bit a (n - 8))"
  using bit_imp_le_length [of a "n - 8"] bit_imp_le_length [of b n]
  by (auto simp: be16_def bit_simps)

lemma hi8_be16 [simp]: "hi8 (be16 a b) = a"
  using bit_imp_le_length by (intro bit_eqI) (force simp: hi8_def bit_simps bit_be16)

lemma lo8_be16 [simp]: "lo8 (be16 a b) = b"
  by (intro bit_eqI) (auto simp: lo8_def bit_simps bit_be16)

lemma be16_hi8_lo8 [simp]: "be16 (hi8 w) (lo8 w) = w"
  by (intro bit_eqI) (auto simp: hi8_def lo8_def bit_simps bit_be16)

lemma bit_bswap16: "bit (bswap16 w) n \<longleftrightarrow> (if n < 8 then bit w (n + 8) else n < 16 \<and> bit w (n - 8))"
proof -
  have m: "(0xFF :: u16) = mask 8" by (simp add: mask_numeral)
  show ?thesis unfolding bswap16_def m by (auto simp: bit_simps add.commute)
qed

lemma bswap16_be16: "bswap16 (be16 a b) = be16 b a"
  by (intro bit_eqI) (auto simp: bit_bswap16 bit_be16)

lemma hi8_bswap16 [simp]: "hi8 (bswap16 w) = lo8 w" and lo8_bswap16 [simp]: "lo8 (bswap16 w) = hi8 w"
  using bswap16_be16 [of "hi8 w" "lo8 w"] by simp_all

lemma be16_0 [simp]: "be16 0 0 = 0"
  by (simp add: be16_def)

lemma be16_eq_iff: "be16 a b = be16 c d \<longleftrightarrow> a = c \<and> b = d"
  by (metis hi8_be16 lo8_be16)

lemma unat_be16: "unat (be16 a b) = 256 * unat a + unat b"
proof -
  have "be16 a b = push_bit 8 (ucast a) + ucast b"
    unfolding be16_def using bit_imp_le_length [of b]
    by (intro disjunctive_add [symmetric]) (force simp: bit_simps)
  moreover have "unat a < 256" "unat b < 256"
    using unsigned_less [of a, where ?'a = nat] unsigned_less [of b, where ?'a = nat] by simp_all
  ultimately show ?thesis
    by (simp add: push_bit_eq_mult unat_word_ariths unsigned_ucast_eq take_bit_eq_mod)
qed

section \<open>The Internet checksum\<close>

text \<open>The loop over the 16-bit words together with the odd byte at the end.\<close>

fun csum_words :: "u32 \<Rightarrow> u8 list \<Rightarrow> u32" where
  "csum_words acc (a # b # bs) = csum_words (acc + ucast (be16 a b)) bs"
| "csum_words acc [a] = acc + push_bit 8 (ucast a)"
| "csum_words acc [] = acc"

text \<open>\<^verbatim>\<open>while (sum >> 16) sum = (sum & 0xFFFF) + (sum >> 16);\<close>\<close>

lemma unat_and16: "unat (acc AND 0xFFFF :: u32) = unat acc mod 65536"
proof -
  have "(acc AND 0xFFFF) = take_bit 16 acc" by (simp add: take_bit_eq_mask mask_numeral)
  then show ?thesis by (simp only: unsigned_take_bit_eq) (simp add: take_bit_eq_mod)
qed

lemma unat_drop16: "unat (drop_bit 16 acc :: u32) = unat acc div 65536"
  using unat_u32_less [of acc]
  by (simp only: unsigned_drop_bit_eq) (simp add: take_bit_eq_mod drop_bit_eq_div)

lemma fold_step: "unat ((acc AND 0xFFFF) + drop_bit 16 acc :: u32) = unat acc mod 65536 + unat acc div 65536"
proof -
  have "unat acc mod 65536 + unat acc div 65536 < 2 ^ 32"
    using unat_u32_less [of acc] by simp
  then show ?thesis by (simp add: unat_word_ariths unat_and16 unat_drop16)
qed

lemma drop16_zero: "drop_bit 16 (acc :: u32) = 0 \<longleftrightarrow> unat acc < 65536"
proof -
  have "drop_bit 16 acc = 0 \<longleftrightarrow> unat (drop_bit 16 acc) = 0" by (simp only: unat_eq_0)
  then show ?thesis by (simp only: unat_drop16) (simp add: div_eq_0_iff)
qed

function fold_carries :: "u32 \<Rightarrow> u32" where
  "fold_carries acc =
    (if drop_bit 16 acc \<noteq> 0 then fold_carries ((acc AND 0xFFFF) + drop_bit 16 acc) else acc)"
  by pat_completeness auto
termination
proof (relation "measure unat")
  fix acc :: u32
  assume "drop_bit 16 acc \<noteq> 0"
  then have "65536 \<le> unat acc" by (simp add: drop16_zero)
  then have "unat acc mod 65536 + unat acc div 65536 < unat acc"
    using div_mult_mod_eq [of "unat acc" 65536] by linarith
  then show "((acc AND 0xFFFF) + drop_bit 16 acc, acc) \<in> measure unat"
    by (simp add: fold_step)
qed simp

declare fold_carries.simps [simp del]

definition ip_header_checksum_bytes :: "u8 list \<Rightarrow> u16" where
  "ip_header_checksum_bytes header = NOT (ucast (fold_carries (csum_words 0 header)))"

definition udp_checksum :: "u8 list \<Rightarrow> u8 list \<Rightarrow> u8 list \<Rightarrow> u16" where
  "udp_checksum src_ip dst_ip udp =
    (let acc = ucast (be16 (src_ip ! 0) (src_ip ! 1)) + ucast (be16 (src_ip ! 2) (src_ip ! 3))
             + ucast (be16 (dst_ip ! 0) (dst_ip ! 1)) + ucast (be16 (dst_ip ! 2) (dst_ip ! 3))
             + 0x0011 + of_nat (length udp)
     in NOT (ucast (fold_carries (csum_words acc udp))))"

text \<open>The words of an ICMP message are summed as the little-endian machine reads them.\<close>

fun le_words :: "u32 \<Rightarrow> u8 list \<Rightarrow> u32" where
  "le_words acc (a # b # bs) = le_words (acc + ucast (be16 b a)) bs"
| "le_words acc [a] = acc + ucast a"
| "le_words acc [] = acc"

definition icmp_checksum :: "u8 list \<Rightarrow> u16" where
  "icmp_checksum data = NOT (ucast (fold_carries (le_words 0 data)))"

section \<open>The folded sum in closed form\<close>

definition fold1 :: "nat \<Rightarrow> nat" where
  "fold1 n = (if n = 0 then 0 else (n - 1) mod 65535 + 1)"

lemma fold1_small: "n < 65536 \<Longrightarrow> fold1 n = n"
  by (cases n) (simp_all add: fold1_def)

lemma fold1_step: "65536 \<le> n \<Longrightarrow> fold1 (n mod 65536 + n div 65536) = fold1 n"
proof -
  assume n: "65536 \<le> n"
  define q r where "q = n div 65536" and "r = n mod 65536"
  have n': "n = 65536 * q + r" and q: "0 < q" using n by (simp_all add: q_def r_def div_greater_zero_iff)
  then have "n - 1 = (r + q - 1) + 65535 * q" by simp
  then have "(n - 1) mod 65535 = (r + q - 1) mod 65535" by (metis mod_mult_self2)
  then show ?thesis using q n by (simp add: fold1_def q_def r_def)
qed

lemma unat_fold_carries: "unat (fold_carries acc) = fold1 (unat acc)"
proof (induction acc rule: fold_carries.induct)
  case (1 acc)
  show ?case
  proof (cases "drop_bit 16 acc = 0")
    case True
    then show ?thesis by (simp add: fold_carries.simps [of acc] drop16_zero fold1_small)
  next
    case False
    then have "65536 \<le> unat acc" by (simp add: drop16_zero)
    with 1 False show ?thesis by (simp add: fold_carries.simps [of acc] fold_step fold1_step)
  qed
qed

lemma fold1_bounds: "fold1 n \<le> 65535" "fold1 n = 0 \<longleftrightarrow> n = 0"
  by (auto simp: fold1_def less_eq_Suc_le [symmetric])

lemma fold1_mod: "fold1 n mod 65535 = n mod 65535"
proof (cases n)
  case (Suc m)
  have "(m mod 65535 + 1) mod 65535 = (m + 1) mod 65535" by (rule mod_add_left_eq)
  then show ?thesis by (simp add: Suc fold1_def)
qed (simp add: fold1_def)

lemma unat_csum: "unat (NOT (ucast (fold_carries acc)) :: u16) = 65535 - fold1 (unat acc)"
proof -
  let ?x = "ucast (fold_carries acc) :: u16"
  have x: "unat ?x = fold1 (unat acc)"
    using fold1_bounds(1) [of "unat acc"]
    by (simp add: unsigned_ucast_eq unat_fold_carries take_bit_eq_mod)
  have "NOT ?x = 0xFFFF - ?x" by (simp add: not_eq_complement)
  moreover have "?x \<le> 0xFFFF" using x fold1_bounds(1) by (simp add: word_le_nat_alt)
  ultimately show ?thesis using x by (simp add: unat_sub)
qed

text \<open>Adding the complement of a folded sum leaves the all-ones word, which is zero once complemented.\<close>

lemma fold1_complement: "fold1 (n + (65535 - fold1 n)) = 65535"
proof -
  have "(n + (65535 - fold1 n)) mod 65535 = (fold1 n + (65535 - fold1 n)) mod 65535"
    by (metis fold1_mod mod_add_left_eq)
  then have m: "(n + (65535 - fold1 n)) mod 65535 = 0" using fold1_bounds(1) [of n] by simp
  have "n + (65535 - fold1 n) \<noteq> 0" using fold1_bounds [of n] by (cases "n = 0") auto
  with m fold1_mod [of "n + (65535 - fold1 n)"] fold1_bounds [of "n + (65535 - fold1 n)"] show ?thesis
    by (metis le_neq_implies_less mod_less)
qed

lemma fold1_all_ones: "fold1 n = 65535 \<Longrightarrow> fold1 (n + 65535) = 65535"
  by (cases n) (simp_all add: fold1_def flip: add.assoc)

section \<open>Sums of words\<close>

fun words_sum :: "(u8 \<times> u8 \<Rightarrow> nat) \<Rightarrow> u8 list \<Rightarrow> nat" where
  "words_sum w (a # b # bs) = w (a, b) + words_sum w bs"
| "words_sum w [a] = w (a, 0)"
| "words_sum w [] = 0"

abbreviation be_word :: "u8 \<times> u8 \<Rightarrow> nat" where
  "be_word \<equiv> \<lambda>(a, b). unat (be16 a b)"

abbreviation le_word :: "u8 \<times> u8 \<Rightarrow> nat" where
  "le_word \<equiv> \<lambda>(a, b). unat (be16 b a)"

lemma words_sum_append:
  "even (length xs) \<Longrightarrow> words_sum w (xs @ ys) = words_sum w xs + words_sum w ys"
  by (induction w xs rule: words_sum.induct) auto

lemma words_sum_bound: "(\<And>p. w p \<le> 65535) \<Longrightarrow> words_sum w bs \<le> 65535 * ((length bs + 1) div 2)"
proof (induction w bs rule: words_sum.induct)
  case (1 w a b bs)
  have "words_sum w (a # b # bs) \<le> 65535 + 65535 * ((length bs + 1) div 2)"
    using 1(1) [OF 1(2)] 1(2) [of "(a, b)"] by simp
  then show ?case by simp
qed auto

lemma word_le: "be_word p \<le> 65535" "le_word p \<le> 65535"
  using unat_u16_less by (cases p; simp add: less_Suc_eq_le [symmetric])+

lemma unat_add_small: "unat x + n < 2 ^ 32 \<Longrightarrow> unat y = n \<Longrightarrow> unat (x + y :: u32) = unat x + n"
  by (simp add: unat_word_ariths)

lemma unat_ucast16: "unat (ucast (w :: u16) :: u32) = unat w"
  using unat_u16_less [of w] by (simp add: unsigned_ucast_eq take_bit_eq_mod)

lemma unat_hi_byte: "unat (push_bit 8 (ucast a) :: u32) = unat (be16 a 0)"
  using unsigned_less [of a, where ?'a = nat]
  by (simp add: unat_be16 push_bit_eq_mult unat_word_ariths unsigned_ucast_eq take_bit_eq_mod)

lemma unat_lo_byte: "unat (ucast a :: u32) = unat (be16 0 (a :: u8))"
  using unsigned_less [of a, where ?'a = nat]
  by (simp add: unat_be16 unsigned_ucast_eq take_bit_eq_mod)

lemma unat_csum_words:
  "unat acc + words_sum be_word bs < 2 ^ 32 \<Longrightarrow> unat (csum_words acc bs) = unat acc + words_sum be_word bs"
proof (induction acc bs rule: csum_words.induct)
  case (1 acc a b bs)
  have "unat (acc + ucast (be16 a b)) = unat acc + unat (be16 a b)"
    using 1(2) by (intro unat_add_small) (simp_all add: unat_ucast16)
  with 1 show ?case by simp
next
  case (2 acc a)
  then show ?case by (simp add: unat_add_small [OF _ unat_hi_byte])
qed simp

lemma unat_le_words:
  "unat acc + words_sum le_word bs < 2 ^ 32 \<Longrightarrow> unat (le_words acc bs) = unat acc + words_sum le_word bs"
proof (induction acc bs rule: le_words.induct)
  case (1 acc a b bs)
  have "unat (acc + ucast (be16 b a)) = unat acc + unat (be16 b a)"
    using 1(2) by (intro unat_add_small) (simp_all add: unat_ucast16)
  with 1 show ?case by simp
next
  case (2 acc a)
  then show ?case by (simp add: unat_add_small [OF _ unat_lo_byte])
qed simp

text \<open>A message with a checksum field at an even offset, zero while the sum is taken.\<close>

lemma words_sum_field:
  assumes "even i" and "i + 1 < length bs" and "bs ! i = 0" and "bs ! (i + 1) = 0" and "w (0, 0) = 0"
  shows "words_sum w (bs[i := a, i + 1 := b]) = words_sum w bs + w (a, b)"
proof -
  define xs ys where "xs = take i bs" and "ys = drop (i + 2) bs"
  have len: "length xs = i" using assms(2) by (simp add: xs_def)
  have bs: "bs = xs @ [0, 0] @ ys"
    using assms(2-4) unfolding xs_def ys_def
    by (metis Cons_nth_drop_Suc Suc_eq_plus1 Suc_lessD add_2_eq_Suc' append_Cons append_Nil append_take_drop_id)
  have "bs[i := a, i + 1 := b] = xs @ [a, b] @ ys" by (simp add: bs list_update_append len)
  then show ?thesis using assms(1,5) by (simp add: bs words_sum_append len)
qed

section \<open>Storing and verifying a checksum\<close>

lemma csum_field:
  assumes w: "w (0, 0) = 0" "\<And>p. w p \<le> 65535" and i: "even i" "i + 1 < length bs" "bs ! i = 0" "bs ! (i + 1) = 0"
    and small: "n + words_sum w bs + 65535 < 2 ^ 32"
    and c: "unat (c :: u16) = 65535 - fold1 (n + words_sum w bs) \<or>
      fold1 (n + words_sum w bs) = 65535 \<and> unat c = 65535" and ab: "w (a, b) = unat c"
  shows "fold1 (n + words_sum w (bs[i := a, i + 1 := b])) = 65535"
    "n + words_sum w (bs[i := a, i + 1 := b]) < 2 ^ 32"
proof -
  have sum: "words_sum w (bs[i := a, i + 1 := b]) = words_sum w bs + unat c"
    using words_sum_field [of i bs w a b] i w(1) ab by simp
  from c show "fold1 (n + words_sum w (bs[i := a, i + 1 := b])) = 65535"
  proof (elim disjE conjE)
    assume "unat c = 65535 - fold1 (n + words_sum w bs)"
    then show ?thesis unfolding sum using fold1_complement [of "n + words_sum w bs"] by (simp add: add.assoc)
  next
    assume "fold1 (n + words_sum w bs) = 65535" "unat c = 65535"
    then show ?thesis unfolding sum using fold1_all_ones [of "n + words_sum w bs"] by (simp add: add.assoc)
  qed
  show "n + words_sum w (bs[i := a, i + 1 := b]) < 2 ^ 32"
    unfolding sum using small unat_u16_less [of c] by simp
qed

lemma csum_zero_iff: "(NOT (ucast (fold_carries acc)) :: u16) = 0 \<longleftrightarrow> fold1 (unat acc) = 65535"
  using unat_csum [of acc] fold1_bounds(1) [of "unat acc"] by (auto simp flip: unat_eq_0)

lemma length_words_bound:
  assumes "\<And>p. w p \<le> 65535" and "length bs \<le> 65535"
  shows "words_sum w bs \<le> 65535 * 32768"
proof -
  have "words_sum w bs \<le> 65535 * ((length bs + 1) div 2)" by (rule words_sum_bound [OF assms(1)])
  also have "\<dots> \<le> 65535 * 32768" using assms(2) by (intro mult_le_mono) auto
  finally show ?thesis .
qed

lemma ip_checksum_stored:
  assumes "even i" and "i + 1 < length h" and "h ! i = 0" and "h ! (i + 1) = 0" and "length h \<le> 65535"
  shows "ip_header_checksum_bytes
    (h[i := hi8 (ip_header_checksum_bytes h), i + 1 := lo8 (ip_header_checksum_bytes h)]) = 0"
proof -
  let ?c = "ip_header_checksum_bytes h"
  have small: "words_sum be_word h + 65535 < 2 ^ 32"
    using length_words_bound [where w = be_word, OF word_le(1) assms(5)] by simp
  then have c: "unat ?c = 65535 - fold1 (0 + words_sum be_word h)"
    using unat_csum_words [of 0 h] by (simp add: ip_header_checksum_bytes_def unat_csum)
  have "be_word (hi8 ?c, lo8 ?c) = unat ?c" "be_word (0, 0) = 0" by simp_all
  from csum_field [of be_word i h 0, OF this(2) word_le(1) assms(1-4) _ disjI1 [OF c] this(1)] small
  show ?thesis by (simp add: ip_header_checksum_bytes_def csum_zero_iff unat_csum_words)
qed

definition pseudo_sum :: "u8 list \<Rightarrow> u8 list \<Rightarrow> nat \<Rightarrow> nat" where
  "pseudo_sum src dst n = unat (be16 (src ! 0) (src ! 1)) + unat (be16 (src ! 2) (src ! 3))
     + unat (be16 (dst ! 0) (dst ! 1)) + unat (be16 (dst ! 2) (dst ! 3)) + 17 + n"

lemma unat_udp_checksum:
  assumes "length udp \<le> 65535"
  shows "unat (udp_checksum src dst udp) =
    65535 - fold1 (pseudo_sum src dst (length udp) + words_sum be_word udp)"
    "udp_checksum src dst udp = 0 \<longleftrightarrow> fold1 (pseudo_sum src dst (length udp) + words_sum be_word udp) = 65535"
proof -
  define acc :: u32 where "acc = ucast (be16 (src ! 0) (src ! 1)) + ucast (be16 (src ! 2) (src ! 3))
     + ucast (be16 (dst ! 0) (dst ! 1)) + ucast (be16 (dst ! 2) (dst ! 3)) + 0x0011 + of_nat (length udp)"
  note b = unat_u16_less [of "be16 (src ! 0) (src ! 1)"] unat_u16_less [of "be16 (src ! 2) (src ! 3)"]
    unat_u16_less [of "be16 (dst ! 0) (dst ! 1)"] unat_u16_less [of "be16 (dst ! 2) (dst ! 3)"]
  have "unat (of_nat (length udp) :: u32) = length udp" using assms by (simp add: unat_of_nat)
  then have acc: "unat acc = pseudo_sum src dst (length udp)"
    unfolding pseudo_sum_def acc_def using b assms by (simp add: unat_word_ariths unat_ucast16)
  have "pseudo_sum src dst (length udp) \<le> 5 * 65536 + 17" using b assms by (simp add: pseudo_sum_def)
  with length_words_bound [where w = be_word, OF word_le(1) assms]
  have s: "unat (csum_words acc udp) = pseudo_sum src dst (length udp) + words_sum be_word udp"
    by (subst unat_csum_words) (simp_all add: acc)
  have "udp_checksum src dst udp = NOT (ucast (fold_carries (csum_words acc udp)))"
    by (simp add: udp_checksum_def acc_def Let_def)
  with s show "unat (udp_checksum src dst udp) =
      65535 - fold1 (pseudo_sum src dst (length udp) + words_sum be_word udp)"
    "udp_checksum src dst udp = 0 \<longleftrightarrow> fold1 (pseudo_sum src dst (length udp) + words_sum be_word udp) = 65535"
    by (simp_all add: unat_csum csum_zero_iff)
qed

lemma udp_checksum_stored:
  assumes "7 < length udp" and "udp ! 6 = 0" and "udp ! 7 = 0" and len: "length udp \<le> 65535"
    and c: "c = (if udp_checksum src dst udp = 0 then 0xFFFF else udp_checksum src dst udp)"
  shows "udp_checksum src dst (udp[6 := hi8 c, 7 := lo8 c]) = 0"
proof -
  let ?n = "pseudo_sum src dst (length udp)"
  have c': "unat c = 65535 - fold1 (?n + words_sum be_word udp) \<or>
      fold1 (?n + words_sum be_word udp) = 65535 \<and> unat c = 65535"
    using unat_udp_checksum [OF len, of src dst] c by auto
  have "?n \<le> 5 * 65536 + 17"
    using unat_u16_less [of "be16 (src ! 0) (src ! 1)"] unat_u16_less [of "be16 (src ! 2) (src ! 3)"]
      unat_u16_less [of "be16 (dst ! 0) (dst ! 1)"] unat_u16_less [of "be16 (dst ! 2) (dst ! 3)"] len
    by (simp add: pseudo_sum_def)
  then have small: "?n + words_sum be_word udp + 65535 < 2 ^ 32"
    using length_words_bound [where w = be_word, OF word_le(1) len] by simp
  have "be_word (hi8 c, lo8 c) = unat c" "be_word (0, 0) = 0" by simp_all
  from csum_field(1) [of be_word 6 udp ?n, OF this(2) word_le(1) _ _ _ _ small c' this(1)] assms
  show ?thesis by (simp add: unat_udp_checksum)
qed

lemma icmp_checksum_stored:
  assumes "even i" and "i + 1 < length m" and "m ! i = 0" and "m ! (i + 1) = 0" and "length m \<le> 65535"
  shows "icmp_checksum (m[i := lo8 (icmp_checksum m), i + 1 := hi8 (icmp_checksum m)]) = 0"
proof -
  let ?c = "icmp_checksum m"
  have small: "words_sum le_word m + 65535 < 2 ^ 32"
    using length_words_bound [where w = le_word, OF word_le(2) assms(5)] by simp
  then have c: "unat ?c = 65535 - fold1 (0 + words_sum le_word m)"
    using unat_le_words [of 0 m] by (simp add: icmp_checksum_def unat_csum)
  have "le_word (lo8 ?c, hi8 ?c) = unat ?c" "le_word (0, 0) = 0" by simp_all
  from csum_field [of le_word i m 0, OF this(2) word_le(2) assms(1-4) _ disjI1 [OF c] this(1)] small
  show ?thesis by (simp add: icmp_checksum_def csum_zero_iff unat_le_words)
qed

section \<open>Properties\<close>

text \<open>
  C38. The loop that folds the carries of a checksum always ends, after at most two rounds, with a
  sum that fits 16 bits and is congruent to the 32-bit sum modulo 65535.
\<close>

theorem fold_carries_two_rounds:
  "fold_carries acc = (let step = \<lambda>x. (x AND 0xFFFF) + drop_bit 16 x in step (step acc)) \<and>
   unat (fold_carries acc) < 65536 \<and> unat (fold_carries acc) mod 65535 = unat acc mod 65535"
proof -
  let ?step = "\<lambda>x :: u32. (x AND 0xFFFF) + drop_bit 16 x"
  have id: "?step x = x" if "unat x < 65536" for x
    using that fold_step [of x] by (simp add: word_unat_eq_iff)
  have s1: "unat (?step acc) \<le> 131070" using fold_step [of acc] unat_u32_less [of acc] by simp
  have "n mod 65536 + n div 65536 < 65536" if "n \<le> 131070" for n :: nat
  proof (cases "n < 65536")
    case False
    with that have "n div 65536 = 1" "n mod 65536 = n - 65536" by (simp_all add: div_if mod_if)
    with that False show ?thesis by linarith
  qed simp
  then have s2: "unat (?step (?step acc)) < 65536" using s1 by (simp only: fold_step [of "?step acc"])
  have small: "fold_carries x = x" if "unat x < 65536" for x
    using that by (simp add: fold_carries.simps [of x] drop16_zero)
  have step: "fold_carries x = fold_carries (?step x)" for x
  proof (cases "unat x < 65536")
    case False
    then show ?thesis by (simp add: fold_carries.simps [of x] drop16_zero)
  qed (simp add: id)
  have "fold_carries acc = ?step (?step acc)"
    using step [of acc] step [of "?step acc"] small [OF s2] by simp
  moreover have "unat (fold_carries acc) < 65536 \<and> unat (fold_carries acc) mod 65535 = unat acc mod 65535"
    using fold1_bounds(1) [of "unat acc"] by (simp add: unat_fold_carries fold1_mod)
  ultimately show ?thesis unfolding Let_def by blast
qed



end
