(* ===== verification/Netstate.thy ===== *)
theory Netstate
  imports Wire
begin

text \<open>
  The state of the IPv4 network stack: the static tables of \<^verbatim>\<open>src/src/net_arp.c\<close>,
  \<^verbatim>\<open>src/src/net_ip.c\<close>, \<^verbatim>\<open>src/src/net_icmp.c\<close>, \<^verbatim>\<open>src/src/net_udp.c\<close> and \<^verbatim>\<open>src/src/net_dns.c\<close>, the drop counters of
  \<^verbatim>\<open>src/src/net_ethernet.c\<close>, the configuration of the current device of \<^verbatim>\<open>src/src/net_device.c\<close>
  and the two clocks. Addresses are lists of 4 (IP) or 6 (MAC) bytes, so that \<^verbatim>\<open>memcmp\<close> is equality.

  The card and the kernel heap are arguments: \<open>e_send\<close> is what the driver answers to the n-th
  frame, \<open>e_alloc\<close> whether the n-th allocation of some size succeeds, and \<open>e_junk\<close> what a block
  holds before it is written. The frames given to the driver are recorded in \<open>wire\<close>. The clock
  readings within one call of the stack coincide.
\<close>

section \<open>Tables\<close>

record arp_entry =
  a_ip :: "u8 list"
  a_mac :: "u8 list"
  a_timestamp :: u64
  a_valid :: bool
  a_permanent :: bool

record arp_pending =
  q_target_ip :: "u8 list"
  q_timestamp :: u64
  q_retry_count :: nat
  q_valid :: bool

text \<open>A datagram that waits for an address; a \<open>NULL\<close> payload is \<open>None\<close>.\<close>

record ip_arpq_entry =
  w_valid :: bool
  w_next_hop :: "u8 list"
  w_dst_ip :: "u8 list"
  w_protocol :: u8
  w_payload :: "u8 list option"
  w_queued_at :: u64

text \<open>The linked list of pieces is a list of offsets with their data.\<close>

record ip_frag_slot =
  f_src_ip :: "u8 list"
  f_dst_ip :: "u8 list"
  f_id :: u16
  f_protocol :: u8
  f_active :: bool
  f_total_len :: u16
  f_received_bytes :: u16
  f_first_seen_ms :: u64
  f_pieces :: "(u16 \<times> u8 list) list"

record udp_rx_pkt =
  p_src_ip :: "u8 list"
  p_src_port :: u16
  p_len :: u16
  p_data :: "u8 list"

record udp_pcb =
  u_in_use :: bool
  u_bound :: bool
  u_connected :: bool
  u_local_port :: u16
  u_dest_ip :: "u8 list"
  u_dest_port :: u16
  u_rx :: "udp_rx_pkt list"
  u_rx_head :: nat
  u_rx_tail :: nat
  u_rx_count :: nat

text \<open>The name of a cached address is a buffer that holds a string with its terminator.\<close>

record dns_entry =
  d_hostname :: "u8 list"
  d_ip :: "u8 list"
  d_ttl_s :: u32
  d_cached_at_ms :: u64
  d_valid :: bool

text \<open>Handlers of UDP ports are function pointers; they are named by numbers.\<close>

record net =
  dev_mac :: "u8 list"
  dev_ip :: "u8 list"
  dev_mask :: "u8 list"
  dev_gw :: "u8 list"
  dev_dns :: "u8 list"
  now_ms :: u64
  hpet_ticks :: u64
  wire :: "u8 list list"
  allocs :: nat
  g_drop_unknown_l2 :: u32
  g_drop_igmp :: u32
  g_drop_unknown_ip :: u32
  g_drop_malformed :: u32
  g_last_ethertype :: u16
  g_last_ip_proto :: u8
  arp_cache :: "arp_entry list"
  arp_pending_requests :: "arp_pending list"
  ip_id_counter :: u16
  ip_lo_frame :: "u8 list option list"
  ip_lo_head :: nat
  ip_lo_tail :: nat
  ip_lo_count :: nat
  ip_lo_draining :: bool
  ip_arpq :: "ip_arpq_entry list"
  ip_frag_slots :: "ip_frag_slot list"
  icmp_id_counter :: u16
  expect_id :: u16
  expect_seq :: u16
  expect_hit :: bool
  udp_handlers :: "u16 \<Rightarrow> nat option"
  udp_next :: u16
  udp_pcbs :: "udp_pcb list"
  dns_id_counter :: u16
  dns_cache :: "dns_entry list"
  dns_cache_initialized :: bool
  dns_pending_id :: u16
  dns_have_answer :: bool
  dns_answer_ip :: "u8 list"
  dns_answer_ttl :: u32
  idle_last_tick :: u64

record env =
  e_send :: "nat \<Rightarrow> u8 list \<Rightarrow> int"
  e_alloc :: "nat \<Rightarrow> nat \<Rightarrow> bool"
  e_junk :: "nat \<Rightarrow> nat \<Rightarrow> u8"

section \<open>The card, the heap and the counters\<close>

definition net_send_packet :: "env \<Rightarrow> u8 list \<Rightarrow> net \<Rightarrow> int \<times> net" where
  "net_send_packet e data s = (e_send e (length (wire s)) data, s\<lparr>wire := wire s @ [data]\<rparr>)"

definition try_alloc :: "env \<Rightarrow> nat \<Rightarrow> net \<Rightarrow> bool \<times> net" where
  "try_alloc e n s = (e_alloc e (allocs s) n, s\<lparr>allocs := allocs s + 1\<rparr>)"

definition net_rx_count_unknown_l2 :: "u16 \<Rightarrow> net \<Rightarrow> net" where
  "net_rx_count_unknown_l2 ethertype s =
    s\<lparr>g_drop_unknown_l2 := g_drop_unknown_l2 s + 1, g_last_ethertype := ethertype\<rparr>"

definition net_rx_count_ip_proto :: "u8 \<Rightarrow> net \<Rightarrow> net" where
  "net_rx_count_ip_proto proto s =
    (if proto = 2 then s\<lparr>g_drop_igmp := g_drop_igmp s + 1\<rparr>
     else s\<lparr>g_drop_unknown_ip := g_drop_unknown_ip s + 1, g_last_ip_proto := proto\<rparr>)"

definition net_rx_count_malformed :: "net \<Rightarrow> net" where
  "net_rx_count_malformed s = s\<lparr>g_drop_malformed := g_drop_malformed s + 1\<rparr>"

section \<open>The oldest entry of a table\<close>

text \<open>
  The eviction loops keep the index of the smallest time seen so far, starting from entry 0 and
  replacing it only by a strictly smaller one.
\<close>

fun oldest_from :: "(nat \<Rightarrow> u64) \<Rightarrow> nat \<Rightarrow> nat \<Rightarrow> nat \<Rightarrow> nat" where
  "oldest_from t best i 0 = best"
| "oldest_from t best i (Suc n) = oldest_from t (if t i < t best then i else best) (i + 1) n"

lemma oldest_from_range:
  "best < hi \<Longrightarrow> i + n \<le> hi \<Longrightarrow> oldest_from t best i n < hi"
  by (induction t best i n rule: oldest_from.induct) auto

lemma oldest_from_least:
  "t (oldest_from t best i n) \<le> t best \<and> (\<forall>j. i \<le> j \<and> j < i + n \<longrightarrow> t (oldest_from t best i n) \<le> t j)"
proof (induction t best i n rule: oldest_from.induct)
  case (2 t best i n)
  let ?b = "if t i < t best then i else best" and ?r = "oldest_from t best i (Suc n)"
  have le: "t ?b \<le> t best" "t ?b \<le> t i" by auto
  have r: "t ?r \<le> t ?b" "\<forall>j. i + 1 \<le> j \<and> j < i + 1 + n \<longrightarrow> t ?r \<le> t j"
    using 2 by simp_all
  have "t ?r \<le> t j" if "i \<le> j" "j < i + Suc n" for j
    using that r le by (cases "j = i") (auto intro: order_trans)
  with r(1) le(1) show ?case by (meson order_trans)
qed auto

end
