(* ===== verification/Arp.thy ===== *)
theory Arp
  imports Netstate
begin

text \<open>
  Address resolution, \<^verbatim>\<open>src/src/net_arp.c\<close>: the cache of resolved addresses with its timeouts and
  eviction, the table of pending requests with its retries, and the request and reply frames.
  What happens to datagrams that wait for an address is in theory Ip, and so are the handlers
  that call into it (\<^verbatim>\<open>arp_insert\<close>, \<^verbatim>\<open>arp_handle_packet\<close>, \<^verbatim>\<open>arp_add_static\<close>).
\<close>

definition ARP_CACHE_SIZE :: nat where "ARP_CACHE_SIZE = 16"
definition ARP_TIMEOUT_MS :: u64 where "ARP_TIMEOUT_MS = 30000"
definition ARP_RETRY_COUNT :: nat where "ARP_RETRY_COUNT = 5"
definition ARP_RETRY_TIMEOUT_MS :: u64 where "ARP_RETRY_TIMEOUT_MS = 100"
definition ARP_REQUEST :: u8 where "ARP_REQUEST = 1"
definition ARP_REPLY :: u8 where "ARP_REPLY = 2"

section \<open>Operations\<close>

text \<open>A cleared table entry, as \<^verbatim>\<open>memset(..., 0, ...)\<close> leaves it.\<close>

definition no_entry :: arp_entry where
  "no_entry = \<lparr>a_ip = replicate 4 0, a_mac = replicate 6 0, a_timestamp = 0, a_valid = False, a_permanent = False\<rparr>"

definition no_pending :: arp_pending where
  "no_pending = \<lparr>q_target_ip = replicate 4 0, q_timestamp = 0, q_retry_count = 0, q_valid = False\<rparr>"

definition arp_init :: "net \<Rightarrow> net" where
  "arp_init s = s\<lparr>arp_cache := replicate ARP_CACHE_SIZE no_entry,
     arp_pending_requests := replicate ARP_CACHE_SIZE no_pending\<rparr>"

text \<open>The 28 bytes of \<^verbatim>\<open>struct arp_packet\<close> for Ethernet and IPv4, 16-bit fields in network order.\<close>

definition arp_packet :: "u8 \<Rightarrow> u8 list \<Rightarrow> u8 list \<Rightarrow> u8 list \<Rightarrow> u8 list \<Rightarrow> u8 list" where
  "arp_packet opcode sender_mac sender_ip target_mac target_ip =
    [0x00, 0x01, 0x08, 0x00, 6, 4, 0x00, opcode] @ sender_mac @ sender_ip @ target_mac @ target_ip"

text \<open>The 64-byte buffer is zeroed; 60 bytes of it are sent.\<close>

definition arp_send_request :: "env \<Rightarrow> u8 list \<Rightarrow> net \<Rightarrow> net" where
  "arp_send_request e target_ip s =
    (let packet = replicate 6 0xFF @ dev_mac s @ [0x08, 0x06]
           @ arp_packet ARP_REQUEST (dev_mac s) (dev_ip s) (replicate 6 0) target_ip;
         buf = packet @ replicate (64 - length packet) 0
     in snd (net_send_packet e (take 60 buf) s))"

fun arp_lookup_from :: "u8 list \<Rightarrow> nat \<Rightarrow> nat \<Rightarrow> net \<Rightarrow> u8 list option \<times> net" where
  "arp_lookup_from ip i 0 s = (None, s)"
| "arp_lookup_from ip i (Suc n) s =
    (let c = arp_cache s ! i in
     if a_valid c \<and> a_ip c = ip then
       if \<not> a_permanent c \<and> now_ms s - a_timestamp c > ARP_TIMEOUT_MS then
         arp_lookup_from ip (i + 1) n (s\<lparr>arp_cache := (arp_cache s)[i := c\<lparr>a_valid := False\<rparr>]\<rparr>)
       else (Some (a_mac c), s)
     else arp_lookup_from ip (i + 1) n s)"

definition arp_lookup :: "u8 list \<Rightarrow> net \<Rightarrow> u8 list option \<times> net" where
  "arp_lookup ip s = arp_lookup_from ip 0 ARP_CACHE_SIZE s"

definition cache_index :: "u8 list \<Rightarrow> net \<Rightarrow> nat option" where
  "cache_index ip s = scan (\<lambda>i. a_valid (arp_cache s ! i) \<and> a_ip (arp_cache s ! i) = ip) 0 ARP_CACHE_SIZE"

definition pending_index :: "u8 list \<Rightarrow> net \<Rightarrow> nat option" where
  "pending_index ip s =
    scan (\<lambda>i. q_valid (arp_pending_requests s ! i) \<and> q_target_ip (arp_pending_requests s ! i) = ip) 0 ARP_CACHE_SIZE"

definition arp_cache_store :: "u8 list \<Rightarrow> u8 list \<Rightarrow> net \<Rightarrow> net" where
  "arp_cache_store ip mac s =
    (let fresh = \<lparr>a_ip = ip, a_mac = mac, a_timestamp = now_ms s, a_valid = True, a_permanent = False\<rparr> in
     case cache_index ip s of
       Some i \<Rightarrow> s\<lparr>arp_cache := (arp_cache s)[i := (arp_cache s ! i)\<lparr>a_mac := mac, a_timestamp := now_ms s\<rparr>]\<rparr>
     | None \<Rightarrow>
         (case scan (\<lambda>i. \<not> a_valid (arp_cache s ! i)) 0 ARP_CACHE_SIZE of
            Some i \<Rightarrow> s\<lparr>arp_cache := (arp_cache s)[i := fresh]\<rparr>
          | None \<Rightarrow>
              let oldest_idx = oldest_from (\<lambda>i. a_timestamp (arp_cache s ! i)) 0 1 (ARP_CACHE_SIZE - 1)
              in s\<lparr>arp_cache := (arp_cache s)[oldest_idx := fresh]\<rparr>))"

definition expired :: "net \<Rightarrow> arp_entry \<Rightarrow> bool" where
  "expired s c \<longleftrightarrow> a_valid c \<and> \<not> a_permanent c \<and> now_ms s - a_timestamp c > ARP_TIMEOUT_MS"

definition arp_cleanup_expired :: "net \<Rightarrow> net" where
  "arp_cleanup_expired s =
    s\<lparr>arp_cache := map (\<lambda>c. if expired s c then c\<lparr>a_valid := False\<rparr> else c) (arp_cache s)\<rparr>"

definition set_pending :: "nat \<Rightarrow> arp_pending \<Rightarrow> net \<Rightarrow> net" where
  "set_pending i q s = s\<lparr>arp_pending_requests := (arp_pending_requests s)[i := q]\<rparr>"

text \<open>\<^verbatim>\<open>arp_resolve\<close> returns the address, or \<open>None\<close> for its result 0.\<close>

definition arp_resolve :: "env \<Rightarrow> u8 list \<Rightarrow> net \<Rightarrow> u8 list option \<times> net" where
  "arp_resolve e ip s0 =
    (case arp_lookup ip s0 of
       (Some mac, s) \<Rightarrow> (Some mac, s)
     | (None, s) \<Rightarrow>
         (case pending_index ip s of
            Some i \<Rightarrow>
              let q = arp_pending_requests s ! i in
              if now_ms s - q_timestamp q > ARP_RETRY_TIMEOUT_MS then
                if q_retry_count q < ARP_RETRY_COUNT then
                  (None, arp_send_request e ip
                    (set_pending i (q\<lparr>q_retry_count := q_retry_count q + 1, q_timestamp := now_ms s\<rparr>) s))
                else (None, set_pending i (q\<lparr>q_valid := False\<rparr>) s)
              else (None, s)
          | None \<Rightarrow>
              (case scan (\<lambda>i. \<not> q_valid (arp_pending_requests s ! i)) 0 ARP_CACHE_SIZE of
                 Some i \<Rightarrow>
                   (None, arp_send_request e ip
                     (set_pending i \<lparr>q_target_ip = ip, q_timestamp = now_ms s, q_retry_count = 0, q_valid = True\<rparr> s))
               | None \<Rightarrow> (None, s))))"

definition arp_get_cache_info :: "net \<Rightarrow> nat \<times> nat" where
  "arp_get_cache_info s = (ARP_CACHE_SIZE, length (filter a_valid (arp_cache s)))"

definition arp_is_pending :: "u8 list \<Rightarrow> net \<Rightarrow> bool" where
  "arp_is_pending ip s \<longleftrightarrow> pending_index ip s \<noteq> None"

definition arp_get_pending_info :: "net \<Rightarrow> nat" where
  "arp_get_pending_info s = length (filter q_valid (arp_pending_requests s))"

section \<open>The invariant\<close>

text \<open>
  The tables keep their size, no two valid entries are for the same address, and no request has
  been repeated more often than the limit.
\<close>

definition unique_on :: "('a \<Rightarrow> bool) \<Rightarrow> ('a \<Rightarrow> 'k) \<Rightarrow> 'a list \<Rightarrow> bool" where
  "unique_on used key xs \<longleftrightarrow>
    (\<forall>i < length xs. \<forall>j < length xs. used (xs ! i) \<and> used (xs ! j) \<and> key (xs ! i) = key (xs ! j) \<longrightarrow> i = j)"

lemma unique_onD:
  "unique_on used key xs \<Longrightarrow> i < length xs \<Longrightarrow> j < length xs \<Longrightarrow> used (xs ! i) \<Longrightarrow> used (xs ! j) \<Longrightarrow>
   key (xs ! i) = key (xs ! j) \<Longrightarrow> i = j"
  unfolding unique_on_def by blast

lemma unique_on_update:
  assumes "unique_on used key xs"
    and "used x \<Longrightarrow> \<forall>j < length xs. j \<noteq> i \<and> used (xs ! j) \<longrightarrow> key (xs ! j) \<noteq> key x"
  shows "unique_on used key (xs[i := x])"
  unfolding unique_on_def
proof (intro allI impI)
  fix a b
  assume ab: "a < length (xs[i := x])" "b < length (xs[i := x])"
    "used (xs[i := x] ! a) \<and> used (xs[i := x] ! b) \<and> key (xs[i := x] ! a) = key (xs[i := x] ! b)"
  then show "a = b"
    using unique_onD [OF assms(1), of a b] assms(2) by (cases "a = i"; cases "b = i") auto
qed

definition arp_ok :: "net \<Rightarrow> bool" where
  "arp_ok s \<longleftrightarrow> length (arp_cache s) = ARP_CACHE_SIZE \<and> length (arp_pending_requests s) = ARP_CACHE_SIZE \<and>
    unique_on a_valid a_ip (arp_cache s) \<and> unique_on q_valid q_target_ip (arp_pending_requests s) \<and>
    (\<forall>q \<in> set (arp_pending_requests s). q_retry_count q \<le> ARP_RETRY_COUNT)"

lemma arp_okD:
  assumes "arp_ok s"
  shows "length (arp_cache s) = ARP_CACHE_SIZE" "length (arp_pending_requests s) = ARP_CACHE_SIZE"
    "unique_on a_valid a_ip (arp_cache s)" "unique_on q_valid q_target_ip (arp_pending_requests s)"
  using assms by (simp_all add: arp_ok_def)

lemma arp_ok_wire [simp]: "arp_ok (s\<lparr>wire := w\<rparr>) = arp_ok s" "arp_ok (s\<lparr>allocs := n\<rparr>) = arp_ok s"
  by (simp_all add: arp_ok_def)

lemma arp_ok_cache_update:
  assumes "arp_ok s" and "a_valid c \<Longrightarrow> \<forall>j < ARP_CACHE_SIZE. j \<noteq> i \<and> a_valid (arp_cache s ! j) \<longrightarrow> a_ip (arp_cache s ! j) \<noteq> a_ip c"
  shows "arp_ok (s\<lparr>arp_cache := (arp_cache s)[i := c]\<rparr>)"
  using assms unique_on_update [of a_valid a_ip "arp_cache s" c i] by (simp add: arp_ok_def)

lemma set_list_update_all: "(\<forall>x \<in> set xs. P x) \<Longrightarrow> P y \<Longrightarrow> \<forall>x \<in> set (xs[i := y]). P x"
  using set_update_subset_insert [of xs i y] by blast

lemma arp_ok_pending_update:
  assumes "arp_ok s" and "q_retry_count q \<le> ARP_RETRY_COUNT"
    and "q_valid q \<Longrightarrow> \<forall>j < ARP_CACHE_SIZE. j \<noteq> i \<and> q_valid (arp_pending_requests s ! j) \<longrightarrow>
      q_target_ip (arp_pending_requests s ! j) \<noteq> q_target_ip q"
  shows "arp_ok (set_pending i q s)"
  using assms unique_on_update [of q_valid q_target_ip "arp_pending_requests s" q i]
    set_list_update_all [of "arp_pending_requests s" "\<lambda>q. q_retry_count q \<le> ARP_RETRY_COUNT" q i]
  by (simp add: arp_ok_def set_pending_def)

section \<open>Looking up\<close>

lemma arp_lookup_from_none:
  "(\<forall>j. i \<le> j \<and> j < i + n \<longrightarrow> \<not> (a_valid (arp_cache s ! j) \<and> a_ip (arp_cache s ! j) = ip)) \<Longrightarrow>
   arp_lookup_from ip i n s = (None, s)"
proof (induction n arbitrary: i)
  case (Suc n)
  then have "\<not> (a_valid (arp_cache s ! i) \<and> a_ip (arp_cache s ! i) = ip)" by auto
  moreover have "arp_lookup_from ip (i + 1) n s = (None, s)" using Suc.prems by (intro Suc.IH) auto
  ultimately show ?case by (simp only: arp_lookup_from.simps Let_def if_False)
qed simp

lemma arp_lookup_from_skip:
  "(\<forall>j. i \<le> j \<and> j < i + k \<longrightarrow> \<not> (a_valid (arp_cache s ! j) \<and> a_ip (arp_cache s ! j) = ip)) \<Longrightarrow>
   arp_lookup_from ip i (k + n) s = arp_lookup_from ip (i + k) n s"
proof (induction k arbitrary: i)
  case (Suc k)
  then have "\<not> (a_valid (arp_cache s ! i) \<and> a_ip (arp_cache s ! i) = ip)" by auto
  moreover have "arp_lookup_from ip (i + 1) (k + n) s = arp_lookup_from ip (i + 1 + k) n s"
    using Suc.prems by (intro Suc.IH) auto
  ultimately show ?case by (simp only: arp_lookup_from.simps Let_def if_False add_Suc) simp
qed simp

lemma cache_index_iff:
  assumes "arp_ok s"
  shows "cache_index ip s = Some i \<longleftrightarrow>
    i < ARP_CACHE_SIZE \<and> a_valid (arp_cache s ! i) \<and> a_ip (arp_cache s ! i) = ip"
proof
  assume i: "i < ARP_CACHE_SIZE \<and> a_valid (arp_cache s ! i) \<and> a_ip (arp_cache s ! i) = ip"
  then have "\<not> (a_valid (arp_cache s ! j) \<and> a_ip (arp_cache s ! j) = ip)" if "j < i" for j
    using unique_onD [OF arp_okD(3) [OF assms], of i j] arp_okD(1) [OF assms] that by auto
  with i show "cache_index ip s = Some i" unfolding cache_index_def scan_Some_iff by simp
qed (simp add: cache_index_def scan_Some_iff)

lemma arp_lookup_spec:
  assumes ok: "arp_ok s"
  shows "arp_lookup ip s =
    (case cache_index ip s of
       None \<Rightarrow> (None, s)
     | Some i \<Rightarrow> if expired s (arp_cache s ! i)
         then (None, s\<lparr>arp_cache := (arp_cache s)[i := (arp_cache s ! i)\<lparr>a_valid := False\<rparr>]\<rparr>)
         else (Some (a_mac (arp_cache s ! i)), s))"
proof (cases "cache_index ip s")
  case None
  then have "arp_lookup_from ip 0 ARP_CACHE_SIZE s = (None, s)"
    by (intro arp_lookup_from_none) (simp add: cache_index_def scan_None_iff)
  with None show ?thesis by (simp add: arp_lookup_def)
next
  case (Some i)
  let ?c = "arp_cache s ! i"
  let ?s' = "s\<lparr>arp_cache := (arp_cache s)[i := ?c\<lparr>a_valid := False\<rparr>]\<rparr>"
  have i: "i < ARP_CACHE_SIZE" "a_valid ?c" "a_ip ?c = ip"
    using Some cache_index_iff [OF ok] by simp_all
  have other: "\<not> (a_valid (arp_cache s ! j) \<and> a_ip (arp_cache s ! j) = ip)" if "j < ARP_CACHE_SIZE" "j \<noteq> i" for j
    using unique_onD [OF arp_okD(3) [OF ok], of i j] arp_okD(1) [OF ok] i that by auto
  obtain n where n: "ARP_CACHE_SIZE = i + Suc n" using i(1) by (metis less_imp_Suc_add add_Suc_right)
  have "\<forall>j. 0 \<le> j \<and> j < 0 + i \<longrightarrow> \<not> (a_valid (arp_cache s ! j) \<and> a_ip (arp_cache s ! j) = ip)"
  proof (intro allI impI)
    fix j assume "0 \<le> j \<and> j < 0 + i"
    then show "\<not> (a_valid (arp_cache s ! j) \<and> a_ip (arp_cache s ! j) = ip)" using i(1) by (intro other) auto
  qed
  from arp_lookup_from_skip [OF this, of "Suc n"] have "arp_lookup ip s = arp_lookup_from ip i (Suc n) s"
    by (simp only: arp_lookup_def n add_0)
  moreover have "arp_lookup_from ip (i + 1) n ?s' = (None, ?s')"
  proof (intro arp_lookup_from_none allI impI)
    fix j assume j: "i + 1 \<le> j \<and> j < i + 1 + n"
    then have "\<not> (a_valid (arp_cache s ! j) \<and> a_ip (arp_cache s ! j) = ip)" using n by (intro other) auto
    with j show "\<not> (a_valid (arp_cache ?s' ! j) \<and> a_ip (arp_cache ?s' ! j) = ip)" by simp
  qed
  ultimately show ?thesis using i Some by (simp add: expired_def Let_def)
qed

lemma arp_lookup_frame:
  "arp_ok s \<Longrightarrow> arp_lookup ip s = (r, s') \<Longrightarrow> arp_ok s' \<and> (\<exists>c. s' = s\<lparr>arp_cache := c\<rparr>)"
proof -
  assume ok: "arp_ok s" and r: "arp_lookup ip s = (r, s')"
  have same: "s = s\<lparr>arp_cache := arp_cache s\<rparr>" by simp
  show ?thesis
  proof (cases "cache_index ip s")
    case None
    with r have "s' = s" by (simp add: arp_lookup_spec [OF ok])
    with ok same show ?thesis by blast
  next
    case (Some i)
    show ?thesis
    proof (cases "expired s (arp_cache s ! i)")
      case True
      with r Some have "s' = s\<lparr>arp_cache := (arp_cache s)[i := (arp_cache s ! i)\<lparr>a_valid := False\<rparr>]\<rparr>"
        by (simp add: arp_lookup_spec [OF ok])
      with arp_ok_cache_update [OF ok, of "(arp_cache s ! i)\<lparr>a_valid := False\<rparr>" i] show ?thesis by auto
    next
      case False
      with r Some have "s' = s" by (simp add: arp_lookup_spec [OF ok])
      with ok same show ?thesis by blast
    qed
  qed
qed

lemma arp_lookup_known:
  assumes "arp_ok s"
  shows "fst (arp_lookup ip s) = Some mac \<longleftrightarrow> (\<exists>i < ARP_CACHE_SIZE.
    a_valid (arp_cache s ! i) \<and> a_ip (arp_cache s ! i) = ip \<and> \<not> expired s (arp_cache s ! i) \<and> a_mac (arp_cache s ! i) = mac)"
proof
  assume "fst (arp_lookup ip s) = Some mac"
  then obtain i where i: "cache_index ip s = Some i" "\<not> expired s (arp_cache s ! i)" "a_mac (arp_cache s ! i) = mac"
    by (cases "cache_index ip s") (simp_all add: arp_lookup_spec [OF assms] split: if_splits)
  with cache_index_iff [OF assms, of ip i] show "\<exists>i < ARP_CACHE_SIZE. a_valid (arp_cache s ! i) \<and>
      a_ip (arp_cache s ! i) = ip \<and> \<not> expired s (arp_cache s ! i) \<and> a_mac (arp_cache s ! i) = mac" by blast
next
  assume "\<exists>i < ARP_CACHE_SIZE. a_valid (arp_cache s ! i) \<and> a_ip (arp_cache s ! i) = ip \<and>
      \<not> expired s (arp_cache s ! i) \<and> a_mac (arp_cache s ! i) = mac"
  then obtain i where i: "i < ARP_CACHE_SIZE" "a_valid (arp_cache s ! i)" "a_ip (arp_cache s ! i) = ip"
    "\<not> expired s (arp_cache s ! i)" "a_mac (arp_cache s ! i) = mac" by blast
  then have "cache_index ip s = Some i" using cache_index_iff [OF assms] by simp
  with i show "fst (arp_lookup ip s) = Some mac" by (simp add: arp_lookup_spec [OF assms])
qed

section \<open>Storing\<close>

text \<open>The entry that is written: the address's own, else a free one, else the oldest of a full table.\<close>

definition store_slot :: "u8 list \<Rightarrow> net \<Rightarrow> nat \<Rightarrow> bool" where
  "store_slot ip s i \<longleftrightarrow> i < ARP_CACHE_SIZE \<and>
    (cache_index ip s = Some i \<or>
     cache_index ip s = None \<and> (\<not> a_valid (arp_cache s ! i) \<or>
       (\<forall>j < ARP_CACHE_SIZE. a_valid (arp_cache s ! j) \<and> a_timestamp (arp_cache s ! i) \<le> a_timestamp (arp_cache s ! j))))"

lemma arp_cache_store_cases:
  obtains i c where "arp_cache_store ip mac s = s\<lparr>arp_cache := (arp_cache s)[i := c]\<rparr>"
    and "store_slot ip s i" and "a_valid c" and "a_ip c = ip" and "a_mac c = mac" and "a_timestamp c = now_ms s"
proof (cases "cache_index ip s")
  case (Some i)
  then have "i < ARP_CACHE_SIZE" "a_valid (arp_cache s ! i)" "a_ip (arp_cache s ! i) = ip"
    by (simp_all add: cache_index_def scan_Some_iff)
  with Some that [of i "(arp_cache s ! i)\<lparr>a_mac := mac, a_timestamp := now_ms s\<rparr>"] show ?thesis
    by (simp add: arp_cache_store_def store_slot_def)
next
  case None
  let ?fresh = "\<lparr>a_ip = ip, a_mac = mac, a_timestamp = now_ms s, a_valid = True, a_permanent = False\<rparr>"
  let ?old = "oldest_from (\<lambda>i. a_timestamp (arp_cache s ! i)) 0 1 (ARP_CACHE_SIZE - 1)"
  show ?thesis
  proof (cases "scan (\<lambda>i. \<not> a_valid (arp_cache s ! i)) 0 ARP_CACHE_SIZE")
    case (Some i)
    with that [of i ?fresh] \<open>cache_index ip s = None\<close> show ?thesis
      by (simp add: arp_cache_store_def store_slot_def scan_Some_iff)
  next
    case full: None
    then have valid: "\<forall>j < ARP_CACHE_SIZE. a_valid (arp_cache s ! j)" by (simp add: scan_None_iff)
    have "?old < ARP_CACHE_SIZE" by (rule oldest_from_range) (simp_all add: ARP_CACHE_SIZE_def)
    moreover have "a_timestamp (arp_cache s ! ?old) \<le> a_timestamp (arp_cache s ! j)" if "j < ARP_CACHE_SIZE" for j
      using oldest_from_least [of "\<lambda>i. a_timestamp (arp_cache s ! i)" 0 1 "ARP_CACHE_SIZE - 1"] that
      by (cases "j = 0") auto
    ultimately have "store_slot ip s ?old" using valid None by (simp add: store_slot_def)
    with that [of ?old ?fresh] None full show ?thesis by (simp add: arp_cache_store_def Let_def)
  qed
qed

lemma store_slot_unique:
  assumes "arp_ok s" and "store_slot ip s i" and "j < ARP_CACHE_SIZE" and "j \<noteq> i"
  shows "\<not> (a_valid (arp_cache s ! j) \<and> a_ip (arp_cache s ! j) = ip)"
  using assms cache_index_iff [OF assms(1), of ip j] by (auto simp: store_slot_def)

lemma arp_cache_store_ok:
  assumes "arp_ok s"
  shows "arp_ok (arp_cache_store ip mac s)" "fst (arp_lookup ip (arp_cache_store ip mac s)) = Some mac"
    "\<exists>c. arp_cache_store ip mac s = s\<lparr>arp_cache := c\<rparr>"
proof -
  obtain i c where c: "arp_cache_store ip mac s = s\<lparr>arp_cache := (arp_cache s)[i := c]\<rparr>"
    "store_slot ip s i" "a_valid c" "a_ip c = ip" "a_mac c = mac" "a_timestamp c = now_ms s"
    by (rule arp_cache_store_cases)
  have i: "i < ARP_CACHE_SIZE" using c(2) by (simp add: store_slot_def)
  show ok': "arp_ok (arp_cache_store ip mac s)"
    unfolding c(1) using store_slot_unique [OF assms c(2)] c(4) by (intro arp_ok_cache_update [OF assms]) auto
  have "\<exists>k < ARP_CACHE_SIZE. a_valid (arp_cache (arp_cache_store ip mac s) ! k) \<and>
      a_ip (arp_cache (arp_cache_store ip mac s) ! k) = ip \<and>
      \<not> expired (arp_cache_store ip mac s) (arp_cache (arp_cache_store ip mac s) ! k) \<and>
      a_mac (arp_cache (arp_cache_store ip mac s) ! k) = mac"
    using c(3-6) i arp_okD(1) [OF assms] unfolding c(1)
    by (intro exI [of _ i]) (simp add: expired_def ARP_TIMEOUT_MS_def)
  then show "fst (arp_lookup ip (arp_cache_store ip mac s)) = Some mac" by (simp add: arp_lookup_known [OF ok'])
  show "\<exists>c. arp_cache_store ip mac s = s\<lparr>arp_cache := c\<rparr>" using c(1) by blast
qed

lemma store_other:
  assumes ok: "arp_ok s" and ne: "ip' \<noteq> ip"
    and keep: "\<And>i. store_slot ip s i \<Longrightarrow> \<not> (a_valid (arp_cache s ! i) \<and> a_ip (arp_cache s ! i) = ip')"
  shows "fst (arp_lookup ip' (arp_cache_store ip mac s)) = fst (arp_lookup ip' s)"
proof -
  let ?s' = "arp_cache_store ip mac s"
  obtain i c where c: "?s' = s\<lparr>arp_cache := (arp_cache s)[i := c]\<rparr>" "store_slot ip s i" "a_ip c = ip"
    by (rule arp_cache_store_cases)
  have i: "i < ARP_CACHE_SIZE" using c(2) by (simp add: store_slot_def)
  have at: "arp_cache ?s' ! k = (if k = i then c else arp_cache s ! k)" if "k < ARP_CACHE_SIZE" for k
    using that arp_okD(1) [OF ok] by (simp add: c(1))
  have ex: "expired ?s' = expired s" by (rule ext) (simp add: c(1) expired_def)
  have "fst (arp_lookup ip' ?s') = Some m \<longleftrightarrow> fst (arp_lookup ip' s) = Some m" for m
    unfolding arp_lookup_known [OF ok] arp_lookup_known [OF arp_cache_store_ok(1) [OF ok]] ex
    using at keep [OF c(2)] c(3) ne by (metis (no_types, lifting))
  then show ?thesis by (metis not_Some_eq)
qed

text \<open>Requests and retries keep the invariant and change only the two tables and the wire.\<close>

lemma arp_send_request_frame:
  "\<exists>w. arp_send_request e ip s = s\<lparr>wire := w\<rparr>"
  by (auto simp: arp_send_request_def net_send_packet_def Let_def)

lemma arp_ok_send_request [simp]: "arp_ok (arp_send_request e ip s) = arp_ok s"
  using arp_send_request_frame [of e ip s] by auto

lemma pending_retry_le:
  "arp_ok s \<Longrightarrow> i < ARP_CACHE_SIZE \<Longrightarrow> q_retry_count (arp_pending_requests s ! i) \<le> ARP_RETRY_COUNT"
  by (simp add: arp_ok_def)

lemma pending_index_iff:
  assumes "arp_ok s"
  shows "pending_index ip s = Some i \<longleftrightarrow> i < ARP_CACHE_SIZE \<and>
    q_valid (arp_pending_requests s ! i) \<and> q_target_ip (arp_pending_requests s ! i) = ip"
proof
  let ?p = "arp_pending_requests s"
  assume i: "i < ARP_CACHE_SIZE \<and> q_valid (?p ! i) \<and> q_target_ip (?p ! i) = ip"
  then have "\<not> (q_valid (?p ! j) \<and> q_target_ip (?p ! j) = ip)" if "j < i" for j
    using unique_onD [OF arp_okD(4) [OF assms], of i j] arp_okD(2) [OF assms] that by auto
  with i show "pending_index ip s = Some i" unfolding pending_index_def scan_Some_iff by simp
qed (simp add: pending_index_def scan_Some_iff)

text \<open>The step of \<^verbatim>\<open>arp_resolve\<close> after the lookup has missed.\<close>

lemma arp_resolve_miss:
  assumes ok: "arp_ok s" and miss: "arp_lookup ip s0 = (None, s)"
  obtains "arp_resolve e ip s0 = (None, s)"
  | i q where "arp_resolve e ip s0 = (None, set_pending i q s)" and "arp_ok (set_pending i q s)"
  | i q where "arp_resolve e ip s0 = (None, arp_send_request e ip (set_pending i q s))" and "arp_ok (set_pending i q s)"
proof (cases "pending_index ip s")
  case (Some i)
  let ?q = "arp_pending_requests s ! i"
  have i: "i < ARP_CACHE_SIZE" "q_valid ?q" "q_target_ip ?q = ip" using Some pending_index_iff [OF ok] by simp_all
  have other: "\<forall>j < ARP_CACHE_SIZE. j \<noteq> i \<and> q_valid (arp_pending_requests s ! j) \<longrightarrow>
      q_target_ip (arp_pending_requests s ! j) \<noteq> ip"
  proof (intro allI impI notI)
    fix j assume "j < ARP_CACHE_SIZE" "j \<noteq> i \<and> q_valid (arp_pending_requests s ! j)"
      "q_target_ip (arp_pending_requests s ! j) = ip"
    with pending_index_iff [OF ok, of ip j] Some show False by simp
  qed
  note le = pending_retry_le [OF ok i(1)]
  consider "\<not> now_ms s - q_timestamp ?q > ARP_RETRY_TIMEOUT_MS"
    | "now_ms s - q_timestamp ?q > ARP_RETRY_TIMEOUT_MS" "q_retry_count ?q < ARP_RETRY_COUNT"
    | "now_ms s - q_timestamp ?q > ARP_RETRY_TIMEOUT_MS" "\<not> q_retry_count ?q < ARP_RETRY_COUNT" by blast
  then show ?thesis
  proof cases
    case 1
    with Some miss that(1) show ?thesis by (simp add: arp_resolve_def Let_def)
  next
    case 2
    let ?q' = "?q\<lparr>q_retry_count := q_retry_count ?q + 1, q_timestamp := now_ms s\<rparr>"
    have "arp_ok (set_pending i ?q' s)" using 2 i other by (intro arp_ok_pending_update [OF ok]) simp_all
    with 2 Some miss that(3) [of i ?q'] show ?thesis by (simp add: arp_resolve_def Let_def)
  next
    case 3
    have "arp_ok (set_pending i (?q\<lparr>q_valid := False\<rparr>) s)" using le by (intro arp_ok_pending_update [OF ok]) simp_all
    with 3 Some miss that(2) [of i "?q\<lparr>q_valid := False\<rparr>"] show ?thesis by (simp add: arp_resolve_def Let_def)
  qed
next
  case None
  let ?free = "scan (\<lambda>i. \<not> q_valid (arp_pending_requests s ! i)) 0 ARP_CACHE_SIZE"
  show ?thesis
  proof (cases ?free)
    case full: None
    with None miss that(1) show ?thesis by (simp add: arp_resolve_def)
  next
    case (Some i)
    let ?q = "\<lparr>q_target_ip = ip, q_timestamp = now_ms s, q_retry_count = 0, q_valid = True\<rparr>"
    have "arp_ok (set_pending i ?q s)"
      using None by (intro arp_ok_pending_update [OF ok]) (auto simp: pending_index_def scan_None_iff)
    with Some None miss that(3) [of i ?q] show ?thesis by (simp add: arp_resolve_def)
  qed
qed

lemma arp_resolve_ok:
  assumes ok: "arp_ok s" and r: "arp_resolve e ip s = (r, s')"
  shows "arp_ok s'" "\<exists>c p w. s' = s\<lparr>arp_cache := c, arp_pending_requests := p, wire := w\<rparr>"
    "r = fst (arp_lookup ip s)"
proof -
  obtain r0 s1 where l: "arp_lookup ip s = (r0, s1)" by (cases "arp_lookup ip s") blast
  obtain c where ok1: "arp_ok s1" and s1: "s1 = s\<lparr>arp_cache := c\<rparr>" using arp_lookup_frame [OF ok l] by blast
  have base: "s1 = s\<lparr>arp_cache := c, arp_pending_requests := arp_pending_requests s, wire := wire s\<rparr>"
    by (simp add: s1)
  have "arp_ok s' \<and> (\<exists>c p w. s' = s\<lparr>arp_cache := c, arp_pending_requests := p, wire := w\<rparr>) \<and> r = r0"
  proof (cases r0)
    case (Some mac)
    with l r have "s' = s1" "r = r0" by (auto simp: arp_resolve_def)
    with ok1 base show ?thesis by blast
  next
    case None
    with l have l': "arp_lookup ip s = (None, s1)" by simp
    from ok1 l' show ?thesis
    proof (rule arp_resolve_miss [where e = e])
      assume "arp_resolve e ip s = (None, s1)"
      with r None have "s' = s1" "r = r0" by auto
      with ok1 base show ?thesis by blast
    next
      fix i q assume a: "arp_resolve e ip s = (None, set_pending i q s1)" "arp_ok (set_pending i q s1)"
      have "set_pending i q s1 = s\<lparr>arp_cache := c,
          arp_pending_requests := (arp_pending_requests s)[i := q], wire := wire s\<rparr>"
        by (simp add: s1 set_pending_def)
      moreover have "s' = set_pending i q s1" "r = r0" using a r None by auto
      ultimately show ?thesis using a(2) by blast
    next
      fix i q assume a: "arp_resolve e ip s = (None, arp_send_request e ip (set_pending i q s1))"
        "arp_ok (set_pending i q s1)"
      obtain w where "arp_send_request e ip (set_pending i q s1) = (set_pending i q s1)\<lparr>wire := w\<rparr>"
        using arp_send_request_frame by blast
      with a r None s1 show ?thesis by (auto simp: set_pending_def arp_ok_def)
    qed
  qed
  then show "arp_ok s'" "\<exists>c p w. s' = s\<lparr>arp_cache := c, arp_pending_requests := p, wire := w\<rparr>"
    "r = fst (arp_lookup ip s)" using l by simp_all
qed

lemma arp_cleanup_expired_ok:
  assumes "arp_ok s"
  shows "arp_ok (arp_cleanup_expired s)"
proof -
  let ?f = "\<lambda>c. if expired s c then c\<lparr>a_valid := False\<rparr> else c"
  have "unique_on a_valid a_ip (map ?f (arp_cache s))"
    unfolding unique_on_def using unique_onD [OF arp_okD(3) [OF assms]] by (auto split: if_splits)
  with assms show ?thesis by (simp add: arp_ok_def arp_cleanup_expired_def)
qed

section \<open>Properties\<close>

text \<open>
  C28. The cache answers with what was stored last: after storing an address its lookup gives that
  hardware address (also when the entry had been marked permanent), every other address is
  answered as before, except that storing a new address into a full table forgets one entry
  with the smallest time stamp; and no address ever has two entries.
\<close>

theorem arp_cache_correct:
  assumes ok: "arp_ok s"
  shows "arp_ok (arp_cache_store ip mac s) \<and>
    fst (arp_lookup ip (arp_cache_store ip mac s)) = Some mac \<and>
    (\<forall>ip'. ip' \<noteq> ip \<longrightarrow>
      fst (arp_lookup ip' (arp_cache_store ip mac s)) = fst (arp_lookup ip' s) \<or>
      (\<exists>i < ARP_CACHE_SIZE. a_ip (arp_cache s ! i) = ip' \<and>
        (\<forall>j < ARP_CACHE_SIZE. a_valid (arp_cache s ! j) \<and>
          a_ip (arp_cache s ! j) \<noteq> ip \<and> a_timestamp (arp_cache s ! i) \<le> a_timestamp (arp_cache s ! j))))"
proof (intro conjI allI impI)
  fix ip' assume ne: "ip' \<noteq> ip"
  let ?evicted = "\<lambda>i. store_slot ip s i \<and> a_valid (arp_cache s ! i) \<and> a_ip (arp_cache s ! i) = ip'"
  show "fst (arp_lookup ip' (arp_cache_store ip mac s)) = fst (arp_lookup ip' s) \<or>
      (\<exists>i < ARP_CACHE_SIZE. a_ip (arp_cache s ! i) = ip' \<and> (\<forall>j < ARP_CACHE_SIZE. a_valid (arp_cache s ! j) \<and>
          a_ip (arp_cache s ! j) \<noteq> ip \<and> a_timestamp (arp_cache s ! i) \<le> a_timestamp (arp_cache s ! j)))"
  proof (cases "\<exists>i. ?evicted i")
    case True
    then obtain i where i: "store_slot ip s i" "a_valid (arp_cache s ! i)" "a_ip (arp_cache s ! i) = ip'" by blast
    then have none: "cache_index ip s = None" using ne cache_index_iff [OF ok, of ip i] by (auto simp: store_slot_def)
    then have "\<forall>j < ARP_CACHE_SIZE. a_valid (arp_cache s ! j) \<longrightarrow> a_ip (arp_cache s ! j) \<noteq> ip"
      by (simp add: cache_index_def scan_None_iff)
    with i none show ?thesis by (auto simp: store_slot_def)
  next
    case False
    then show ?thesis using store_other [OF ok ne] by blast
  qed
qed (use arp_cache_store_ok [OF ok] in simp_all)

definition small_net :: net where
  "small_net = \<lparr>dev_mac = [2, 0, 0, 0, 0, 1], dev_ip = [10, 0, 2, 15], dev_mask = [255, 255, 255, 0],
     dev_gw = [10, 0, 2, 2], dev_dns = [10, 0, 2, 3], now_ms = 1000, hpet_ticks = 1000, wire = [], allocs = 0,
     g_drop_unknown_l2 = 0, g_drop_igmp = 0, g_drop_unknown_ip = 0, g_drop_malformed = 0, g_last_ethertype = 0,
     g_last_ip_proto = 0, arp_cache = replicate 16 no_entry, arp_pending_requests = replicate 16 no_pending,
     ip_id_counter = 0, ip_lo_frame = replicate 512 None, ip_lo_head = 0, ip_lo_tail = 0, ip_lo_count = 0,
     ip_lo_draining = False,
     ip_arpq = replicate 16 \<lparr>w_valid = False, w_next_hop = replicate 4 0, w_dst_ip = replicate 4 0,
       w_protocol = 0, w_payload = None, w_queued_at = 0\<rparr>,
     ip_frag_slots = replicate 8 \<lparr>f_src_ip = replicate 4 0, f_dst_ip = replicate 4 0, f_id = 0, f_protocol = 0,
       f_active = False, f_total_len = 0, f_received_bytes = 0, f_first_seen_ms = 0, f_pieces = []\<rparr>,
     icmp_id_counter = 0, expect_id = 0xFFFF, expect_seq = 0xFFFF, expect_hit = False,
     udp_handlers = (\<lambda>_. None), udp_next = 49152,
     udp_pcbs = replicate 32 \<lparr>u_in_use = False, u_bound = False, u_connected = False, u_local_port = 0,
       u_dest_ip = replicate 4 0, u_dest_port = 0,
       u_rx = replicate 8 \<lparr>p_src_ip = replicate 4 0, p_src_port = 0, p_len = 0, p_data = replicate 1472 0\<rparr>,
       u_rx_head = 0, u_rx_tail = 0, u_rx_count = 0\<rparr>,
     dns_id_counter = 1,
     dns_cache = replicate 16 \<lparr>d_hostname = replicate 128 0, d_ip = replicate 4 0, d_ttl_s = 0, d_cached_at_ms = 0, d_valid = False\<rparr>,
     dns_cache_initialized = False, dns_pending_id = 0, dns_have_answer = False, dns_answer_ip = replicate 4 0,
     dns_answer_ttl = 0, idle_last_tick = 0\<rparr>"

lemma arp_init_ok: "arp_ok (arp_init s)"
  by (simp add: arp_ok_def arp_init_def unique_on_def no_entry_def no_pending_def)

lemma small_net_arp: "arp_ok small_net"
  using arp_init_ok [of small_net] by (simp add: arp_init_def small_net_def ARP_CACHE_SIZE_def)

theorem arp_cache_correct_witness:
  "fst (arp_lookup [10, 0, 2, 2] (arp_cache_store [10, 0, 2, 2] [2, 0, 0, 0, 0, 9] small_net)) = Some [2, 0, 0, 0, 0, 9]"
  using arp_cache_correct [OF small_net_arp, of "[10, 0, 2, 2]" "[2, 0, 0, 0, 0, 9]"] by (elim conjE)

end
