(* ===== verification/Ip.thy ===== *)
theory Ip
  imports Arp Ring
begin

text \<open>
  Sending IPv4 datagrams, \<^verbatim>\<open>src/src/net_ip.c\<close>: the frame with its header and checksum, the choice
  of the next hop, fragmentation, the queue of datagrams that wait for an address, and the queue
  of datagrams for this host. With them come the operations of \<^verbatim>\<open>src/src/net_arp.c\<close> that release
  waiting datagrams.

  The outer \<open>None\<close> of a sending operation is a write behind the end of a packet buffer.
\<close>

unbundle bit_operations_syntax

definition IP_FLAG_DF :: u16 where "IP_FLAG_DF = 0x4000"
definition IP_FLAG_MF :: u16 where "IP_FLAG_MF = 0x2000"
definition IP_MTU :: nat where "IP_MTU = 1500"
definition IP_LO_MAX :: nat where "IP_LO_MAX = 512"
definition IP_ARPQ_SLOTS :: nat where "IP_ARPQ_SLOTS = 16"
definition IP_ARPQ_MAX_AGE_MS :: u64 where "IP_ARPQ_MAX_AGE_MS = 3000"

definition zero_ip :: "u8 list" where "zero_ip = [0, 0, 0, 0]"
definition broadcast_ip :: "u8 list" where "broadcast_ip = [255, 255, 255, 255]"

section \<open>Local destinations\<close>

definition ip_is_local_dst :: "u8 list \<Rightarrow> net \<Rightarrow> bool" where
  "ip_is_local_dst dst s \<longleftrightarrow> dst ! 0 = 127 \<or> dev_ip s \<noteq> zero_ip \<and> dst = dev_ip s"

definition ip_select_src :: "u8 list \<Rightarrow> net \<Rightarrow> u8 list" where
  "ip_select_src dst s = (if dst ! 0 = 127 then dst else dev_ip s)"

definition ip_header :: "u16 \<Rightarrow> u16 \<Rightarrow> u16 \<Rightarrow> u8 \<Rightarrow> u16 \<Rightarrow> u8 list \<Rightarrow> u8 list \<Rightarrow> u8 list" where
  "ip_header total_len ident flags_frag protocol checksum src dst =
    [0x45, 0, hi8 total_len, lo8 total_len, hi8 ident, lo8 ident, hi8 flags_frag, lo8 flags_frag,
     64, protocol, hi8 checksum, lo8 checksum] @ src @ dst"

text \<open>The header with its checksum filled in; the fields are in network order.\<close>

definition ip_header_summed :: "u16 \<Rightarrow> u16 \<Rightarrow> u16 \<Rightarrow> u8 \<Rightarrow> u8 list \<Rightarrow> u8 list \<Rightarrow> u8 list" where
  "ip_header_summed total_len ident flags_frag protocol src dst =
    ip_header total_len ident flags_frag protocol
      (ip_header_checksum_bytes (ip_header total_len ident flags_frag protocol 0 src dst)) src dst"

section \<open>The loopback queue\<close>

definition lo_put :: "net \<Rightarrow> u8 list \<Rightarrow> net" where
  "lo_put s f =
    (if ip_lo_count s \<ge> IP_LO_MAX then s
     else s\<lparr>ip_lo_frame := (ip_lo_frame s)[ip_lo_tail s := Some f],
            ip_lo_tail := (ip_lo_tail s + 1) mod IP_LO_MAX, ip_lo_count := ip_lo_count s + 1\<rparr>)"

text \<open>Takes the frame at the head; the slot becomes \<open>NULL\<close>.\<close>

definition lo_get :: "net \<Rightarrow> (net \<times> u8 list option) option" where
  "lo_get s =
    (if ip_lo_count s = 0 then None
     else Some (s\<lparr>ip_lo_frame := (ip_lo_frame s)[ip_lo_head s := None],
                  ip_lo_head := (ip_lo_head s + 1) mod IP_LO_MAX, ip_lo_count := ip_lo_count s - 1\<rparr>,
                ip_lo_frame s ! ip_lo_head s))"

definition ip_lo_enqueue :: "env \<Rightarrow> u8 list \<Rightarrow> u8 \<Rightarrow> u8 list \<Rightarrow> net \<Rightarrow> int \<times> net" where
  "ip_lo_enqueue e dst_ip protocol payload s =
    (let total_n = 20 + length payload in
     if total_n > 0xFFFF then (- 1, s)
     else
       let (ok, s1) = try_alloc e (14 + total_n) s in
       if \<not> ok then (- 1, s1)
       else
         let ident = ip_id_counter s1;
             s2 = s1\<lparr>ip_id_counter := ident + 1\<rparr>;
             h = ip_header_summed (of_nat total_n) ident 0x4000 protocol (ip_select_src dst_ip s2) dst_ip;
             f = dev_mac s2 @ dev_mac s2 @ [0x08, 0x00] @ h @ payload
         in (0, lo_put s2 f))"

definition ip_loopback_pending :: "net \<Rightarrow> bool" where
  "ip_loopback_pending s \<longleftrightarrow> ip_lo_count s \<noteq> 0"

section \<open>Frames for the card\<close>

text \<open>
  \<^verbatim>\<open>ip_send_frame\<close>: the buffer has \<open>14 + total_len\<close> bytes, where \<open>total_len\<close> is computed with 16 bits.
\<close>

definition ip_send_frame ::
  "env \<Rightarrow> u8 list \<Rightarrow> u8 list \<Rightarrow> u8 list \<Rightarrow> u8 \<Rightarrow> u16 \<Rightarrow> u16 \<Rightarrow> u8 list \<Rightarrow> net \<Rightarrow> (int \<times> net) option" where
  "ip_send_frame e dst_mac our_ip dst_ip protocol ident flags_frag_nbo payload s =
    (let total_len = 20 + of_nat (length payload) :: u16;
         (ok, s1) = try_alloc e (14 + unat total_len) s
     in if \<not> ok then Some (- 1, s1)
        else
          let h = ip_header_summed total_len ident (bswap16 flags_frag_nbo) protocol our_ip dst_ip;
              packet = dst_mac @ dev_mac s1 @ [0x08, 0x00] @ h @ payload
          in if length packet > 14 + unat total_len then None
             else Some (net_send_packet e packet s1))"

text \<open>The size of the fragment at an offset, and its flags with the offset in units of 8 bytes.\<close>

definition max_frag_payload :: nat where
  "max_frag_payload = (IP_MTU - 20) div 8 * 8"

definition frag_chunk :: "nat \<Rightarrow> nat \<Rightarrow> nat" where
  "frag_chunk payload_len offset =
    (let chunk = payload_len - offset in if chunk > max_frag_payload then max_frag_payload else chunk)"

definition frag_flags :: "nat \<Rightarrow> nat \<Rightarrow> u16" where
  "frag_flags payload_len offset =
    of_nat (offset div 8) OR (if payload_len - offset > max_frag_payload then IP_FLAG_MF else 0)"

function send_fragments ::
  "env \<Rightarrow> u8 list \<Rightarrow> u8 list \<Rightarrow> u8 list \<Rightarrow> u8 \<Rightarrow> u16 \<Rightarrow> u8 list \<Rightarrow> nat \<Rightarrow> net \<Rightarrow> (int \<times> net) option" where
  "send_fragments e dst_mac our_ip dst_ip protocol ident payload offset s =
    (if offset < length payload then
       case ip_send_frame e dst_mac our_ip dst_ip protocol ident (bswap16 (frag_flags (length payload) offset))
              (take (frag_chunk (length payload) offset) (drop offset payload)) s of
         None \<Rightarrow> None
       | Some (r, s1) \<Rightarrow>
           if r \<noteq> 0 then Some (- 1, s1)
           else send_fragments e dst_mac our_ip dst_ip protocol ident payload
             (offset + frag_chunk (length payload) offset) s1
     else Some (0, s))"
  by pat_completeness auto
termination
  by (relation "measure (\<lambda>(e, dst_mac, our_ip, dst_ip, protocol, ident, payload, offset, s). length payload - offset)")
    (auto simp: frag_chunk_def max_frag_payload_def IP_MTU_def Let_def)

declare send_fragments.simps [simp del]

section \<open>Datagrams that wait for an address\<close>

text \<open>The search for a slot stops at the first free one and remembers the oldest entry before it.\<close>

fun arpq_slot :: "ip_arpq_entry list \<Rightarrow> nat \<Rightarrow> nat \<Rightarrow> nat \<Rightarrow> nat" where
  "arpq_slot q oldest i 0 = oldest"
| "arpq_slot q oldest i (Suc n) =
    (if \<not> w_valid (q ! i) then i
     else arpq_slot q (if w_queued_at (q ! i) < w_queued_at (q ! oldest) then i else oldest) (i + 1) n)"

definition ip_arpq_enqueue :: "env \<Rightarrow> u8 list \<Rightarrow> u8 list \<Rightarrow> u8 \<Rightarrow> u8 list \<Rightarrow> net \<Rightarrow> int \<times> net" where
  "ip_arpq_enqueue e next_hop dst_ip protocol payload s =
    (let (ok, s1) = (if payload \<noteq> [] then try_alloc e (length payload) s else (True, s)) in
     if \<not> ok then (- 1, s1)
     else
       let slot = arpq_slot (ip_arpq s1) 0 0 IP_ARPQ_SLOTS;
           w = \<lparr>w_valid = True, w_next_hop = next_hop, w_dst_ip = dst_ip, w_protocol = protocol,
                w_payload = (if payload \<noteq> [] then Some payload else None), w_queued_at = now_ms s1\<rparr>
       in (0, s1\<lparr>ip_arpq := (ip_arpq s1)[slot := w]\<rparr>))"

definition next_hop_ip :: "u8 list \<Rightarrow> net \<Rightarrow> u8 list" where
  "next_hop_ip dst_ip s =
    (let mask = dev_mask s; our_ip = dev_ip s;
         off_subnet = (\<exists>i < 4. (our_ip ! i AND mask ! i) \<noteq> (dst_ip ! i AND mask ! i))
     in if dst_ip \<noteq> broadcast_ip \<and> (mask = zero_ip \<or> off_subnet) \<and> dev_gw s \<noteq> zero_ip
        then dev_gw s else dst_ip)"

definition ip_send_packet :: "env \<Rightarrow> u8 list \<Rightarrow> u8 \<Rightarrow> u8 list \<Rightarrow> net \<Rightarrow> (int \<times> net) option" where
  "ip_send_packet e dst_ip protocol payload s =
    (if ip_is_local_dst dst_ip s then Some (ip_lo_enqueue e dst_ip protocol payload s)
     else
       let our_ip = dev_ip s; hop = next_hop_ip dst_ip s;
           (mac, s1) = (if dst_ip = broadcast_ip then (Some (replicate 6 0xFF), s) else arp_resolve e hop s)
       in case mac of
            None \<Rightarrow> Some (ip_arpq_enqueue e hop dst_ip protocol payload s1)
          | Some dst_mac \<Rightarrow>
              let current_id = ip_id_counter s1; s2 = s1\<lparr>ip_id_counter := current_id + 1\<rparr> in
              if length payload \<le> IP_MTU - 20
              then ip_send_frame e dst_mac our_ip dst_ip protocol current_id (bswap16 IP_FLAG_DF) payload s2
              else send_fragments e dst_mac our_ip dst_ip protocol current_id payload 0 s2)"

fun arp_resolved_from :: "env \<Rightarrow> u8 list \<Rightarrow> nat \<Rightarrow> nat \<Rightarrow> net \<Rightarrow> net option" where
  "arp_resolved_from e ip i 0 s = Some s"
| "arp_resolved_from e ip i (Suc n) s =
    (let w = ip_arpq s ! i in
     if \<not> w_valid w \<or> w_next_hop w \<noteq> ip then arp_resolved_from e ip (i + 1) n s
     else
       case ip_send_packet e (w_dst_ip w) (w_protocol w) (case w_payload w of None \<Rightarrow> [] | Some p \<Rightarrow> p)
              (s\<lparr>ip_arpq := (ip_arpq s)[i := w\<lparr>w_valid := False, w_payload := None\<rparr>]\<rparr>) of
         None \<Rightarrow> None
       | Some (_, s1) \<Rightarrow> arp_resolved_from e ip (i + 1) n s1)"

definition ip_arp_resolved :: "env \<Rightarrow> u8 list \<Rightarrow> net \<Rightarrow> net option" where
  "ip_arp_resolved e ip s = arp_resolved_from e ip 0 IP_ARPQ_SLOTS s"

fun arpq_tick_from :: "env \<Rightarrow> nat \<Rightarrow> nat \<Rightarrow> net \<Rightarrow> net option" where
  "arpq_tick_from e i 0 s = Some s"
| "arpq_tick_from e i (Suc n) s =
    (let w = ip_arpq s ! i in
     if \<not> w_valid w then arpq_tick_from e (i + 1) n s
     else
       let old = now_ms s - w_queued_at w > IP_ARPQ_MAX_AGE_MS;
           s1 = (if old then s\<lparr>ip_arpq := (ip_arpq s)[i := w\<lparr>w_valid := False, w_payload := None\<rparr>]\<rparr> else s)
       in if old \<and> w_payload w \<noteq> None then arpq_tick_from e (i + 1) n s1
          else
            case arp_resolve e (w_next_hop w) s1 of
              (None, s2) \<Rightarrow> arpq_tick_from e (i + 1) n s2
            | (Some _, s2) \<Rightarrow>
                (case ip_arp_resolved e (w_next_hop w) s2 of
                   None \<Rightarrow> None
                 | Some s3 \<Rightarrow> arpq_tick_from e (i + 1) n s3))"

definition ip_arpq_tick :: "env \<Rightarrow> net \<Rightarrow> net option" where
  "ip_arpq_tick e s = arpq_tick_from e 0 IP_ARPQ_SLOTS s"

definition ip_init :: "net \<Rightarrow> net" where
  "ip_init s = s\<lparr>ip_id_counter := 0\<rparr>"

section \<open>Address resolution with its effect on waiting datagrams\<close>

definition arp_insert :: "env \<Rightarrow> u8 list \<Rightarrow> u8 list \<Rightarrow> net \<Rightarrow> net option" where
  "arp_insert e ip mac s = ip_arp_resolved e ip (arp_cache_store ip mac s)"

definition arp_add_static :: "env \<Rightarrow> u8 list \<Rightarrow> u8 list \<Rightarrow> net \<Rightarrow> net option" where
  "arp_add_static e ip mac s =
    (case cache_index ip s of
       Some i \<Rightarrow> Some (s\<lparr>arp_cache := (arp_cache s)[i :=
           (arp_cache s ! i)\<lparr>a_mac := mac, a_timestamp := now_ms s, a_permanent := True\<rparr>]\<rparr>)
     | None \<Rightarrow>
         (case arp_insert e ip mac s of
            None \<Rightarrow> None
          | Some s1 \<Rightarrow>
              (case cache_index ip s1 of
                 None \<Rightarrow> Some s1
               | Some i \<Rightarrow> Some (s1\<lparr>arp_cache := (arp_cache s1)[i := (arp_cache s1 ! i)\<lparr>a_permanent := True\<rparr>]\<rparr>))))"

text \<open>
  \<^verbatim>\<open>arp_handle_packet\<close>: an inner \<open>None\<close> of a field is a read behind the end of the frame. The reply
  is a zeroed buffer of 64 bytes, sent whole.
\<close>

definition arp_reply :: "u8 list \<Rightarrow> u8 list \<Rightarrow> net \<Rightarrow> u8 list" where
  "arp_reply sender_mac sender_ip s =
    (let reply = sender_mac @ dev_mac s @ [0x08, 0x06]
           @ arp_packet ARP_REPLY (dev_mac s) (dev_ip s) sender_mac sender_ip
     in reply @ replicate (64 - length reply) 0)"

definition arp_handle_packet :: "env \<Rightarrow> u8 list \<Rightarrow> net \<Rightarrow> net option" where
  "arp_handle_packet e frame s =
    (if length frame < 42 then Some s
     else
       case (get16 frame 20, slice frame 22 6, slice frame 28 4, slice frame 38 4) of
         (Some opcode, Some sender_mac, Some sender_ip, Some target_ip) \<Rightarrow>
           if target_ip = dev_ip s then
             if opcode = ucast ARP_REQUEST then
               (case arp_insert e sender_ip sender_mac s of
                  None \<Rightarrow> None
                | Some s1 \<Rightarrow> Some (snd (net_send_packet e (arp_reply sender_mac sender_ip s1) s1)))
             else if opcode = ucast ARP_REPLY then
               let s1 = (case pending_index sender_ip s of
                    None \<Rightarrow> s
                  | Some i \<Rightarrow> set_pending i ((arp_pending_requests s ! i)\<lparr>q_valid := False\<rparr>) s)
               in arp_insert e sender_ip sender_mac s1
             else Some s
           else Some s
       | _ \<Rightarrow> None)"

section \<open>The loopback queue as a list\<close>

definition lo_ok :: "net \<Rightarrow> bool" where
  "lo_ok s \<longleftrightarrow> length (ip_lo_frame s) = IP_LO_MAX \<and> ip_lo_head s < IP_LO_MAX \<and> ip_lo_count s \<le> IP_LO_MAX \<and>
    ip_lo_tail s = (ip_lo_head s + ip_lo_count s) mod IP_LO_MAX \<and>
    None \<notin> set (ring_list (ip_lo_frame s) (ip_lo_head s) (ip_lo_count s))"

definition lo_queue :: "net \<Rightarrow> u8 list list" where
  "lo_queue s = map the (ring_list (ip_lo_frame s) (ip_lo_head s) (ip_lo_count s))"

lemma lo_count: "length (lo_queue s) = ip_lo_count s"
  by (simp add: lo_queue_def)

lemma ring_list_clear:
  assumes "r < length buf" and "c < length buf"
  shows "ring_list (buf[r := x]) ((r + 1) mod length buf) c = ring_list buf ((r + 1) mod length buf) c"
proof -
  let ?n = "length buf"
  have "buf[r := x] ! (((r + 1) mod ?n + i) mod ?n) = buf ! (((r + 1) mod ?n + i) mod ?n)" if "i < c" for i
  proof -
    have "((r + 1) mod ?n + i) mod ?n = (r + (1 + i)) mod ?n" by (simp only: circ_add_mod add.assoc)
    moreover have "(r + (1 + i)) mod ?n \<noteq> (r + 0) mod ?n"
    proof
      have "0 < ?n" using assms(1) by linarith
      moreover assume "(r + (1 + i)) mod ?n = (r + 0) mod ?n"
      ultimately show False using circ_inj [of r "1 + i" ?n 0] that assms(2) by simp
    qed
    ultimately have "((r + 1) mod ?n + i) mod ?n \<noteq> r" using assms(1) by simp
    then show ?thesis by simp
  qed
  then show ?thesis by (simp add: ring_list_def)
qed

lemma lo_put_ok:
  assumes ok: "lo_ok s"
  shows "lo_ok (lo_put s f)"
    "lo_queue (lo_put s f) = (if ip_lo_count s < IP_LO_MAX then lo_queue s @ [f] else lo_queue s)"
proof -
  have push: "ring_list ((ip_lo_frame s)[ip_lo_tail s := Some f]) (ip_lo_head s) (Suc (ip_lo_count s))
      = ring_list (ip_lo_frame s) (ip_lo_head s) (ip_lo_count s) @ [Some f]" if "ip_lo_count s < IP_LO_MAX"
    using ring_list_push [of "ip_lo_count s" "ip_lo_frame s" "ip_lo_head s"] ok that by (simp add: lo_ok_def)
  have "(ip_lo_tail s + 1) mod IP_LO_MAX = (ip_lo_head s + Suc (ip_lo_count s)) mod IP_LO_MAX"
    using ok by (simp add: lo_ok_def circ_add_mod mod_Suc_eq)
  with ok push show "lo_ok (lo_put s f)" by (auto simp: lo_ok_def lo_put_def)
  show "lo_queue (lo_put s f) = (if ip_lo_count s < IP_LO_MAX then lo_queue s @ [f] else lo_queue s)"
    using push by (simp add: lo_queue_def lo_put_def)
qed

lemma lo_get_none: "lo_get s = None \<longleftrightarrow> lo_queue s = []"
  by (auto simp: lo_get_def lo_queue_def simp flip: length_0_conv)

lemma lo_get_ok:
  assumes ok: "lo_ok s" and g: "lo_get s = Some (s', r)"
  shows "\<exists>f. r = Some f \<and> lo_ok s' \<and> lo_queue s = f # lo_queue s'"
proof -
  let ?buf = "ip_lo_frame s" and ?h = "ip_lo_head s"
  obtain c where c: "ip_lo_count s = Suc c" using g by (cases "ip_lo_count s") (simp_all add: lo_get_def)
  have h: "?h < length ?buf" "c < length ?buf" using ok c by (simp_all add: lo_ok_def)
  have s': "s' = s\<lparr>ip_lo_frame := ?buf[?h := None], ip_lo_head := (?h + 1) mod IP_LO_MAX, ip_lo_count := c\<rparr>"
    and r: "r = ?buf ! ?h" using g c by (auto simp: lo_get_def)
  have n: "length ?buf = IP_LO_MAX" using ok by (simp add: lo_ok_def)
  have pop: "ring_list ?buf ?h (Suc c) = ?buf ! ?h # ring_list ?buf ((?h + 1) mod IP_LO_MAX) c"
    using ring_list_pop [OF h(1), of c] n by simp
  have clear: "ring_list (?buf[?h := None]) ((?h + 1) mod IP_LO_MAX) c = ring_list ?buf ((?h + 1) mod IP_LO_MAX) c"
    using ring_list_clear [OF h] n by simp
  have none: "None \<notin> set (?buf ! ?h # ring_list ?buf ((?h + 1) mod IP_LO_MAX) c)"
    using ok c pop by (simp add: lo_ok_def)
  have "ip_lo_tail s = ((?h + 1) mod IP_LO_MAX + c) mod IP_LO_MAX"
    using ok c by (simp add: lo_ok_def circ_add_mod)
  with none ok h clear have ok': "lo_ok s'" by (simp add: lo_ok_def s' c IP_LO_MAX_def)
  from none obtain f where "?buf ! ?h = Some f" by (cases "?buf ! ?h") auto
  then have "lo_queue s = f # lo_queue s'" using pop clear by (simp add: lo_queue_def c s')
  with ok' r \<open>?buf ! ?h = Some f\<close> show ?thesis by blast
qed

interpretation loopback: lossy_fifo lo_ok lo_queue IP_LO_MAX "\<lambda>f. f" lo_put
  "\<lambda>s. map_option (\<lambda>(s', r). (s', the r)) (lo_get s)" "\<lambda>q m. q"
proof unfold_locales
  fix s s' :: net and m
  show "0 < IP_LO_MAX" by (simp add: IP_LO_MAX_def)
  show "length (lo_queue s) \<le> IP_LO_MAX" if "lo_ok s" using that by (simp add: lo_count lo_ok_def)
  show "lo_ok (lo_put s m)" if "lo_ok s" using that by (rule lo_put_ok)
  show "lo_queue (lo_put s m) = lo_queue s @ [m]" if "lo_ok s" "length (lo_queue s) < IP_LO_MAX"
    using that by (simp add: lo_put_ok lo_count)
  show "lo_queue (lo_put s m) = lo_queue s" if "lo_ok s" "length (lo_queue s) = IP_LO_MAX"
    using that by (simp add: lo_put_ok lo_count)
  show "(map_option (\<lambda>(s', r). (s', the r)) (lo_get s) = None) = (lo_queue s = [])" if "lo_ok s"
    by (simp add: lo_get_none)
  show "lo_ok s' \<and> lo_queue s = m # lo_queue s'"
    if "lo_ok s" "map_option (\<lambda>(s', r). (s', the r)) (lo_get s) = Some (s', m)"
    using that lo_get_ok [OF that(1)] by auto
qed

section \<open>The invariant of the sending side\<close>

definition addrs_ok :: "net \<Rightarrow> bool" where
  "addrs_ok s \<longleftrightarrow> length (dev_mac s) = 6 \<and> length (dev_ip s) = 4 \<and> length (dev_mask s) = 4 \<and> length (dev_gw s) = 4 \<and>
    (\<forall>c \<in> set (arp_cache s). length (a_mac c) = 6)"

definition waiting_ok :: "ip_arpq_entry \<Rightarrow> bool" where
  "waiting_ok w \<longleftrightarrow> length (w_next_hop w) = 4 \<and> length (w_dst_ip w) = 4 \<and>
    (\<forall>p. w_payload w = Some p \<longrightarrow> length p \<le> 65535)"

definition ip_ok :: "net \<Rightarrow> bool" where
  "ip_ok s \<longleftrightarrow> arp_ok s \<and> lo_ok s \<and> addrs_ok s \<and> length (ip_arpq s) = IP_ARPQ_SLOTS \<and>
    (\<forall>w \<in> set (ip_arpq s). waiting_ok w)"

text \<open>What sending never changes.\<close>

definition tx_rest :: "net \<Rightarrow> _" where
  "tx_rest s = (dev_mac s, dev_ip s, dev_mask s, dev_gw s, dev_dns s, now_ms s, hpet_ticks s,
    (g_drop_unknown_l2 s, g_drop_igmp s, g_drop_unknown_ip s, g_drop_malformed s, g_last_ethertype s, g_last_ip_proto s),
    ip_lo_head s, ip_lo_draining s, ip_frag_slots s,
    (icmp_id_counter s, expect_id s, expect_seq s, expect_hit s), (udp_handlers s, udp_next s, udp_pcbs s),
    (dns_id_counter s, dns_cache s, dns_cache_initialized s, dns_pending_id s, dns_have_answer s, dns_answer_ip s,
     dns_answer_ttl s, idle_last_tick s))"

lemma lo_ok_cong:
  assumes "ip_lo_frame s' = ip_lo_frame s" "ip_lo_head s' = ip_lo_head s" "ip_lo_tail s' = ip_lo_tail s"
    "ip_lo_count s' = ip_lo_count s"
  shows "lo_ok s' = lo_ok s" "lo_queue s' = lo_queue s"
  using assms by (simp_all add: lo_ok_def lo_queue_def)

lemma ip_ok_simps [simp]:
  "ip_ok (s\<lparr>wire := w\<rparr>) = ip_ok s" "ip_ok (s\<lparr>allocs := n\<rparr>) = ip_ok s" "ip_ok (s\<lparr>ip_id_counter := i\<rparr>) = ip_ok s"
  by (simp_all add: ip_ok_def addrs_ok_def arp_ok_def lo_ok_def)

lemma try_alloc_simps:
  "fst (try_alloc e n s) = e_alloc e (allocs s) n" "snd (try_alloc e n s) = s\<lparr>allocs := allocs s + 1\<rparr>"
  by (simp_all add: try_alloc_def)

lemma length_ip_header [simp]:
  "length (ip_header t i f p c src dst) = 12 + length src + length dst"
  "length (ip_header_summed t i f p src dst) = 12 + length src + length dst"
  by (simp_all add: ip_header_def ip_header_summed_def)

lemma arp_lookup_macs:
  assumes ok: "arp_ok s" and r: "arp_lookup ip s = (r, s')"
  shows "a_mac ` set (arp_cache s') \<subseteq> a_mac ` set (arp_cache s)" "r = Some mac \<Longrightarrow> mac \<in> a_mac ` set (arp_cache s)"
proof -
  have len: "length (arp_cache s) = ARP_CACHE_SIZE" using ok by (simp add: arp_ok_def)
  have sub: "a_mac ` set ((arp_cache s)[i := (arp_cache s ! i)\<lparr>a_valid := False\<rparr>]) \<subseteq> a_mac ` set (arp_cache s)"
    if "i < ARP_CACHE_SIZE" for i
    using set_update_subset_insert [of "arp_cache s" i "(arp_cache s ! i)\<lparr>a_valid := False\<rparr>"] that len
    by (force simp: image_iff)
  show "a_mac ` set (arp_cache s') \<subseteq> a_mac ` set (arp_cache s)"
  proof (cases "cache_index ip s")
    case (Some i)
    then have "i < ARP_CACHE_SIZE" using cache_index_iff [OF ok] by simp
    with sub [OF this] r Some show ?thesis by (auto simp: arp_lookup_spec [OF ok] split: if_splits)
  qed (use r in \<open>simp add: arp_lookup_spec [OF ok]\<close>)
  show "mac \<in> a_mac ` set (arp_cache s)" if "r = Some mac"
    using arp_lookup_known [OF ok, of ip mac] r that len by (auto intro!: imageI)
qed

lemma arp_resolve_ip_ok:
  assumes ok: "ip_ok s" and r: "arp_resolve e ip s = (r, s')"
  shows "ip_ok s'" "tx_rest s' = tx_rest s" "lo_queue s' = lo_queue s" "r = Some mac \<Longrightarrow> length mac = 6"
    "ip_arpq s' = ip_arpq s" "allocs s' = allocs s" "ip_id_counter s' = ip_id_counter s" "r = fst (arp_lookup ip s)"
proof -
  have aok: "arp_ok s" and macs: "\<forall>m \<in> a_mac ` set (arp_cache s). length m = 6"
    using ok by (simp_all add: ip_ok_def addrs_ok_def)
  note a = arp_resolve_ok [OF aok r]
  obtain c p w where s': "s' = s\<lparr>arp_cache := c, arp_pending_requests := p, wire := w\<rparr>" using a(2) by blast
  obtain r0 s1 where l: "arp_lookup ip s = (r0, s1)" by (cases "arp_lookup ip s") blast
  have "arp_cache s' = arp_cache s1"
  proof (cases r0)
    case None
    obtain c where ok1: "arp_ok s1" using arp_lookup_frame [OF aok l] by blast
    from ok1 l [unfolded None] show ?thesis
    proof (rule arp_resolve_miss [where e = e])
      fix i q assume "arp_resolve e ip s = (None, arp_send_request e ip (set_pending i q s1))"
      with r arp_send_request_frame [of e ip "set_pending i q s1"] show ?thesis by (auto simp: set_pending_def)
    qed (use r in \<open>simp_all add: set_pending_def\<close>)
  qed (use r l in \<open>simp add: arp_resolve_def\<close>)
  then have c: "a_mac ` set c \<subseteq> a_mac ` set (arp_cache s)" using arp_lookup_macs(1) [OF aok l] s' by simp
  with macs have "\<forall>x \<in> set c. length (a_mac x) = 6" by blast
  with ok a(1) show "ip_ok s'" by (simp add: ip_ok_def s' addrs_ok_def lo_ok_def)
  show "r = fst (arp_lookup ip s)" by (rule a(3))
  show "length mac = 6" if "r = Some mac"
    using arp_lookup_macs(2) [OF aok l, of mac] that macs a(3) l by auto
qed (use arp_resolve_ok(2) [of s e ip r s'] ok r in \<open>auto simp: ip_ok_def tx_rest_def lo_queue_def\<close>)

section \<open>Sending is safe\<close>

definition ip_frame :: "u8 list \<Rightarrow> u8 list \<Rightarrow> u8 list \<Rightarrow> u8 list \<Rightarrow> u8 \<Rightarrow> u16 \<Rightarrow> u16 \<Rightarrow> u8 list \<Rightarrow> u8 list" where
  "ip_frame dst_mac src_mac src dst protocol ident flags_frag payload =
    dst_mac @ src_mac @ [0x08, 0x00] @
    ip_header_summed (of_nat (20 + length payload)) ident flags_frag protocol src dst @ payload"

lemma bswap16_bswap16 [simp]: "bswap16 (bswap16 w) = w"
  by (metis be16_hi8_lo8 bswap16_be16)

lemma ip_send_frame_eq:
  assumes "length dst_mac = 6" "length our_ip = 4" "length dst_ip = 4" "length (dev_mac s) = 6"
    and len: "length payload \<le> 65515"
  shows "ip_send_frame e dst_mac our_ip dst_ip protocol ident (bswap16 flags) payload s =
    (let p = ip_frame dst_mac (dev_mac s) our_ip dst_ip protocol ident flags payload; s1 = s\<lparr>allocs := allocs s + 1\<rparr>
     in Some (if e_alloc e (allocs s) (34 + length payload) then net_send_packet e p s1 else (- 1, s1)))"
proof -
  have n: "unat (20 + of_nat (length payload) :: u16) = 20 + length payload"
    using len by (simp add: unat_word_ariths unat_of_nat)
  show ?thesis
    using assms n by (simp add: ip_send_frame_def try_alloc_def ip_frame_def Let_def)
qed

definition sends :: "net \<Rightarrow> (int \<times> net) option \<Rightarrow> bool" where
  "sends s r \<longleftrightarrow> (\<exists>x s'. r = Some (x, s') \<and> ip_ok s' \<and> tx_rest s' = tx_rest s)"

lemma sendsI: "r = Some (x, s') \<Longrightarrow> ip_ok s' \<Longrightarrow> tx_rest s' = tx_rest s \<Longrightarrow> sends s r"
  by (auto simp: sends_def)

lemma net_send_packet_ok:
  "ip_ok s \<Longrightarrow> ip_ok (snd (net_send_packet e p s))" "tx_rest (snd (net_send_packet e p s)) = tx_rest s"
  by (simp_all add: net_send_packet_def tx_rest_def)

lemma ip_send_frame_sends:
  assumes ok: "ip_ok s" and len: "length dst_mac = 6" "length our_ip = 4" "length dst_ip = 4" "length payload \<le> 65515"
  shows "sends s (ip_send_frame e dst_mac our_ip dst_ip protocol ident (bswap16 flags) payload s)"
proof -
  have mac: "length (dev_mac s) = 6" using ok by (simp add: ip_ok_def addrs_ok_def)
  show ?thesis
    unfolding ip_send_frame_eq [OF len(1-3) mac len(4)] sends_def using ok
    by (auto simp: Let_def net_send_packet_def tx_rest_def)
qed

lemma frag_chunk_le: "frag_chunk n offset \<le> 1480"
  by (simp add: frag_chunk_def max_frag_payload_def IP_MTU_def Let_def)

lemma send_fragments_sends:
  assumes "ip_ok s" and "length dst_mac = 6" "length our_ip = 4" "length dst_ip = 4"
  shows "sends s (send_fragments e dst_mac our_ip dst_ip protocol ident payload offset s)"
  using assms
proof (induction e dst_mac our_ip dst_ip protocol ident payload offset s rule: send_fragments.induct)
  case (1 e dst_mac our_ip dst_ip protocol ident payload offset s)
  let ?chunk = "frag_chunk (length payload) offset" and ?flags = "frag_flags (length payload) offset"
  let ?r = "ip_send_frame e dst_mac our_ip dst_ip protocol ident (bswap16 ?flags) (take ?chunk (drop offset payload)) s"
  show ?case
  proof (cases "offset < length payload")
    case False
    then show ?thesis using 1(2) by (simp add: send_fragments.simps [of e dst_mac] sends_def)
  next
    case True
    have "length (take ?chunk (drop offset payload)) \<le> 65515"
      using frag_chunk_le [of "length payload" offset] by simp
    from ip_send_frame_sends [OF 1(2-5) this] obtain r s1 where
      s1: "?r = Some (r, s1)" "ip_ok s1" "tx_rest s1 = tx_rest s" unfolding sends_def by blast
    have "sends s1 (send_fragments e dst_mac our_ip dst_ip protocol ident payload (offset + ?chunk) s1)" if "r = 0"
      using 1(1) [OF True s1(1)] s1 that 1(3-5) by simp
    with s1 True show ?thesis by (auto simp: send_fragments.simps [of e dst_mac] sends_def)
  qed
qed

lemma lo_put_frame: "tx_rest (lo_put s f) = tx_rest s" "ip_ok s \<Longrightarrow> ip_ok (lo_put s f)"
  using lo_put_ok(1) [of s f] by (auto simp: lo_put_def tx_rest_def ip_ok_def addrs_ok_def arp_ok_def)

lemma ip_lo_enqueue_eq:
  assumes "20 + length payload \<le> 0xFFFF" and "e_alloc e (allocs s) (34 + length payload)"
  shows "ip_lo_enqueue e dst protocol payload s =
    (0, lo_put (s\<lparr>allocs := allocs s + 1, ip_id_counter := ip_id_counter s + 1\<rparr>)
       (ip_frame (dev_mac s) (dev_mac s) (ip_select_src dst s) dst protocol (ip_id_counter s) IP_FLAG_DF payload))"
  using assms by (simp add: ip_lo_enqueue_def Let_def try_alloc_def ip_frame_def IP_FLAG_DF_def ip_select_src_def)

lemma ip_lo_enqueue_sends: "ip_ok s \<Longrightarrow> sends s (Some (ip_lo_enqueue e dst protocol payload s))"
  by (auto simp: ip_lo_enqueue_def Let_def try_alloc_def sends_def lo_put_frame) (simp_all add: tx_rest_def)

lemma arpq_slot_range: "oldest < hi \<Longrightarrow> i + n \<le> hi \<Longrightarrow> arpq_slot q oldest i n < hi"
  by (induction q oldest i n rule: arpq_slot.induct) auto

lemma ip_arpq_enqueue_sends:
  assumes "ip_ok s" and "length next_hop = 4" "length dst_ip = 4" "length payload \<le> 65535"
  shows "sends s (Some (ip_arpq_enqueue e next_hop dst_ip protocol payload s))"
proof -
  let ?w = "\<lparr>w_valid = True, w_next_hop = next_hop, w_dst_ip = dst_ip, w_protocol = protocol,
      w_payload = (if payload \<noteq> [] then Some payload else None), w_queued_at = now_ms s\<rparr>"
  have "waiting_ok ?w" using assms(2-4) by (simp add: waiting_ok_def)
  then have "\<forall>w \<in> set ((ip_arpq s)[i := ?w]). waiting_ok w" for i
    using assms(1) by (intro set_list_update_all) (simp_all add: ip_ok_def)
  then show ?thesis
    using assms(1) by (auto simp: ip_arpq_enqueue_def Let_def try_alloc_def sends_def ip_ok_def addrs_ok_def
        arp_ok_def lo_ok_def tx_rest_def)
qed

lemma ip_send_packet_sends:
  assumes ok: "ip_ok s" and dst: "length dst_ip = 4" and len: "length payload \<le> 65535"
  shows "sends s (ip_send_packet e dst_ip protocol payload s)"
proof (cases "ip_is_local_dst dst_ip s")
  case True
  then show ?thesis using ip_lo_enqueue_sends [OF ok] by (simp add: ip_send_packet_def)
next
  case False
  define hop where "hop = next_hop_ip dst_ip s"
  have hop4: "length hop = 4" using ok dst by (auto simp: hop_def next_hop_ip_def Let_def ip_ok_def addrs_ok_def)
  have our: "length (dev_ip s) = 4" using ok by (simp add: ip_ok_def addrs_ok_def)
  obtain mac s1 where m: "(if dst_ip = broadcast_ip then (Some (replicate 6 0xFF), s) else arp_resolve e hop s) = (mac, s1)"
    by (metis surj_pair)
  have s1: "ip_ok s1" "tx_rest s1 = tx_rest s" "mac = Some x \<Longrightarrow> length x = 6" for x
    using m arp_resolve_ip_ok [OF ok, of e hop mac s1] ok by (auto split: if_splits)
  show ?thesis
  proof (cases mac)
    case None
    then have "ip_send_packet e dst_ip protocol payload s = Some (ip_arpq_enqueue e hop dst_ip protocol payload s1)"
      by (simp only: ip_send_packet_def Let_def hop_def [symmetric] m prod.case False if_False option.case)
    with ip_arpq_enqueue_sends [OF s1(1) hop4 dst len] s1(2) show ?thesis by (simp add: sends_def)
  next
    case (Some x)
    let ?s2 = "s1\<lparr>ip_id_counter := ip_id_counter s1 + 1\<rparr>"
    have "ip_send_packet e dst_ip protocol payload s =
        (if length payload \<le> IP_MTU - 20
         then ip_send_frame e x (dev_ip s) dst_ip protocol (ip_id_counter s1) (bswap16 IP_FLAG_DF) payload ?s2
         else send_fragments e x (dev_ip s) dst_ip protocol (ip_id_counter s1) payload 0 ?s2)"
      by (simp only: ip_send_packet_def Let_def hop_def [symmetric] m prod.case False if_False option.case Some)
    moreover have "tx_rest ?s2 = tx_rest s" using s1(2) by (simp add: tx_rest_def)
    ultimately show ?thesis
      using ip_send_frame_sends [of ?s2 x "dev_ip s" dst_ip payload] send_fragments_sends [of ?s2 x "dev_ip s" dst_ip]
        s1(1) s1(3) [OF Some] our dst by (auto simp: sends_def IP_MTU_def)
  qed
qed

end
