(* ===== verification/Arpq.thy ===== *)
theory Arpq
  imports Ip
begin

text \<open>
  Address resolution and waiting datagrams together: every operation of \<^verbatim>\<open>src/src/net_arp.c\<close> and
  of the waiting queue of \<^verbatim>\<open>src/src/net_ip.c\<close> keeps the invariant of the sending side, and the
  arrival of an address releases exactly the datagrams that wait for it.
\<close>

section \<open>Sending to a resolved address\<close>

definition more_sent :: "net \<Rightarrow> net \<Rightarrow> bool" where
  "more_sent s s' \<longleftrightarrow> (\<exists>ws a c. s' = s\<lparr>wire := wire s @ ws, allocs := a, ip_id_counter := c\<rparr>)"

lemma more_sent_refl [intro!, simp]: "more_sent s s"
proof -
  have "s = s\<lparr>wire := wire s @ [], allocs := allocs s, ip_id_counter := ip_id_counter s\<rparr>" by simp
  then show ?thesis unfolding more_sent_def by blast
qed

lemma more_sentI: "s' = s\<lparr>wire := wire s @ ws, allocs := a, ip_id_counter := c\<rparr> \<Longrightarrow> more_sent s s'"
  unfolding more_sent_def by blast

lemma more_sent_trans: "more_sent s s1 \<Longrightarrow> more_sent s1 s2 \<Longrightarrow> more_sent s s2"
  unfolding more_sent_def by force

lemma more_sentD:
  assumes "more_sent s s'"
  shows "ip_ok s \<Longrightarrow> ip_ok s'" "tx_rest s' = tx_rest s" "arp_cache s' = arp_cache s" "ip_arpq s' = ip_arpq s"
    "now_ms s' = now_ms s" "set (wire s) \<subseteq> set (wire s')" "lo_queue s' = lo_queue s"
    "arp_pending_requests s' = arp_pending_requests s"
  using assms unfolding more_sent_def by (auto simp: tx_rest_def lo_queue_def)

lemma ip_send_frame_more:
  assumes "ip_send_frame e dst_mac our_ip dst_ip protocol ident nbo payload s = Some (r, s')"
  shows "more_sent s s'"
proof -
  let ?s1 = "s\<lparr>allocs := allocs s + 1\<rparr>"
  from assms have "s' = ?s1 \<or> (\<exists>p. s' = ?s1\<lparr>wire := wire s @ [p]\<rparr>)"
    by (auto simp: ip_send_frame_def Let_def try_alloc_def net_send_packet_def split: if_splits)
  then show ?thesis
  proof
    assume "s' = ?s1"
    then show ?thesis by (intro more_sentI [where ws = "[]" and a = "allocs s + 1" and c = "ip_id_counter s"]) simp
  next
    assume "\<exists>p. s' = ?s1\<lparr>wire := wire s @ [p]\<rparr>"
    then obtain p where "s' = ?s1\<lparr>wire := wire s @ [p]\<rparr>" ..
    then show ?thesis by (intro more_sentI [where ws = "[p]" and a = "allocs s + 1" and c = "ip_id_counter s"]) simp
  qed
qed

lemma send_fragments_more:
  "send_fragments e dst_mac our_ip dst_ip protocol ident payload offset s = Some (r, s') \<Longrightarrow> more_sent s s'"
proof (induction e dst_mac our_ip dst_ip protocol ident payload offset s rule: send_fragments.induct)
  case (1 e dst_mac our_ip dst_ip protocol ident payload offset s)
  let ?chunk = "frag_chunk (length payload) offset" and ?flags = "frag_flags (length payload) offset"
  let ?r = "ip_send_frame e dst_mac our_ip dst_ip protocol ident (bswap16 ?flags) (take ?chunk (drop offset payload)) s"
  show ?case
  proof (cases "offset < length payload")
    case False
    with 1(2) show ?thesis by (simp add: send_fragments.simps [of e dst_mac])
  next
    case True
    with 1(2) obtain r1 s1 where s1: "?r = Some (r1, s1)" "r1 \<noteq> 0 \<Longrightarrow> s' = s1"
      "r1 = 0 \<Longrightarrow> send_fragments e dst_mac our_ip dst_ip protocol ident payload (offset + ?chunk) s1 = Some (r, s')"
      by (auto simp: send_fragments.simps [of e dst_mac] split: option.splits if_splits)
    have "more_sent s1 s'"
    proof (cases "r1 = 0")
      case z: True
      then show ?thesis using 1(1) [OF True s1(1)] s1(3) by simp
    qed (use s1(2) in simp)
    with ip_send_frame_more [OF s1(1)] show ?thesis by (rule more_sent_trans)
  qed
qed

text \<open>The next hop of a datagram and whether its address is in the cache.\<close>

definition remote :: "net \<Rightarrow> u8 list \<Rightarrow> u8 list \<Rightarrow> bool" where
  "remote s dst hop \<longleftrightarrow> \<not> ip_is_local_dst dst s \<and> dst \<noteq> broadcast_ip \<and> next_hop_ip dst s = hop"

definition resolved :: "net \<Rightarrow> u8 list \<Rightarrow> u8 list \<Rightarrow> bool" where
  "resolved s ip mac \<longleftrightarrow> arp_lookup ip s = (Some mac, s)"

lemma resolved_iff: "arp_ok s \<Longrightarrow> resolved s ip mac \<longleftrightarrow> fst (arp_lookup ip s) = Some mac"
  by (auto simp: resolved_def arp_lookup_spec split: option.splits if_splits)

lemma send_to_resolved:
  assumes ok: "ip_ok s" and dst: "length dst = 4" and len: "length payload \<le> 65535"
    and r: "remote s dst hop" "resolved s hop mac"
  shows "\<exists>x s'. ip_send_packet e dst protocol payload s = Some (x, s') \<and> more_sent s s' \<and>
    (length payload \<le> IP_MTU - 20 \<and> e_alloc e (allocs s) (34 + length payload) \<longrightarrow>
     ip_frame mac (dev_mac s) (dev_ip s) dst protocol (ip_id_counter s) IP_FLAG_DF payload \<in> set (wire s'))"
proof -
  let ?s2 = "s\<lparr>ip_id_counter := ip_id_counter s + 1\<rparr>"
  have res: "arp_resolve e hop s = (Some mac, s)" using r(2) by (simp add: arp_resolve_def resolved_def)
  have eq: "ip_send_packet e dst protocol payload s =
      (if length payload \<le> IP_MTU - 20
       then ip_send_frame e mac (dev_ip s) dst protocol (ip_id_counter s) (bswap16 IP_FLAG_DF) payload ?s2
       else send_fragments e mac (dev_ip s) dst protocol (ip_id_counter s) payload 0 ?s2)"
    using r(1) res by (simp add: ip_send_packet_def remote_def Let_def)
  have s2: "more_sent s ?s2" by (rule more_sentI [where ws = "[]" and a = "allocs s"]) simp
  have mac6: "length mac = 6" using arp_resolve_ip_ok(4) [OF ok res] by simp
  from ip_send_packet_sends [OF ok dst len] obtain x s' where
    x: "ip_send_packet e dst protocol payload s = Some (x, s')" unfolding sends_def by blast
  have "more_sent ?s2 s'" using x [unfolded eq] ip_send_frame_more send_fragments_more by (auto split: if_splits)
  with s2 have "more_sent s s'" by (rule more_sent_trans)
  moreover have "ip_frame mac (dev_mac s) (dev_ip s) dst protocol (ip_id_counter s) IP_FLAG_DF payload \<in> set (wire s')"
    if "length payload \<le> IP_MTU - 20" "e_alloc e (allocs s) (34 + length payload)"
  proof -
    have "length (dev_ip s) = 4" "length (dev_mac ?s2) = 6" "length payload \<le> 65515"
      using ok that(1) by (simp_all add: ip_ok_def addrs_ok_def IP_MTU_def)
    from x [unfolded eq] that ip_send_frame_eq [OF mac6 this(1) dst this(2,3)] show ?thesis
      by (auto simp: Let_def net_send_packet_def)
  qed
  ultimately show ?thesis using x by blast
qed

section \<open>The arrival of an address\<close>

definition release :: "u8 list \<Rightarrow> ip_arpq_entry \<Rightarrow> ip_arpq_entry" where
  "release ip w = (if w_valid w \<and> w_next_hop w = ip then w\<lparr>w_valid := False, w_payload := None\<rparr> else w)"

definition queue_cleared :: "u8 list \<Rightarrow> nat \<Rightarrow> net \<Rightarrow> net" where
  "queue_cleared ip i s = s\<lparr>ip_arpq := take i (ip_arpq s) @ map (release ip) (drop i (ip_arpq s))\<rparr>"

definition waiting_payload :: "ip_arpq_entry \<Rightarrow> u8 list" where
  "waiting_payload w = (case w_payload w of None \<Rightarrow> [] | Some p \<Rightarrow> p)"

text \<open>Every datagram in the queue still has the next hop it was queued for.\<close>

definition routes_ok :: "net \<Rightarrow> bool" where
  "routes_ok s \<longleftrightarrow> (\<forall>w \<in> set (ip_arpq s). w_valid w \<longrightarrow> remote s (w_dst_ip w) (w_next_hop w))"

lemma remote_cong: "dev_ip s' = dev_ip s \<Longrightarrow> dev_mask s' = dev_mask s \<Longrightarrow> dev_gw s' = dev_gw s \<Longrightarrow>
  remote s' dst hop = remote s dst hop"
  by (simp only: remote_def ip_is_local_dst_def next_hop_ip_def)

lemma resolved_cong:
  "arp_ok s \<Longrightarrow> arp_ok s' \<Longrightarrow> arp_cache s' = arp_cache s \<Longrightarrow> now_ms s' = now_ms s \<Longrightarrow>
   resolved s' ip mac = resolved s ip mac"
  by (simp add: resolved_iff arp_lookup_known expired_def)

lemma ip_ok_arpq:
  assumes "ip_ok s" and "length q = IP_ARPQ_SLOTS" and "\<forall>w \<in> set q. waiting_ok w"
  shows "ip_ok (s\<lparr>ip_arpq := q\<rparr>)"
  using assms by (simp add: ip_ok_def addrs_ok_def arp_ok_def lo_ok_def)

lemma waiting_ok_release: "waiting_ok w \<Longrightarrow> waiting_ok (release ip w)"
  "waiting_ok w \<Longrightarrow> waiting_ok (w\<lparr>w_valid := False, w_payload := None\<rparr>)"
  by (auto simp: waiting_ok_def release_def)

lemma waiting_payload_len: "waiting_ok w \<Longrightarrow> length (waiting_payload w) \<le> 65535"
  by (auto simp: waiting_ok_def waiting_payload_def split: option.split)

text \<open>
  One pass over the queue when an address has just been stored: every datagram for it is sent and
  its slot is freed; nothing else changes.
\<close>

definition waits_short :: "u8 list \<Rightarrow> ip_arpq_entry \<Rightarrow> bool" where
  "waits_short ip w \<longleftrightarrow> w_valid w \<and> w_next_hop w = ip \<and> length (waiting_payload w) \<le> IP_MTU - 20"

definition on_wire :: "u8 list \<Rightarrow> net \<Rightarrow> ip_arpq_entry \<Rightarrow> net \<Rightarrow> bool" where
  "on_wire mac s w s' \<longleftrightarrow> (\<exists>ident. ip_frame mac (dev_mac s) (dev_ip s) (w_dst_ip w) (w_protocol w) ident IP_FLAG_DF
     (waiting_payload w) \<in> set (wire s'))"

lemma queue_cleared_more:
  assumes "more_sent s s1"
  shows "more_sent (queue_cleared ip i s) (queue_cleared ip i s1)"
proof -
  from assms obtain ws a c where "s1 = s\<lparr>wire := wire s @ ws, allocs := a, ip_id_counter := c\<rparr>"
    unfolding more_sent_def by blast
  then show ?thesis
    by (intro more_sentI [where ws = ws and a = a and c = c]) (simp add: queue_cleared_def)
qed

lemma queue_cleared_step:
  assumes "i < length (ip_arpq s)"
  shows "queue_cleared ip i s = queue_cleared ip (i + 1) (s\<lparr>ip_arpq := (ip_arpq s)[i := release ip (ip_arpq s ! i)]\<rparr>)"
proof -
  have "drop i (ip_arpq s) = ip_arpq s ! i # drop (Suc i) (ip_arpq s)" using assms by (simp add: Cons_nth_drop_Suc)
  then show ?thesis using assms by (simp add: queue_cleared_def take_Suc_conv_app_nth)
qed

lemma arp_resolved_from_spec:
  assumes "ip_ok s" and "routes_ok s" and "resolved s ip mac" and "i + n = IP_ARPQ_SLOTS"
  shows "\<exists>s'. arp_resolved_from e ip i n s = Some s' \<and> more_sent (queue_cleared ip i s) s' \<and>
    ((\<forall>k m. e_alloc e k m) \<longrightarrow> (\<forall>j. i \<le> j \<and> j < IP_ARPQ_SLOTS \<and> waits_short ip (ip_arpq s ! j) \<longrightarrow>
      on_wire mac s (ip_arpq s ! j) s'))"
  using assms
proof (induction n arbitrary: i s)
  case 0
  then have "queue_cleared ip i s = s" by (simp add: queue_cleared_def ip_ok_def)
  with 0 show ?case by auto
next
  case (Suc n)
  let ?w = "ip_arpq s ! i"
  let ?s0 = "s\<lparr>ip_arpq := (ip_arpq s)[i := release ip ?w]\<rparr>"
  have i: "i < length (ip_arpq s)" "length (ip_arpq s) = IP_ARPQ_SLOTS"
    using Suc.prems(1,4) by (simp_all add: ip_ok_def)
  have wok: "waiting_ok ?w" using Suc.prems(1) i by (simp add: ip_ok_def)
  have ok0: "ip_ok ?s0" using Suc.prems(1) i(2) waiting_ok_release(1) [OF wok]
    by (intro ip_ok_arpq set_list_update_all) (simp_all add: ip_ok_def)
  have n: "i + 1 + n = IP_ARPQ_SLOTS" using Suc.prems(4) by simp
  have res0: "resolved ?s0 ip mac"
    using resolved_cong [of s ?s0] Suc.prems(1,3) ok0 by (simp add: ip_ok_def)
  have "\<exists>s1. arp_resolved_from e ip i (Suc n) s = arp_resolved_from e ip (i + 1) n s1 \<and> more_sent ?s0 s1 \<and>
      ((\<forall>k m. e_alloc e k m) \<longrightarrow> waits_short ip ?w \<longrightarrow> on_wire mac s ?w s1)"
  proof (cases "w_valid ?w \<and> w_next_hop ?w = ip")
    case False
    then have "release ip ?w = ?w" by (auto simp: release_def)
    then have "?s0 = s" by simp
    with False show ?thesis by (intro exI [of _ s]) (auto simp: waits_short_def Let_def)
  next
    case True
    have "remote s (w_dst_ip ?w) ip" using Suc.prems(2) True i by (auto simp: routes_ok_def)
    then have rem: "remote ?s0 (w_dst_ip ?w) ip" by (simp add: remote_cong [of ?s0 s])
    have dst: "length (w_dst_ip ?w) = 4" using wok by (simp add: waiting_ok_def)
    obtain x s1 where s1: "ip_send_packet e (w_dst_ip ?w) (w_protocol ?w) (waiting_payload ?w) ?s0 = Some (x, s1)"
      "more_sent ?s0 s1" "length (waiting_payload ?w) \<le> IP_MTU - 20 \<and> e_alloc e (allocs ?s0) (34 + length (waiting_payload ?w)) \<longrightarrow>
       ip_frame mac (dev_mac ?s0) (dev_ip ?s0) (w_dst_ip ?w) (w_protocol ?w) (ip_id_counter ?s0) IP_FLAG_DF (waiting_payload ?w)
         \<in> set (wire s1)"
      using send_to_resolved [OF ok0 dst waiting_payload_len [OF wok] rem res0] by blast
    have "?s0 = s\<lparr>ip_arpq := (ip_arpq s)[i := ?w\<lparr>w_valid := False, w_payload := None\<rparr>]\<rparr>"
      using True by (simp add: release_def)
    with True s1(1) have "arp_resolved_from e ip i (Suc n) s = arp_resolved_from e ip (i + 1) n s1"
      by (simp add: waiting_payload_def Let_def)
    with s1(2,3) show ?thesis by (intro exI [of _ s1]) (auto simp: waits_short_def on_wire_def)
  qed
  then obtain s1 where s1: "arp_resolved_from e ip i (Suc n) s = arp_resolved_from e ip (i + 1) n s1" "more_sent ?s0 s1"
    "(\<forall>k m. e_alloc e k m) \<longrightarrow> waits_short ip ?w \<longrightarrow> on_wire mac s ?w s1" by blast
  note d = more_sentD [OF s1(2)]
  have ok1: "ip_ok s1" by (rule d(1) [OF ok0])
  have dev: "dev_mac s1 = dev_mac s" "dev_ip s1 = dev_ip s" "dev_mask s1 = dev_mask s" "dev_gw s1 = dev_gw s"
    using d(2) by (simp_all add: tx_rest_def)
  have "\<forall>w \<in> set (ip_arpq ?s0). w_valid w \<longrightarrow> remote s (w_dst_ip w) (w_next_hop w)"
    using Suc.prems(2) i by (simp add: routes_ok_def) (rule set_list_update_all; auto simp: release_def)
  then have rt1: "routes_ok s1" unfolding routes_ok_def d(4) by (simp add: remote_cong [of s1 s] dev)
  have "resolved s1 ip mac" using resolved_cong [of ?s0 s1] res0 ok0 ok1 d(3,5) by (simp add: ip_ok_def)
  from Suc.IH [OF ok1 rt1 this n] obtain s' where
    s': "arp_resolved_from e ip (i + 1) n s1 = Some s'" "more_sent (queue_cleared ip (i + 1) s1) s'"
      "(\<forall>k m. e_alloc e k m) \<longrightarrow> (\<forall>j. i + 1 \<le> j \<and> j < IP_ARPQ_SLOTS \<and> waits_short ip (ip_arpq s1 ! j) \<longrightarrow>
        on_wire mac s1 (ip_arpq s1 ! j) s')" by blast
  have more: "more_sent (queue_cleared ip i s) s'"
    using more_sent_trans [OF queue_cleared_more [OF s1(2)] s'(2)] queue_cleared_step [OF i(1), of ip] by simp
  have wire1: "set (wire s1) \<subseteq> set (wire s')"
    using more_sentD(6) [OF s'(2)] by (simp add: queue_cleared_def)
  have "on_wire mac s (ip_arpq s ! j) s'"
    if "\<forall>k m. e_alloc e k m" "i \<le> j" "j < IP_ARPQ_SLOTS" "waits_short ip (ip_arpq s ! j)" for j
  proof (cases "j = i")
    case True
    with s1(3) that have "on_wire mac s ?w s1" by simp
    with wire1 True show ?thesis unfolding on_wire_def by blast
  next
    case False
    then have "ip_arpq s1 ! j = ip_arpq s ! j" by (simp add: d(4))
    with mp [OF s'(3) that(1), rule_format, of j] that False show ?thesis by (simp add: on_wire_def dev)
  qed
  with s1(1) s'(1) more show ?case by (intro exI [of _ s']) auto
qed

text \<open>The state after the queue has been flushed for an address.\<close>

definition flushed :: "u8 list \<Rightarrow> net \<Rightarrow> net \<Rightarrow> bool" where
  "flushed ip s s' \<longleftrightarrow> ip_ok s' \<and> routes_ok s' \<and> tx_rest s' = tx_rest s \<and> lo_queue s' = lo_queue s \<and>
    ip_arpq s' = map (release ip) (ip_arpq s) \<and> set (wire s) \<subseteq> set (wire s')"

lemma remote_rest: "tx_rest s' = tx_rest s \<Longrightarrow> remote s' = remote s"
  by (intro ext remote_cong) (simp_all add: tx_rest_def)

lemma arp_resolved_flushed:
  assumes ok: "ip_ok s" and rt: "routes_ok s" and res: "resolved s ip mac"
  shows "\<exists>s'. ip_arp_resolved e ip s = Some s' \<and> flushed ip s s' \<and>
    ((\<forall>k m. e_alloc e k m) \<longrightarrow> (\<forall>w \<in> set (ip_arpq s). waits_short ip w \<longrightarrow> on_wire mac s w s'))"
proof -
  from arp_resolved_from_spec [OF ok rt res, of 0 IP_ARPQ_SLOTS e] obtain s' where
    s': "arp_resolved_from e ip 0 IP_ARPQ_SLOTS s = Some s'" "more_sent (queue_cleared ip 0 s) s'"
      "(\<forall>k m. e_alloc e k m) \<longrightarrow> (\<forall>j < IP_ARPQ_SLOTS. waits_short ip (ip_arpq s ! j) \<longrightarrow>
        on_wire mac s (ip_arpq s ! j) s')" by auto
  have wires: "on_wire mac s w s'" if al: "\<forall>k m. e_alloc e k m" and w: "w \<in> set (ip_arpq s)" "waits_short ip w" for w
  proof -
    from w(1) ok obtain j where "j < IP_ARPQ_SLOTS" "w = ip_arpq s ! j" by (auto simp: in_set_conv_nth ip_ok_def)
    with mp [OF s'(3) al] w(2) show ?thesis by simp
  qed
  have q: "queue_cleared ip 0 s = s\<lparr>ip_arpq := map (release ip) (ip_arpq s)\<rparr>" by (simp add: queue_cleared_def)
  have okq: "ip_ok (queue_cleared ip 0 s)"
    unfolding q using ok waiting_ok_release(1) by (intro ip_ok_arpq) (auto simp: ip_ok_def)
  note d = more_sentD [OF s'(2)]
  have rest: "tx_rest s' = tx_rest s" using d(2) by (simp add: q tx_rest_def)
  have arpq: "ip_arpq s' = map (release ip) (ip_arpq s)" using d(4) by (simp add: q)
  have "routes_ok s'"
    using rt unfolding routes_ok_def arpq remote_rest [OF rest] by (auto simp: release_def)
  moreover have "lo_queue s' = lo_queue s" using d(7) by (simp add: q lo_queue_def)
  moreover have "set (wire s) \<subseteq> set (wire s')" using d(6) by (simp add: q)
  ultimately have "flushed ip s s'" using d(1) [OF okq] rest arpq by (simp add: flushed_def)
  with s'(1) wires show ?thesis by (auto simp: ip_arp_resolved_def)
qed

lemma arp_insert_flushed:
  assumes ok: "ip_ok s" and rt: "routes_ok s" and mac: "length mac = 6"
  shows "\<exists>s'. arp_insert e ip mac s = Some s' \<and> flushed ip s s' \<and>
    ((\<forall>k m. e_alloc e k m) \<longrightarrow> (\<forall>w \<in> set (ip_arpq s). waits_short ip w \<longrightarrow> on_wire mac s w s'))"
proof -
  let ?s0 = "arp_cache_store ip mac s"
  have aok: "arp_ok s" using ok by (simp add: ip_ok_def)
  note a = arp_cache_store_ok [OF aok, of ip mac]
  obtain i c where c: "?s0 = s\<lparr>arp_cache := (arp_cache s)[i := c]\<rparr>" "a_mac c = mac"
    by (rule arp_cache_store_cases) blast
  have "\<forall>x \<in> set ((arp_cache s)[i := c]). length (a_mac x) = 6"
    using ok mac c(2) by (intro set_list_update_all) (simp_all add: ip_ok_def addrs_ok_def)
  with ok a(1) have ok0: "ip_ok ?s0" by (simp add: ip_ok_def addrs_ok_def lo_ok_def c(1))
  have "remote ?s0 = remote s" by (intro ext remote_cong) (simp_all add: c(1))
  with rt have rt0: "routes_ok ?s0" by (simp add: routes_ok_def c(1))
  have "resolved ?s0 ip mac" using a by (simp add: resolved_iff)
  from arp_resolved_flushed [OF ok0 rt0 this, of e] show ?thesis
    by (auto simp: arp_insert_def flushed_def on_wire_def tx_rest_def lo_queue_def c(1))
qed

section \<open>Every operation keeps the invariant\<close>

definition keeps :: "net \<Rightarrow> net option \<Rightarrow> bool" where
  "keeps s r \<longleftrightarrow> (\<exists>s'. r = Some s' \<and> ip_ok s' \<and> routes_ok s' \<and> tx_rest s' = tx_rest s)"

lemma arp_insert_keeps: "ip_ok s \<Longrightarrow> routes_ok s \<Longrightarrow> length mac = 6 \<Longrightarrow> keeps s (arp_insert e ip mac s)"
  using arp_insert_flushed [of s mac e ip] by (auto simp: keeps_def flushed_def)

lemma routes_ok_wire [simp]: "routes_ok (s\<lparr>wire := w\<rparr>) = routes_ok s"
  by (simp add: routes_ok_def remote_cong [of "s\<lparr>wire := w\<rparr>" s])

lemma pending_cleared:
  assumes "ip_ok s" and "routes_ok s"
  shows "ip_ok (set_pending i ((arp_pending_requests s ! i)\<lparr>q_valid := False\<rparr>) s)"
    "routes_ok (set_pending i ((arp_pending_requests s ! i)\<lparr>q_valid := False\<rparr>) s)"
proof -
  let ?q = "(arp_pending_requests s ! i)\<lparr>q_valid := False\<rparr>"
  let ?s1 = "set_pending i ?q s"
  have ok: "arp_ok s" using assms(1) by (simp add: ip_ok_def)
  have "arp_ok ?s1"
  proof (cases "i < ARP_CACHE_SIZE")
    case True
    with ok show ?thesis by (intro arp_ok_pending_update) (simp_all add: pending_retry_le)
  next
    case False
    then have "?s1 = s" using arp_okD(2) [OF ok] by (simp add: set_pending_def list_update_beyond)
    with ok show ?thesis by simp
  qed
  with assms(1) show "ip_ok ?s1" by (simp add: ip_ok_def addrs_ok_def lo_ok_def set_pending_def)
  show "routes_ok ?s1"
    using assms(2) by (simp add: routes_ok_def set_pending_def remote_cong [of "s\<lparr>arp_pending_requests := p\<rparr>" s for p])
qed

lemma arp_handle_packet_keeps:
  assumes ok: "ip_ok s" and rt: "routes_ok s"
  shows "keeps s (arp_handle_packet e frame s)"
proof (cases "length frame < 42")
  case True
  with assms show ?thesis by (simp add: arp_handle_packet_def keeps_def)
next
  case False
  let ?mac = "take 6 (drop 22 frame)" and ?ip = "take 4 (drop 28 frame)"
  let ?s1 = "case pending_index ?ip s of None \<Rightarrow> s
    | Some i \<Rightarrow> set_pending i ((arp_pending_requests s ! i)\<lparr>q_valid := False\<rparr>) s"
  have mac: "length ?mac = 6" using False by simp
  obtain s2 where s2: "arp_insert e ?ip ?mac s = Some s2" "ip_ok s2" "routes_ok s2" "tx_rest s2 = tx_rest s"
    using arp_insert_keeps [OF ok rt mac, of e ?ip] by (auto simp: keeps_def)
  have s1: "ip_ok ?s1" "routes_ok ?s1" "tx_rest ?s1 = tx_rest s"
    using ok rt pending_cleared [OF ok rt] by (simp_all add: set_pending_def tx_rest_def split: option.split)
  have "keeps s (arp_insert e ?ip ?mac ?s1)"
    using arp_insert_keeps [OF s1(1,2) mac, of e ?ip] s1(3) by (auto simp: keeps_def)
  with s2 assms False show ?thesis
    by (auto simp: arp_handle_packet_def keeps_def net_send_packet_def Let_def tx_rest_def)
qed

lemma arp_resolve_keeps:
  assumes "ip_ok s" and "routes_ok s"
  shows "keeps s (Some (snd (arp_resolve e ip s)))" "length (ip_arpq (snd (arp_resolve e ip s))) = IP_ARPQ_SLOTS"
proof -
  obtain r s' where r: "arp_resolve e ip s = (r, s')" by (cases "arp_resolve e ip s") blast
  note a = arp_resolve_ip_ok [OF assms(1) r]
  have "routes_ok s'" using assms(2) a(5) remote_rest [OF a(2)] by (simp add: routes_ok_def)
  with a(1,2) r show "keeps s (Some (snd (arp_resolve e ip s)))" by (simp add: keeps_def)
  show "length (ip_arpq (snd (arp_resolve e ip s))) = IP_ARPQ_SLOTS" using a(1) r by (simp add: ip_ok_def)
qed

lemma keepsI: "ip_ok s' \<Longrightarrow> routes_ok s' \<Longrightarrow> tx_rest s' = tx_rest s \<Longrightarrow> keeps s (Some s')"
  by (simp add: keeps_def)

lemma keeps_trans: "keeps s (Some s1) \<Longrightarrow> keeps s1 r \<Longrightarrow> keeps s r"
  by (auto simp: keeps_def)

lemma arp_resolve_Some:
  assumes "arp_ok s" and r: "arp_resolve e ip s = (Some mac, s')"
  shows "s' = s" "resolved s ip mac"
proof -
  obtain b where l: "arp_lookup ip s = (Some mac, b)"
    using arp_resolve_ok(3) [OF assms] by (metis prod.collapse)
  with r have "arp_lookup ip s = (Some mac, s')" by (simp add: arp_resolve_def)
  then show "s' = s" "resolved s ip mac"
    by (auto simp: arp_lookup_spec [OF assms(1)] resolved_def split: option.splits if_splits)
qed

lemma tick_entry_keeps:
  assumes ok: "ip_ok s" and rt: "routes_ok s" and i: "i < IP_ARPQ_SLOTS"
  shows "keeps s (Some (s\<lparr>ip_arpq := (ip_arpq s)[i := (ip_arpq s ! i)\<lparr>w_valid := False, w_payload := None\<rparr>]\<rparr>))"
    (is "keeps s (Some ?s1)")
proof (rule keepsI)
  have w: "waiting_ok (ip_arpq s ! i)" using ok i by (simp add: ip_ok_def)
  show "ip_ok ?s1" using ok waiting_ok_release(2) [OF w]
    by (intro ip_ok_arpq set_list_update_all) (simp_all add: ip_ok_def)
  show rest: "tx_rest ?s1 = tx_rest s" by (simp add: tx_rest_def)
  have "\<forall>w \<in> set (ip_arpq ?s1). w_valid w \<longrightarrow> remote s (w_dst_ip w) (w_next_hop w)"
    using rt by (simp add: routes_ok_def) (rule set_list_update_all; simp)
  then show "routes_ok ?s1" unfolding routes_ok_def remote_rest [OF rest] .
qed

lemma arpq_tick_from_keeps:
  "ip_ok s \<Longrightarrow> routes_ok s \<Longrightarrow> i + n = IP_ARPQ_SLOTS \<Longrightarrow> keeps s (arpq_tick_from e i n s)"
proof (induction n arbitrary: i s)
  case 0
  then show ?case by (simp add: keeps_def)
next
  case (Suc n)
  let ?w = "ip_arpq s ! i"
  let ?old = "now_ms s - w_queued_at ?w > IP_ARPQ_MAX_AGE_MS"
  define s1 where "s1 = (if ?old then s\<lparr>ip_arpq := (ip_arpq s)[i := ?w\<lparr>w_valid := False, w_payload := None\<rparr>]\<rparr> else s)"
  have n: "i + 1 + n = IP_ARPQ_SLOTS" and i: "i < IP_ARPQ_SLOTS" using Suc.prems(3) by simp_all
  have k1: "keeps s (Some s1)"
    using tick_entry_keeps [OF Suc.prems(1,2) i] Suc.prems(1,2) by (simp add: s1_def keeps_def)
  then have s1: "ip_ok s1" "routes_ok s1" by (simp_all add: keeps_def)
  obtain r s2 where r: "arp_resolve e (w_next_hop ?w) s1 = (r, s2)" by (cases "arp_resolve e (w_next_hop ?w) s1") blast
  have k2: "keeps s1 (Some s2)" using arp_resolve_keeps(1) [OF s1, of e "w_next_hop ?w"] r by simp
  have IH: "keeps s (arpq_tick_from e (i + 1) n t)" if "keeps s (Some t)" for t
    using Suc.IH [OF _ _ n, of t] that keeps_trans [OF that] by (simp add: keeps_def)
  have eq: "arpq_tick_from e i (Suc n) s =
      (if \<not> w_valid ?w then arpq_tick_from e (i + 1) n s
       else if ?old \<and> w_payload ?w \<noteq> None then arpq_tick_from e (i + 1) n s1
       else case r of None \<Rightarrow> arpq_tick_from e (i + 1) n s2
         | Some _ \<Rightarrow> (case ip_arp_resolved e (w_next_hop ?w) s2 of None \<Rightarrow> None | Some s3 \<Rightarrow> arpq_tick_from e (i + 1) n s3))"
    unfolding arpq_tick_from.simps Let_def s1_def [symmetric] r prod.case by (simp split: option.split)
  have "keeps s (case r of None \<Rightarrow> arpq_tick_from e (i + 1) n s2
      | Some _ \<Rightarrow> (case ip_arp_resolved e (w_next_hop ?w) s2 of None \<Rightarrow> None | Some s3 \<Rightarrow> arpq_tick_from e (i + 1) n s3))"
  proof (cases r)
    case None
    with IH [OF keeps_trans [OF k1 k2]] show ?thesis by simp
  next
    case (Some mac)
    have "arp_ok s1" using s1(1) by (simp add: ip_ok_def)
    from arp_resolve_Some [OF this r [unfolded Some]] have "s2 = s1" "resolved s1 (w_next_hop ?w) mac" by simp_all
    with arp_resolved_flushed [OF s1, of "w_next_hop ?w" mac e] obtain s3 where
      s3: "ip_arp_resolved e (w_next_hop ?w) s2 = Some s3" "keeps s1 (Some s3)" by (auto simp: flushed_def keeps_def)
    with IH [OF keeps_trans [OF k1 s3(2)]] Some show ?thesis by simp
  qed
  with IH [OF keepsI [OF Suc.prems(1,2) refl]] IH [OF k1] show ?case unfolding eq by simp
qed

lemma ip_arpq_tick_keeps: "ip_ok s \<Longrightarrow> routes_ok s \<Longrightarrow> keeps s (ip_arpq_tick e s)"
  by (simp add: ip_arpq_tick_def arpq_tick_from_keeps)

lemma arp_add_static_keeps:
  assumes ok: "ip_ok s" and rt: "routes_ok s" and mac: "length mac = 6"
  shows "keeps s (arp_add_static e ip mac s)"
proof -
  have upd: "keeps t (Some (t\<lparr>arp_cache := (arp_cache t)[i := c]\<rparr>))"
    if "ip_ok t" "routes_ok t" "i < ARP_CACHE_SIZE" "a_valid (arp_cache t ! i)" "a_ip c = a_ip (arp_cache t ! i)"
      "length (a_mac c) = 6" for t i c
  proof (rule keepsI)
    let ?t = "t\<lparr>arp_cache := (arp_cache t)[i := c]\<rparr>"
    have "arp_ok t" using that(1) by (simp add: ip_ok_def)
    then have "arp_ok ?t"
      using that(3-5) unique_onD [OF arp_okD(3), of t i] arp_okD(1) by (intro arp_ok_cache_update) force+
    moreover have "\<forall>x \<in> set ((arp_cache t)[i := c]). length (a_mac x) = 6"
      using that(1,6) by (intro set_list_update_all) (simp_all add: ip_ok_def addrs_ok_def)
    ultimately show "ip_ok ?t" using that(1) by (simp add: ip_ok_def addrs_ok_def lo_ok_def)
    show rest: "tx_rest ?t = tx_rest t" by (simp add: tx_rest_def)
    show "routes_ok ?t" using that(2) unfolding routes_ok_def remote_rest [OF rest] by simp
  qed
  show ?thesis
  proof (cases "cache_index ip s")
    case (Some i)
    then have "i < ARP_CACHE_SIZE" "a_valid (arp_cache s ! i)" by (simp_all add: cache_index_def scan_Some_iff)
    with upd [OF ok rt] mac Some show ?thesis by (simp add: arp_add_static_def)
  next
    case None
    obtain s1 where s1: "arp_insert e ip mac s = Some s1" "keeps s (Some s1)"
      using arp_insert_keeps [OF assms, of e ip] by (auto simp: keeps_def)
    then have ok1: "ip_ok s1" "routes_ok s1" by (simp_all add: keeps_def)
    show ?thesis
    proof (cases "cache_index ip s1")
      case none1: None
      with s1 None show ?thesis by (simp add: arp_add_static_def)
    next
      case (Some i)
      then have i: "i < ARP_CACHE_SIZE" "a_valid (arp_cache s1 ! i)" by (simp_all add: cache_index_def scan_Some_iff)
      have "length (a_mac (arp_cache s1 ! i)) = 6"
        using ok1(1) i(1) arp_okD(1) [of s1] by (simp add: ip_ok_def addrs_ok_def)
      with upd [OF ok1 i] have "keeps s1 (Some (s1\<lparr>arp_cache := (arp_cache s1)[i := (arp_cache s1 ! i)\<lparr>a_permanent := True\<rparr>]\<rparr>))"
        by simp
      from keeps_trans [OF s1(2) this] s1(1) Some None show ?thesis by (simp add: arp_add_static_def)
    qed
  qed
qed

lemma arp_cleanup_keeps:
  assumes "ip_ok s" and "routes_ok s"
  shows "keeps s (Some (arp_cleanup_expired s))"
proof (rule keepsI)
  have "arp_ok (arp_cleanup_expired s)" using assms(1) by (simp add: ip_ok_def arp_cleanup_expired_ok)
  with assms(1) show "ip_ok (arp_cleanup_expired s)"
    by (auto simp: ip_ok_def addrs_ok_def lo_ok_def arp_cleanup_expired_def)
  show rest: "tx_rest (arp_cleanup_expired s) = tx_rest s" by (simp add: tx_rest_def arp_cleanup_expired_def)
  show "routes_ok (arp_cleanup_expired s)"
    using assms(2) unfolding routes_ok_def remote_rest [OF rest] by (simp add: arp_cleanup_expired_def)
qed

text \<open>Queueing keeps the routes, since it stores the next hop just computed.\<close>

lemma routes_same: "ip_arpq s' = ip_arpq s \<Longrightarrow> tx_rest s' = tx_rest s \<Longrightarrow> routes_ok s' = routes_ok s"
  using remote_rest [of s' s] by (simp add: routes_ok_def)

lemma ip_arpq_enqueue_routes:
  assumes "routes_ok s" and "remote s dst_ip hop"
  shows "routes_ok (snd (ip_arpq_enqueue e hop dst_ip protocol payload s))"
proof -
  let ?w = "\<lparr>w_valid = True, w_next_hop = hop, w_dst_ip = dst_ip, w_protocol = protocol,
      w_payload = (if payload \<noteq> [] then Some payload else None), w_queued_at = now_ms s\<rparr>"
  have "\<forall>w \<in> set ((ip_arpq s)[i := ?w]). w_valid w \<longrightarrow> remote s (w_dst_ip w) (w_next_hop w)" for i
    using assms by (intro set_list_update_all) (simp_all add: routes_ok_def)
  moreover have "remote (s\<lparr>allocs := a, ip_arpq := q\<rparr>) = remote s" "remote (s\<lparr>allocs := a\<rparr>) = remote s"
    "remote (s\<lparr>ip_arpq := q\<rparr>) = remote s" for a q
    by (intro ext remote_cong; simp)+
  ultimately show ?thesis using assms(1)
    by (auto simp: ip_arpq_enqueue_def Let_def try_alloc_def routes_ok_def)
qed

lemma ip_send_packet_keeps:
  assumes ok: "ip_ok s" and rt: "routes_ok s" and dst: "length dst_ip = 4" and len: "length payload \<le> 65535"
  shows "\<exists>r s'. ip_send_packet e dst_ip protocol payload s = Some (r, s') \<and> keeps s (Some s')"
proof -
  from ip_send_packet_sends [OF ok dst len, of e protocol] obtain r s' where
    s': "ip_send_packet e dst_ip protocol payload s = Some (r, s')" "ip_ok s'" "tx_rest s' = tx_rest s"
    unfolding sends_def by blast
  have "routes_ok s'"
  proof (cases "ip_is_local_dst dst_ip s")
    case True
    with s'(1) have "ip_arpq s' = ip_arpq s"
      by (auto simp: ip_send_packet_def ip_lo_enqueue_def Let_def try_alloc_def lo_put_def split: if_splits)
    from routes_same [OF this s'(3)] rt show ?thesis by simp
  next
    case False
    define hop where "hop = next_hop_ip dst_ip s"
    obtain mac s1 where m: "(if dst_ip = broadcast_ip then (Some (replicate 6 0xFF), s) else arp_resolve e hop s) = (mac, s1)"
      by (metis surj_pair)
    have s1: "tx_rest s1 = tx_rest s" "ip_arpq s1 = ip_arpq s"
      using m arp_resolve_ip_ok(2,5) [OF ok, of e hop mac s1] by (auto split: if_splits)
    have rt1: "routes_ok s1" using routes_same [OF s1(2,1)] rt by simp
    show ?thesis
    proof (cases mac)
      case None
      with m have "dst_ip \<noteq> broadcast_ip" by (auto split: if_splits)
      with False have "remote s1 dst_ip hop" by (simp add: remote_rest [OF s1(1)] remote_def hop_def)
      moreover have "ip_send_packet e dst_ip protocol payload s = Some (ip_arpq_enqueue e hop dst_ip protocol payload s1)"
        by (simp only: ip_send_packet_def Let_def hop_def [symmetric] m prod.case False if_False option.case None)
      ultimately show ?thesis using ip_arpq_enqueue_routes [OF rt1] s'(1) by (metis option.inject snd_conv)
    next
      case (Some x)
      let ?s2 = "s1\<lparr>ip_id_counter := ip_id_counter s1 + 1\<rparr>"
      have "ip_send_packet e dst_ip protocol payload s =
          (if length payload \<le> IP_MTU - 20
           then ip_send_frame e x (dev_ip s) dst_ip protocol (ip_id_counter s1) (bswap16 IP_FLAG_DF) payload ?s2
           else send_fragments e x (dev_ip s) dst_ip protocol (ip_id_counter s1) payload 0 ?s2)"
        by (simp only: ip_send_packet_def Let_def hop_def [symmetric] m prod.case False if_False option.case Some)
      with s'(1) have "more_sent ?s2 s'" using ip_send_frame_more send_fragments_more by (auto split: if_splits)
      then have "ip_arpq s' = ip_arpq s" using more_sentD(4) s1(2) by auto
      from routes_same [OF this s'(3)] rt show ?thesis by simp
    qed
  qed
  with s' show ?thesis by (auto simp: keeps_def)
qed

section \<open>Properties\<close>

datatype net_event =
    Send "u8 list" u8 "u8 list"
  | Arp_frame "u8 list"
  | Static "u8 list" "u8 list"
  | Tick
  | Cleanup
  | Advance u64

text \<open>Calls into the stack, with the passing of time between them.\<close>

fun net_step :: "env \<Rightarrow> net_event \<Rightarrow> net \<Rightarrow> net option" where
  "net_step e (Send dst protocol payload) s = map_option snd (ip_send_packet e dst protocol payload s)"
| "net_step e (Arp_frame frame) s = arp_handle_packet e frame s"
| "net_step e (Static ip mac) s = arp_add_static e ip mac s"
| "net_step e Tick s = ip_arpq_tick e s"
| "net_step e Cleanup s = Some (arp_cleanup_expired s)"
| "net_step e (Advance d) s = Some (s\<lparr>now_ms := now_ms s + d\<rparr>)"

fun net_steps :: "env \<Rightarrow> net_event list \<Rightarrow> net \<Rightarrow> net option" where
  "net_steps e [] s = Some s"
| "net_steps e (ev # evs) s = (case net_step e ev s of None \<Rightarrow> None | Some s1 \<Rightarrow> net_steps e evs s1)"

fun event_ok :: "net_event \<Rightarrow> bool" where
  "event_ok (Send dst protocol payload) \<longleftrightarrow> length dst = 4 \<and> length payload \<le> 65535"
| "event_ok (Static ip mac) \<longleftrightarrow> length ip = 4 \<and> length mac = 6"
| "event_ok _ \<longleftrightarrow> True"

lemma net_step_ok:
  assumes "ip_ok s" and "routes_ok s" and "event_ok ev"
  shows "\<exists>s'. net_step e ev s = Some s' \<and> ip_ok s' \<and> routes_ok s'"
proof (cases ev)
  case (Send dst protocol payload)
  with assms ip_send_packet_keeps [of s dst payload e protocol] show ?thesis by (auto simp: keeps_def)
next
  case (Arp_frame frame)
  with arp_handle_packet_keeps [OF assms(1,2), of e frame] show ?thesis by (auto simp: keeps_def)
next
  case (Static ip mac)
  with assms arp_add_static_keeps [OF assms(1,2), of mac e ip] show ?thesis by (auto simp: keeps_def)
next
  case Tick
  with ip_arpq_tick_keeps [OF assms(1,2), of e] show ?thesis by (auto simp: keeps_def)
next
  case Cleanup
  with arp_cleanup_keeps [OF assms(1,2)] show ?thesis by (auto simp: keeps_def)
next
  case (Advance d)
  let ?s' = "s\<lparr>now_ms := now_ms s + d\<rparr>"
  have "remote ?s' = remote s" by (intro ext remote_cong) simp_all
  with assms Advance show ?thesis by (simp add: ip_ok_def addrs_ok_def arp_ok_def lo_ok_def routes_ok_def)
qed

text \<open>
  C11. Whatever sequence of sends, received ARP frames of any contents, static entries, timer ticks and
  clock changes the stack sees, with any failures of the heap and of the card: no call writes or
  reads outside of a frame, the tables keep their sizes with one entry per address and at most
  five retries per request, the loopback queue stays a queue, and every waiting datagram
  waits for its own next hop.
\<close>

theorem net_tables_invariant:
  assumes "ip_ok s" and "routes_ok s" and "\<forall>ev \<in> set evs. event_ok ev"
  shows "\<exists>s'. net_steps e evs s = Some s' \<and> ip_ok s' \<and> routes_ok s'"
  using assms
proof (induction evs arbitrary: s)
  case (Cons ev evs)
  from net_step_ok [OF Cons.prems(1,2), of ev e] Cons.prems(3) obtain s1 where
    "net_step e ev s = Some s1" "ip_ok s1" "routes_ok s1" by auto
  with Cons show ?case by simp
qed simp

lemma small_net_ip: "ip_ok small_net" "routes_ok small_net"
proof -
  have "lo_ok small_net" by (simp add: lo_ok_def small_net_def IP_LO_MAX_def)
  moreover have "addrs_ok small_net" by (simp add: addrs_ok_def small_net_def no_entry_def)
  ultimately show "ip_ok small_net" using small_net_arp
    by (simp add: ip_ok_def) (simp add: small_net_def IP_ARPQ_SLOTS_def waiting_ok_def)
  show "routes_ok small_net" by (simp add: routes_ok_def small_net_def)
qed

definition good_env :: env where
  "good_env = \<lparr>e_send = (\<lambda>_ _. 0), e_alloc = (\<lambda>_ _. True), e_junk = (\<lambda>_ _. 0)\<rparr>"

theorem net_tables_invariant_witness:
  "\<exists>s'. net_steps good_env [Send [10, 0, 2, 2] 17 [1, 2, 3], Advance 200, Tick, Arp_frame (replicate 60 0), Cleanup] small_net
     = Some s' \<and> ip_ok s' \<and> routes_ok s'"
  by (rule net_tables_invariant) (simp_all add: small_net_ip)


definition waiting_net :: net where
  "waiting_net = small_net\<lparr>ip_arpq := (ip_arpq small_net)[0 := \<lparr>w_valid = True, w_next_hop = [10, 0, 2, 2],
     w_dst_ip = [8, 8, 8, 8], w_protocol = 17, w_payload = Some [1, 2, 3], w_queued_at = 900\<rparr>]\<rparr>"

lemma waiting_net_ok: "ip_ok waiting_net" "routes_ok waiting_net"
proof -
  let ?w = "\<lparr>w_valid = True, w_next_hop = [10, 0, 2, 2], w_dst_ip = [8, 8, 8, 8], w_protocol = 17,
    w_payload = Some [1, 2, 3], w_queued_at = 900\<rparr>"
  show "ip_ok waiting_net" unfolding waiting_net_def
    by (intro ip_ok_arpq set_list_update_all small_net_ip)
      (use small_net_ip(1) in \<open>simp_all add: ip_ok_def waiting_ok_def\<close>)
  have "remote small_net [8, 8, 8, 8] [10, 0, 2, 2]"
    by (simp add: remote_def ip_is_local_dst_def next_hop_ip_def small_net_def broadcast_ip_def zero_ip_def Let_def)
      (intro exI [of _ 0]; simp)
  then have "\<forall>w \<in> set ((ip_arpq small_net)[0 := ?w]). w_valid w \<longrightarrow> remote small_net (w_dst_ip w) (w_next_hop w)"
    using small_net_ip(2) by (intro set_list_update_all) (simp_all add: routes_ok_def)
  moreover have "remote waiting_net = remote small_net" by (intro ext remote_cong) (simp_all add: waiting_net_def)
  ultimately show "routes_ok waiting_net" by (simp add: routes_ok_def) (simp add: waiting_net_def)
qed


end
