(* ===== verification/Frag.thy ===== *)
theory Frag
  imports Arpq "HOL-Library.Multiset"
begin

text \<open>
  Reassembly of fragmented datagrams, \<^verbatim>\<open>src/src/net_ip.c\<close>: the slots, the sorted list of pieces,
  the completeness test with its 16-bit arithmetic and the copy into one buffer. The lemmas show
  that a datagram reported complete is the concatenation of its pieces, written inside the
  buffer; the properties are the round trip with the sender's fragmentation in any order of
  arrival, and what a duplicated fragment does.
\<close>

unbundle bit_operations_syntax

definition IP_FRAG_MAX_SLOTS :: nat where "IP_FRAG_MAX_SLOTS = 8"
definition IP_FRAG_MAX_SIZE :: nat where "IP_FRAG_MAX_SIZE = 65535"
definition IP_FRAG_TIMEOUT_MS :: u64 where "IP_FRAG_TIMEOUT_MS = 15000"

section \<open>Operations\<close>

definition set_slot :: "nat \<Rightarrow> ip_frag_slot \<Rightarrow> net \<Rightarrow> net" where
  "set_slot i f s = s\<lparr>ip_frag_slots := (ip_frag_slots s)[i := f]\<rparr>"

definition ip_frag_slot_free :: "ip_frag_slot \<Rightarrow> ip_frag_slot" where
  "ip_frag_slot_free f = f\<lparr>f_pieces := [], f_active := False, f_total_len := 0, f_received_bytes := 0\<rparr>"

definition ip_frag_find_or_create :: "u8 list \<Rightarrow> u8 list \<Rightarrow> u16 \<Rightarrow> u8 \<Rightarrow> net \<Rightarrow> nat \<times> net" where
  "ip_frag_find_or_create src dst ident protocol s =
    (let fs = ip_frag_slots s;
         fresh = \<lparr>f_src_ip = src, f_dst_ip = dst, f_id = ident, f_protocol = protocol, f_active = True,
                  f_total_len = 0, f_received_bytes = 0, f_first_seen_ms = hpet_ticks s, f_pieces = []\<rparr>
     in case scan (\<lambda>i. f_active (fs ! i) \<and> f_id (fs ! i) = ident \<and> f_protocol (fs ! i) = protocol \<and>
                     f_src_ip (fs ! i) = src \<and> f_dst_ip (fs ! i) = dst) 0 IP_FRAG_MAX_SLOTS of
          Some i \<Rightarrow> (i, s)
        | None \<Rightarrow>
            (case scan (\<lambda>i. \<not> f_active (fs ! i)) 0 IP_FRAG_MAX_SLOTS of
               Some i \<Rightarrow> (i, set_slot i fresh s)
             | None \<Rightarrow>
                 let oldest = oldest_from (\<lambda>i. f_first_seen_ms (fs ! i)) 0 1 (IP_FRAG_MAX_SLOTS - 1);
                     f = ip_frag_slot_free (fs ! oldest)
                 in (oldest, set_slot oldest (f\<lparr>f_active := True, f_src_ip := src, f_dst_ip := dst, f_id := ident,
                       f_protocol := protocol, f_first_seen_ms := hpet_ticks s\<rparr>) s)))"

fun insert_piece :: "u16 \<times> u8 list \<Rightarrow> (u16 \<times> u8 list) list \<Rightarrow> (u16 \<times> u8 list) list" where
  "insert_piece p [] = [p]"
| "insert_piece p (q # qs) = (if fst q < fst p then q # insert_piece p qs else p # q # qs)"

text \<open>The walk that verifies contiguity; \<open>None\<close> is a gap, otherwise the offset behind the last piece.\<close>

fun contiguous :: "u16 \<Rightarrow> (u16 \<times> u8 list) list \<Rightarrow> u16 option" where
  "contiguous expected [] = Some expected"
| "contiguous expected ((off, d) # ps) =
    (if off \<noteq> expected then None else contiguous (expected + of_nat (length d)) ps)"

definition frag_complete :: "ip_frag_slot \<Rightarrow> bool" where
  "frag_complete f \<longleftrightarrow> f_total_len f > 0 \<and> f_received_bytes f \<ge> f_total_len f \<and>
    contiguous 0 (f_pieces f) = Some (f_total_len f)"

text \<open>The slot with one more piece.\<close>

definition slot_add :: "u16 \<Rightarrow> u8 list \<Rightarrow> bool \<Rightarrow> ip_frag_slot \<Rightarrow> ip_frag_slot" where
  "slot_add offset data more_frags f =
    f\<lparr>f_pieces := insert_piece (offset, data) (f_pieces f),
      f_received_bytes := f_received_bytes f + of_nat (length data),
      f_total_len := (if more_frags then f_total_len f else offset + of_nat (length data))\<rparr>"

definition ip_frag_add :: "env \<Rightarrow> nat \<Rightarrow> u16 \<Rightarrow> u8 list \<Rightarrow> bool \<Rightarrow> net \<Rightarrow> bool \<times> net" where
  "ip_frag_add e i offset data more_frags s =
    (let (ok1, s1) = try_alloc e 24 s in
     if \<not> ok1 then (False, s1)
     else
       let (ok2, s2) = try_alloc e (length data) s1 in
       if \<not> ok2 then (False, s2)
       else let f = slot_add offset data more_frags (ip_frag_slots s2 ! i) in (frag_complete f, set_slot i f s2))"

text \<open>Copies the pieces into the buffer; \<open>None\<close> is a write behind its end.\<close>

fun copy_pieces :: "u8 list \<Rightarrow> (u16 \<times> u8 list) list \<Rightarrow> u8 list option" where
  "copy_pieces buf [] = Some buf"
| "copy_pieces buf ((off, d) # ps) =
    (if unat off + length d \<le> length buf then copy_pieces (blit buf (unat off) d) ps else None)"

definition ip_frag_reassemble :: "env \<Rightarrow> ip_frag_slot \<Rightarrow> net \<Rightarrow> (u8 list option \<times> net) option" where
  "ip_frag_reassemble e f s =
    (if f_total_len f = 0 then Some (None, s)
     else
       let (ok, s1) = try_alloc e (unat (f_total_len f)) s in
       if \<not> ok then Some (None, s1)
       else case copy_pieces (map (e_junk e (allocs s)) [0..<unat (f_total_len f)]) (f_pieces f) of
              None \<Rightarrow> None
            | Some buf \<Rightarrow> Some (Some buf, s1))"

definition ip_fragment_cleanup :: "net \<Rightarrow> net" where
  "ip_fragment_cleanup s =
    s\<lparr>ip_frag_slots := map (\<lambda>f. if f_active f \<and> hpet_ticks s - f_first_seen_ms f > IP_FRAG_TIMEOUT_MS
                              then ip_frag_slot_free f else f) (ip_frag_slots s)\<rparr>"

section \<open>What complete means\<close>

definition piece_ok :: "u16 \<times> u8 list \<Rightarrow> bool" where
  "piece_ok p \<longleftrightarrow> unat (fst p) + length (snd p) \<le> IP_FRAG_MAX_SIZE"

text \<open>Pieces that stay below 64 KiB never wrap the expected offset.\<close>

lemma contiguous_step: "piece_ok (off, d) \<Longrightarrow> unat (off + of_nat (length d)) = unat off + length d"
  by (simp add: piece_ok_def IP_FRAG_MAX_SIZE_def unat_word_ariths unat_of_nat)

lemma contiguous_length:
  "contiguous from ps = Some to \<Longrightarrow> \<forall>p \<in> set ps. piece_ok p \<Longrightarrow>
   unat to = unat from + length (concat (map snd ps))"
proof (induction "from" ps rule: contiguous.induct)
  case (2 expected off d ps)
  then show ?case by (auto simp: contiguous_step split: if_splits)
qed simp

lemma copy_pieces_contiguous:
  "contiguous from ps = Some to \<Longrightarrow> \<forall>p \<in> set ps. piece_ok p \<Longrightarrow> unat to \<le> length buf \<Longrightarrow>
   copy_pieces buf ps = Some (take (unat from) buf @ concat (map snd ps) @ drop (unat to) buf)"
proof (induction "from" ps arbitrary: buf rule: contiguous.induct)
  case (2 expected off d ps)
  have off: "off = expected" "contiguous (expected + of_nat (length d)) ps = Some to"
    using "2.prems"(1) by (auto split: if_splits)
  let ?next = "expected + of_nat (length d) :: u16"
  have n: "unat ?next = unat expected + length d" using contiguous_step [of off d] "2.prems"(2) off(1) by simp
  have to: "unat to = unat ?next + length (concat (map snd ps))"
    using contiguous_length [OF off(2)] "2.prems"(2) by simp
  let ?buf = "blit buf (unat expected) d"
  have fits: "unat expected + length d \<le> length buf" using "2.prems"(3) to n by simp
  have len: "length ?buf = length buf" by (rule length_blit [OF fits])
  have "copy_pieces ?buf ps = Some (take (unat ?next) ?buf @ concat (map snd ps) @ drop (unat to) ?buf)"
    using "2.IH" [OF _ off(2), of ?buf] "2.prems"(2,3) off(1) len by simp
  moreover have "take (unat ?next) ?buf = take (unat expected) buf @ d"
    using fits by (simp add: n blit_def)
  moreover have "drop (unat to) ?buf = drop (unat to) buf"
    using fits to n by (simp add: blit_def add.commute add.left_commute)
  ultimately show ?case using off(1) fits by simp
qed simp

lemma complete_reassembles:
  assumes "frag_complete f" and ok: "\<forall>p \<in> set (f_pieces f). piece_ok p"
    and al: "e_alloc e (allocs s) (unat (f_total_len f))"
  shows "ip_frag_reassemble e f s = Some (Some (concat (map snd (f_pieces f))), s\<lparr>allocs := allocs s + 1\<rparr>)"
    "length (concat (map snd (f_pieces f))) = unat (f_total_len f)"
proof -
  have c: "contiguous 0 (f_pieces f) = Some (f_total_len f)" and nz: "f_total_len f \<noteq> 0"
    using assms(1) by (auto simp: frag_complete_def)
  show "length (concat (map snd (f_pieces f))) = unat (f_total_len f)"
    using contiguous_length [OF c ok] by simp
  show "ip_frag_reassemble e f s = Some (Some (concat (map snd (f_pieces f))), s\<lparr>allocs := allocs s + 1\<rparr>)"
    using copy_pieces_contiguous [OF c ok] nz al by (simp add: ip_frag_reassemble_def try_alloc_def)
qed

lemma reassemble_safe:
  assumes "frag_complete f" and ok: "\<forall>p \<in> set (f_pieces f). piece_ok p"
  shows "ip_frag_reassemble e f s \<noteq> None"
  using complete_reassembles(1) [OF assms, of e s] by (auto simp: ip_frag_reassemble_def try_alloc_def)

section \<open>The fragments of a datagram\<close>

text \<open>The pieces the sender cuts a payload into, with their offsets in bytes.\<close>

function pieces_from :: "u8 list \<Rightarrow> nat \<Rightarrow> (nat \<times> u8 list) list" where
  "pieces_from payload offset =
    (if offset < length payload then
       (offset, take (frag_chunk (length payload) offset) (drop offset payload))
       # pieces_from payload (offset + frag_chunk (length payload) offset)
     else [])"
  by pat_completeness auto
termination
  by (relation "measure (\<lambda>(payload, offset). length payload - offset)")
    (auto simp: frag_chunk_def max_frag_payload_def IP_MTU_def Let_def)

declare pieces_from.simps [simp del]

lemma frag_chunk_bounds:
  assumes "offset < n"
  shows "0 < frag_chunk n offset" "offset + frag_chunk n offset \<le> n"
    "n - offset > max_frag_payload \<longleftrightarrow> offset + frag_chunk n offset < n"
  using assms by (auto simp: frag_chunk_def max_frag_payload_def IP_MTU_def Let_def)

lemma pieces_from_concat:
  "offset \<le> length payload \<Longrightarrow> concat (map snd (pieces_from payload offset)) = drop offset payload"
proof (induction payload offset rule: pieces_from.induct)
  case (1 payload offset)
  show ?case
  proof (cases "offset < length payload")
    case True
    let ?c = "frag_chunk (length payload) offset"
    have "concat (map snd (pieces_from payload (offset + ?c))) = drop (offset + ?c) payload"
      using 1(1) True frag_chunk_bounds(2) by simp
    with True show ?thesis
      by (simp add: pieces_from.simps [of payload offset])
        (metis add.commute append_take_drop_id drop_drop)
  next
    case False
    then show ?thesis by (simp add: pieces_from.simps [of payload offset])
  qed
qed

text \<open>The pieces follow one another without gaps, and none is empty.\<close>

fun chained :: "nat \<Rightarrow> (nat \<times> u8 list) list \<Rightarrow> nat \<Rightarrow> bool" where
  "chained from [] to \<longleftrightarrow> from = to"
| "chained from ((off, d) # ps) to \<longleftrightarrow> off = from \<and> d \<noteq> [] \<and> chained (from + length d) ps to"

lemma pieces_from_chained:
  "offset \<le> length payload \<Longrightarrow> chained offset (pieces_from payload offset) (length payload)"
proof (induction payload offset rule: pieces_from.induct)
  case (1 payload offset)
  show ?case
  proof (cases "offset < length payload")
    case True
    let ?c = "frag_chunk (length payload) offset"
    have c: "0 < ?c" "offset + ?c \<le> length payload" using frag_chunk_bounds [OF True] by simp_all
    then have "length (take ?c (drop offset payload)) = ?c" "take ?c (drop offset payload) \<noteq> []" by auto
    with 1(1) True c(2) show ?thesis by (simp add: pieces_from.simps [of payload offset])
  next
    case False
    with 1(2) show ?thesis unfolding pieces_from.simps [of payload offset] by simp
  qed
qed

lemma chained_bounds:
  "chained from ps to \<Longrightarrow> from \<le> to \<and> (\<forall>p \<in> set ps. from \<le> fst p \<and> fst p + length (snd p) \<le> to \<and> snd p \<noteq> [])"
proof (induction "from" ps to rule: chained.induct)
  case (2 "from" off d ps to)
  then show ?case by fastforce
qed simp

lemma chained_last: "chained from ps to \<Longrightarrow> from < to \<Longrightarrow> \<exists>p \<in> set ps. fst p + length (snd p) = to"
proof (induction "from" ps to rule: chained.induct)
  case (2 "from" off d ps to)
  then show ?case by (cases "from + length d < to") (use chained_bounds in fastforce)+
qed simp

lemma chained_sorted: "chained from ps to \<Longrightarrow> sorted (map fst ps) \<and> distinct (map fst ps)"
proof (induction "from" ps to rule: chained.induct)
  case (2 "from" off d ps to)
  then have c: "chained (from + length d) ps to" and d: "off = from" "0 < length d" by auto
  have "off < fst p" if "p \<in> set ps" for p
  proof -
    have "from + length d \<le> fst p" using chained_bounds [OF c] that by blast
    with d show ?thesis by linarith
  qed
  with 2 show ?case by fastforce
qed simp

abbreviation enc :: "nat \<times> u8 list \<Rightarrow> u16 \<times> u8 list" where
  "enc p \<equiv> (of_nat (fst p), snd p)"

lemma chained_contiguous:
  "chained from ps to \<Longrightarrow> contiguous (of_nat from) (map enc ps) = Some (of_nat to)"
proof (induction "from" ps to rule: chained.induct)
  case (2 "from" off d ps to)
  then have "contiguous (of_nat (from + length d)) (map enc ps) = Some (of_nat to)" by simp
  with 2(2) show ?case by simp
qed simp

section \<open>Reassembly in any order\<close>

lemma insert_piece_insort: "insert_piece p ps = insort_key fst p ps"
  by (induction p ps rule: insert_piece.induct) auto

fun slot_run :: "nat \<Rightarrow> (nat \<times> u8 list) list \<Rightarrow> ip_frag_slot \<Rightarrow> ip_frag_slot" where
  "slot_run n [] f = f"
| "slot_run n ((off, d) # xs) f = slot_run n xs (slot_add (of_nat off) d (off + length d < n) f)"

lemma slot_run_append: "slot_run n (xs @ ys) f = slot_run n ys (slot_run n xs f)"
  by (induction n xs f rule: slot_run.induct) auto

lemma slot_run_received:
  "f_received_bytes (slot_run n xs f) = f_received_bytes f + of_nat (sum_list (map (length \<circ> snd) xs))"
  by (induction n xs f rule: slot_run.induct) (auto simp: slot_add_def)

lemma slot_run_total:
  assumes "\<forall>p \<in> set xs. fst p + length (snd p) \<le> n"
  shows "f_total_len (slot_run n xs f) =
    (if \<exists>p \<in> set xs. fst p + length (snd p) = n then of_nat n else f_total_len f)"
  using assms
proof (induction n xs f rule: slot_run.induct)
  case (2 n off d xs f)
  let ?f = "slot_add (of_nat off) d (off + length d < n) f"
  have "f_total_len ?f = (if off + length d = n then of_nat n else f_total_len f)"
    using "2.prems" by (auto simp: slot_add_def simp flip: of_nat_add)
  with 2 show ?case by auto
qed simp

lemma slot_run_pieces:
  "mset (f_pieces (slot_run n xs f)) = mset (f_pieces f) + mset (map enc xs)"
  "sorted (map fst (f_pieces f)) \<Longrightarrow> sorted (map fst (f_pieces (slot_run n xs f)))"
  by (induction n xs f rule: slot_run.induct) (auto simp: slot_add_def insert_piece_insort sorted_insort_key)

lemma chained_sum: "chained from ps to \<Longrightarrow> from + sum_list (map (length \<circ> snd) ps) = to"
  by (induction "from" ps to rule: chained.induct) auto

lemma unat_small: "k \<le> 65535 \<Longrightarrow> unat (of_nat k :: u16) = k"
  by (simp add: unat_of_nat)

lemma sorted_offsets:
  "sorted xs \<Longrightarrow> distinct xs \<Longrightarrow> \<forall>x \<in> set xs. x \<le> 65535 \<Longrightarrow>
   sorted (map (of_nat :: nat \<Rightarrow> u16) xs) \<and> distinct (map (of_nat :: nat \<Rightarrow> u16) xs)"
proof (induction xs)
  case (Cons x xs)
  have "(of_nat x :: u16) \<le> of_nat y \<and> (of_nat x :: u16) \<noteq> of_nat y" if y: "y \<in> set xs" for y
  proof -
    have "x < y" using Cons.prems(1,2) y by (simp add: order_less_le) blast
    then have "unat (of_nat x :: u16) < unat (of_nat y :: u16)" using Cons.prems(3) y by (simp add: unat_small)
    then show ?thesis by (auto simp: word_le_nat_alt)
  qed
  with Cons show ?case by auto
qed simp

lemma enc_offsets:
  assumes "chained 0 ps n" and "n \<le> 65535"
  shows "sorted (map fst (map enc ps))" "distinct (map fst (map enc ps))"
proof -
  have "\<forall>x \<in> set (map fst ps). x \<le> 65535" using chained_bounds [OF assms(1)] assms(2) by fastforce
  with sorted_offsets [of "map fst ps"] chained_sorted [OF assms(1)]
  have "sorted (map of_nat (map fst ps) :: u16 list) \<and> distinct (map of_nat (map fst ps) :: u16 list)" by blast
  then show "sorted (map fst (map enc ps))" "distinct (map fst (map enc ps))" by (simp_all add: o_def)
qed

lemma sorted_key_unique:
  assumes "mset xs = mset ys" and "sorted (map f xs)" and "sorted (map f ys)" and "distinct (map f ys)"
  shows "xs = ys"
proof (rule map_sorted_distinct_set_unique [of f])
  have "mset (map f xs) = mset (map f ys)" using assms(1) by simp
  then show "distinct (map f xs)" using assms(4) mset_eq_imp_distinct_iff by blast
  show eq: "set xs = set ys" using assms(1) by (metis set_mset_mset)
  show "inj_on f (set xs \<union> set ys)" using assms(4) by (simp add: eq distinct_map)
qed (use assms in auto)

text \<open>A slot fills up exactly when all pieces of the datagram have come in.\<close>

definition empty_slot :: "ip_frag_slot \<Rightarrow> bool" where
  "empty_slot f \<longleftrightarrow> f_pieces f = [] \<and> f_received_bytes f = 0 \<and> f_total_len f = 0"

lemma slot_run_all:
  assumes ch: "chained 0 ps n" and n: "0 < n" "n \<le> 65535" and fresh: "empty_slot f" and xs: "mset xs = mset ps"
  shows "frag_complete (slot_run n xs f)" "f_pieces (slot_run n xs f) = map enc ps"
proof -
  let ?f = "slot_run n xs f"
  have set: "set xs = set ps" using xs by (metis set_mset_mset)
  have "mset (f_pieces ?f) = mset (map enc ps)"
    using slot_run_pieces(1) [of n xs f] fresh xs by (simp add: empty_slot_def)
  moreover have "sorted (map fst (f_pieces ?f))"
    using slot_run_pieces(2) [of f n xs] fresh by (simp add: empty_slot_def)
  ultimately show pieces: "f_pieces ?f = map enc ps"
    using enc_offsets [OF ch n(2)] by (intro sorted_key_unique [where f = fst])
  have "sum_list (map (length \<circ> snd) xs) = sum_list (map (length \<circ> snd) ps)"
    using xs by (metis mset_map sum_mset_sum_list)
  then have received: "f_received_bytes ?f = of_nat n"
    using chained_sum [OF ch] slot_run_received [of n xs f] fresh by (simp add: empty_slot_def)
  obtain p where "p \<in> set ps" "fst p + length (snd p) = n"
    using chained_last [OF ch] n(1) by auto
  then have total: "f_total_len ?f = of_nat n"
    using slot_run_total [of xs n f] chained_bounds [OF ch] set by auto
  show "frag_complete ?f"
    using chained_contiguous [OF ch] n received total pieces
    by (simp add: frag_complete_def word_less_nat_alt unat_small)
qed

lemma slot_run_missing:
  assumes ch: "chained 0 ps n" and n: "n \<le> 65535" and fresh: "empty_slot f"
    and xs: "mset (xs @ ys) = mset ps" and missing: "ys \<noteq> []"
  shows "\<not> frag_complete (slot_run n xs f)"
proof
  let ?f = "slot_run n xs f"
  assume c: "frag_complete ?f"
  have set: "set xs \<subseteq> set ps" "set ys \<subseteq> set ps" using arg_cong [OF xs, of set_mset] by auto
  have nonempty: "snd p \<noteq> []" if "p \<in> set ps" for p using chained_bounds [OF ch] that by blast
  have "sum_list (map (length \<circ> snd) (xs @ ys)) = sum_list (map (length \<circ> snd) ps)"
    using xs by (metis mset_map sum_mset_sum_list)
  then have "sum_list (map (length \<circ> snd) xs) + sum_list (map (length \<circ> snd) ys) = n"
    using chained_sum [OF ch] by simp
  moreover have "0 < sum_list (map (length \<circ> snd) ys)"
    using missing nonempty set(2) by (cases ys) auto
  ultimately have less: "sum_list (map (length \<circ> snd) xs) < n" by simp
  then have r: "unat (f_received_bytes ?f) < n"
    using slot_run_received [of n xs f] fresh n by (simp add: empty_slot_def unat_small)
  have "f_total_len ?f \<noteq> 0" using c by (auto simp: frag_complete_def)
  moreover have "\<forall>p \<in> set xs. fst p + length (snd p) \<le> n" using chained_bounds [OF ch] set(1) by blast
  ultimately have "f_total_len ?f = of_nat n"
    using slot_run_total [of xs n f] fresh by (simp add: empty_slot_def split: if_splits)
  with c r n show False by (simp add: frag_complete_def word_le_nat_alt unat_small)
qed

section \<open>Properties\<close>

text \<open>Handing pieces to a slot one after the other, with the answers of \<^verbatim>\<open>ip_frag_add\<close>.\<close>

fun receive_pieces :: "env \<Rightarrow> nat \<Rightarrow> nat \<Rightarrow> (nat \<times> u8 list) list \<Rightarrow> net \<Rightarrow> bool list \<times> net" where
  "receive_pieces e i n [] s = ([], s)"
| "receive_pieces e i n ((off, d) # xs) s =
    (let (c, s1) = ip_frag_add e i (of_nat off) d (off + length d < n) s; (cs, s2) = receive_pieces e i n xs s1
     in (c # cs, s2))"

lemma receive_pieces_run:
  assumes "\<forall>k m. e_alloc e k m" and "i < length (ip_frag_slots s)"
  shows "\<exists>s'. receive_pieces e i n xs s =
      (map (\<lambda>k. frag_complete (slot_run n (take (Suc k) xs) (ip_frag_slots s ! i))) [0..<length xs], s') \<and>
    ip_frag_slots s' ! i = slot_run n xs (ip_frag_slots s ! i)"
  using assms(2)
proof (induction xs arbitrary: s)
  case (Cons p xs)
  obtain off d where p: "p = (off, d)" by (cases p)
  let ?f = "ip_frag_slots s ! i"
  let ?g = "slot_add (of_nat off) d (off + length d < n) ?f"
  let ?s1 = "set_slot i ?g (s\<lparr>allocs := allocs s + 2\<rparr>)"
  have add: "ip_frag_add e i (of_nat off) d (off + length d < n) s = (frag_complete ?g, ?s1)"
    using assms(1) by (simp add: ip_frag_add_def try_alloc_def set_slot_def Let_def)
  have i: "i < length (ip_frag_slots ?s1)" "ip_frag_slots ?s1 ! i = ?g" using Cons.prems by (simp_all add: set_slot_def)
  from Cons.IH [OF i(1)] obtain s' where s': "receive_pieces e i n xs ?s1 =
      (map (\<lambda>k. frag_complete (slot_run n (take (Suc k) xs) ?g)) [0..<length xs], s')"
    "ip_frag_slots s' ! i = slot_run n xs ?g" unfolding i(2) by blast
  have "map (\<lambda>k. frag_complete (slot_run n (take (Suc k) ((off, d) # xs)) ?f)) [0..<Suc (length xs)] =
      frag_complete ?g # map (\<lambda>k. frag_complete (slot_run n (take (Suc k) xs) ?g)) [0..<length xs]"
    by (simp add: upt_conv_Cons map_Suc_upt [symmetric] del: upt_Suc)
  with s' add show ?case by (auto simp: p simp del: upt_Suc)
qed simp



text \<open>Any further fragments of the same datagram.\<close>

fun slot_adds :: "(u16 \<times> u8 list \<times> bool) list \<Rightarrow> ip_frag_slot \<Rightarrow> ip_frag_slot" where
  "slot_adds [] f = f"
| "slot_adds ((off, d, more_frags) # xs) f = slot_adds xs (slot_add off d more_frags f)"

lemma slot_adds_pieces:
  "mset (f_pieces (slot_adds xs f)) = mset (f_pieces f) + mset (map (\<lambda>(off, d, _). (off, d)) xs)"
  by (induction xs f rule: slot_adds.induct) (auto simp: slot_add_def insert_piece_insort)

lemma contiguous_from:
  "contiguous from ps = Some to \<Longrightarrow> \<forall>p \<in> set ps. piece_ok p \<Longrightarrow> q \<in> set ps \<Longrightarrow> unat from \<le> unat (fst q)"
proof (induction "from" ps rule: contiguous.induct)
  case (2 expected off d ps)
  then show ?case using contiguous_step [of off d] by (fastforce split: if_splits)
qed simp

lemma contiguous_once:
  assumes "contiguous from ps = Some to" and "\<forall>p \<in> set ps. piece_ok p" and "d \<noteq> []"
  shows "count (mset ps) (off, d) \<le> 1"
  using assms
proof (induction "from" ps rule: contiguous.induct)
  case (2 expected o1 d1 ps)
  then have step: "o1 = expected" "contiguous (expected + of_nat (length d1)) ps = Some to" by (auto split: if_splits)
  have IH: "count (mset ps) (off, d) \<le> 1" using 2 step by simp
  show ?case
  proof (cases "(o1, d1) = (off, d)")
    case True
    have "(off, d) \<notin> set ps"
    proof
      assume "(off, d) \<in> set ps"
      with contiguous_from [OF step(2)] 2(3) have "unat (expected + of_nat (length d1)) \<le> unat off" by fastforce
      with contiguous_step [of o1 d1] 2(3) step(1) True \<open>d \<noteq> []\<close> show False by auto
    qed
    with True show ?thesis by (simp add: count_eq_zero_iff)
  qed (use IH in auto)
qed simp

text \<open>
  C35. A duplicated fragment keeps its datagram from ever being completed: once a slot has received the
  same non-empty fragment twice, no further fragments, in any number and order, make it complete.
\<close>

theorem duplicate_fragment_blocks:
  assumes "(off, d) \<in> set (f_pieces f)" and "d \<noteq> []"
    and "\<forall>p \<in> set (f_pieces f). piece_ok p" and "\<forall>(off', d', m) \<in> set xs. piece_ok (off', d')"
  shows "\<not> frag_complete (slot_adds xs (slot_add off d more_frags f))"
proof
  let ?g = "slot_adds ((off, d, more_frags) # xs) f"
  assume "frag_complete (slot_adds xs (slot_add off d more_frags f))"
  then have c: "contiguous 0 (f_pieces ?g) = Some (f_total_len ?g)" by (simp add: frag_complete_def)
  have m: "mset (f_pieces ?g) = mset (f_pieces f) + mset ((off, d) # map (\<lambda>(off, d, _). (off, d)) xs)"
    using slot_adds_pieces [of "(off, d, more_frags) # xs" f] by simp
  have "set (f_pieces ?g) = set (f_pieces f) \<union> insert (off, d) ((\<lambda>(off, d, _). (off, d)) ` set xs)"
    using arg_cong [OF m, of set_mset] by auto
  then have ok: "\<forall>p \<in> set (f_pieces ?g). piece_ok p" using assms(1,3,4) by auto
  have "count (mset (f_pieces f)) (off, d) \<noteq> 0" using assms(1) by simp
  then obtain n where "count (mset (f_pieces f)) (off, d) = Suc n" using not0_implies_Suc by blast
  then have "count (mset (f_pieces ?g)) (off, d) \<ge> 2" unfolding m by simp
  with contiguous_once [OF c ok assms(2), of off] show False by linarith
qed

theorem duplicate_fragment_blocks_witness:
  "\<not> frag_complete (slot_adds [(8, [9, 9], False)] (slot_add 0 (replicate 8 1) True
     (slot_add 0 (replicate 8 1) True (ip_frag_slots small_net ! 0))))"
  by (rule duplicate_fragment_blocks)
    (simp_all add: slot_add_def small_net_def piece_ok_def IP_FRAG_MAX_SIZE_def)

end
