(* ===== verification/Udp.thy ===== *)
theory Udp
  imports Arpq
begin

text \<open>
  UDP, \<^verbatim>\<open>src/src/net_udp.c\<close>: sending, the table of port handlers, and the datagram sockets with their
  receive rings and ephemeral ports. A socket is named by its index in the table; the handle
  \<open>None\<close> is a null pointer. The reception of a frame is in theory Netrx.
\<close>

definition UDP_PCB_MAX :: nat where "UDP_PCB_MAX = 32"
definition UDP_RX_MAX :: nat where "UDP_RX_MAX = 8"
definition UDP_RX_PAYLOAD :: nat where "UDP_RX_PAYLOAD = 1472"
definition UDP_EPHEMERAL_LO :: u16 where "UDP_EPHEMERAL_LO = 49152"

section \<open>Sending\<close>

definition udp_header :: "u16 \<Rightarrow> u16 \<Rightarrow> u16 \<Rightarrow> u16 \<Rightarrow> u8 list" where
  "udp_header src_port dst_port len checksum =
    [hi8 src_port, lo8 src_port, hi8 dst_port, lo8 dst_port, hi8 len, lo8 len, hi8 checksum, lo8 checksum]"

text \<open>The datagram \<^verbatim>\<open>udp_send\<close> builds, with its checksum.\<close>

definition udp_datagram :: "u8 list \<Rightarrow> u8 list \<Rightarrow> u16 \<Rightarrow> u16 \<Rightarrow> u8 list \<Rightarrow> u8 list" where
  "udp_datagram src_ip dst_ip src_port dst_port payload =
    (let udp_len = of_nat (8 + length payload);
         cs = udp_checksum src_ip dst_ip (udp_header src_port dst_port udp_len 0 @ payload)
     in udp_header src_port dst_port udp_len (if cs = 0 then 0xFFFF else cs) @ payload)"

definition udp_send :: "env \<Rightarrow> u8 list option \<Rightarrow> u16 \<Rightarrow> u16 \<Rightarrow> u8 list \<Rightarrow> net \<Rightarrow> (int \<times> net) option" where
  "udp_send e dst src_port dst_port payload s =
    (case dst of
       None \<Rightarrow> Some (- errno_code EINVAL, s)
     | Some dst_ip \<Rightarrow>
         if length payload > 65527 then Some (- errno_code EMSGSIZE, s)
         else
           let (ok, s1) = try_alloc e (8 + length payload) s in
           if \<not> ok then Some (- errno_code ENOMEM, s1)
           else ip_send_packet e dst_ip 17
                  (udp_datagram (ip_select_src dst_ip s1) dst_ip src_port dst_port payload) s1)"

section \<open>Port handlers\<close>

definition privileged :: "u16 \<Rightarrow> bool" where
  "privileged port \<longleftrightarrow> port < 1024 \<and> port \<noteq> 68 \<and> port \<noteq> 53"

definition udp_register_handler :: "u16 \<Rightarrow> nat option \<Rightarrow> net \<Rightarrow> int \<times> net" where
  "udp_register_handler port handler s =
    (if privileged port then (- errno_code EACCES, s)
     else case handler of
       None \<Rightarrow> (- errno_code EINVAL, s)
     | Some h \<Rightarrow>
         if udp_handlers s port \<noteq> None then (- errno_code EADDRINUSE, s)
         else (0, s\<lparr>udp_handlers := (udp_handlers s)(port := Some h)\<rparr>))"

definition udp_unregister_handler :: "u16 \<Rightarrow> net \<Rightarrow> net" where
  "udp_unregister_handler port s =
    (if privileged port then s else s\<lparr>udp_handlers := (udp_handlers s)(port := None)\<rparr>)"

section \<open>Sockets\<close>

definition no_pkt :: udp_rx_pkt where
  "no_pkt = \<lparr>p_src_ip = replicate 4 0, p_src_port = 0, p_len = 0, p_data = replicate UDP_RX_PAYLOAD 0\<rparr>"

definition no_pcb :: udp_pcb where
  "no_pcb = \<lparr>u_in_use = False, u_bound = False, u_connected = False, u_local_port = 0, u_dest_ip = replicate 4 0,
     u_dest_port = 0, u_rx = replicate UDP_RX_MAX no_pkt, u_rx_head = 0, u_rx_tail = 0, u_rx_count = 0\<rparr>"

definition set_pcb :: "nat \<Rightarrow> udp_pcb \<Rightarrow> net \<Rightarrow> net" where
  "set_pcb i u s = s\<lparr>udp_pcbs := (udp_pcbs s)[i := u]\<rparr>"

definition bound_to :: "net \<Rightarrow> u16 \<Rightarrow> nat \<Rightarrow> bool" where
  "bound_to s port i \<longleftrightarrow> u_in_use (udp_pcbs s ! i) \<and> u_bound (udp_pcbs s ! i) \<and> u_local_port (udp_pcbs s ! i) = port"

definition udp_port_taken_unlocked :: "u16 \<Rightarrow> net \<Rightarrow> bool" where
  "udp_port_taken_unlocked port s \<longleftrightarrow>
    udp_handlers s port \<noteq> None \<or> scan (bound_to s port) 0 UDP_PCB_MAX \<noteq> None"

text \<open>At most 16384 ports are tried; the static counter goes round the ephemeral range.\<close>

fun alloc_ephemeral :: "nat \<Rightarrow> net \<Rightarrow> u16 \<times> net" where
  "alloc_ephemeral 0 s = (0, s)"
| "alloc_ephemeral (Suc n) s =
    (let p = udp_next s;
         nxt = (if p + 1 < UDP_EPHEMERAL_LO then UDP_EPHEMERAL_LO else p + 1);
         s1 = s\<lparr>udp_next := nxt\<rparr>
     in if \<not> udp_port_taken_unlocked p s1 then (p, s1) else alloc_ephemeral n s1)"

definition udp_alloc_ephemeral_unlocked :: "net \<Rightarrow> u16 \<times> net" where
  "udp_alloc_ephemeral_unlocked s = alloc_ephemeral 16384 s"

definition pkt_store :: "u8 list \<Rightarrow> u16 \<Rightarrow> u8 list \<Rightarrow> udp_rx_pkt \<Rightarrow> udp_rx_pkt" where
  "pkt_store src_ip src_port payload pkt =
    (let n = (if length payload > UDP_RX_PAYLOAD then UDP_RX_PAYLOAD else length payload) in
     pkt\<lparr>p_src_ip := src_ip, p_src_port := src_port, p_len := of_nat n,
         p_data := blit (p_data pkt) 0 (take n payload)\<rparr>)"

text \<open>The ring of a socket: a full one drops its oldest datagram.\<close>

definition rx_put :: "udp_pcb \<Rightarrow> u8 list \<times> u16 \<times> u8 list \<Rightarrow> udp_pcb" where
  "rx_put u m =
    (case m of (src_ip, src_port, payload) \<Rightarrow>
       let u1 = (if u_rx_count u \<ge> UDP_RX_MAX
                 then u\<lparr>u_rx_head := (u_rx_head u + 1) mod UDP_RX_MAX, u_rx_count := u_rx_count u - 1\<rparr> else u)
       in u1\<lparr>u_rx := (u_rx u1)[u_rx_tail u1 := pkt_store src_ip src_port payload (u_rx u1 ! u_rx_tail u1)],
             u_rx_tail := (u_rx_tail u1 + 1) mod UDP_RX_MAX, u_rx_count := u_rx_count u1 + 1\<rparr>)"

definition udp_pcb_deliver :: "u16 \<Rightarrow> u16 \<Rightarrow> u8 list \<Rightarrow> u8 list \<Rightarrow> net \<Rightarrow> bool \<times> net" where
  "udp_pcb_deliver src_port dst_port src_ip payload s =
    (case scan (bound_to s dst_port) 0 UDP_PCB_MAX of
       None \<Rightarrow> (False, s)
     | Some i \<Rightarrow> (True, set_pcb i (rx_put (udp_pcbs s ! i) (src_ip, src_port, payload)) s))"

definition udp_pcb_create :: "net \<Rightarrow> nat option \<times> net" where
  "udp_pcb_create s =
    (case scan (\<lambda>i. \<not> u_in_use (udp_pcbs s ! i)) 0 UDP_PCB_MAX of
       None \<Rightarrow> (None, s)
     | Some i \<Rightarrow> (Some i, set_pcb i (no_pcb\<lparr>u_in_use := True\<rparr>) s))"

definition handle_ok :: "net \<Rightarrow> nat option \<Rightarrow> bool" where
  "handle_ok s h \<longleftrightarrow> (case h of None \<Rightarrow> False | Some i \<Rightarrow> u_in_use (udp_pcbs s ! i))"

definition udp_pcb_bind :: "nat option \<Rightarrow> u16 \<Rightarrow> net \<Rightarrow> int \<times> net" where
  "udp_pcb_bind h port s =
    (if \<not> handle_ok s h then (- errno_code EINVAL, s)
     else
       let i = the h; u = udp_pcbs s ! i in
       if u_bound u then (- errno_code EINVAL, s)
       else if port = 0 then
         let (p, s1) = udp_alloc_ephemeral_unlocked s in
         if p = 0 then (- errno_code EADDRINUSE, s1)
         else (0, set_pcb i (u\<lparr>u_local_port := p, u_bound := True\<rparr>) s1)
       else if udp_port_taken_unlocked port s then (- errno_code EADDRINUSE, s)
       else (0, set_pcb i (u\<lparr>u_local_port := port, u_bound := True\<rparr>) s))"

text \<open>What \<^verbatim>\<open>udp_pcb_connect\<close> and \<^verbatim>\<open>udp_pcb_sendto\<close> do with an unbound socket first.\<close>

definition ensure_bound :: "nat \<Rightarrow> net \<Rightarrow> bool \<times> net" where
  "ensure_bound i s =
    (if u_bound (udp_pcbs s ! i) then (True, s)
     else
       let (p, s1) = udp_alloc_ephemeral_unlocked s in
       if p = 0 then (False, s1)
       else (True, set_pcb i ((udp_pcbs s1 ! i)\<lparr>u_local_port := p, u_bound := True\<rparr>) s1))"

definition udp_pcb_connect :: "nat option \<Rightarrow> u8 list option \<Rightarrow> u16 \<Rightarrow> net \<Rightarrow> int \<times> net" where
  "udp_pcb_connect h ip port s =
    (if \<not> handle_ok s h \<or> ip = None \<or> port = 0 then (- errno_code EINVAL, s)
     else
       let i = the h; (ok, s1) = ensure_bound i s in
       if \<not> ok then (- errno_code EADDRINUSE, s1)
       else (0, set_pcb i ((udp_pcbs s1 ! i)\<lparr>u_dest_ip := the ip, u_dest_port := port, u_connected := True\<rparr>) s1))"

text \<open>A null \<open>data\<close> pointer is \<open>None\<close>; a buffer shorter than \<open>len\<close> is a read past its end.\<close>

definition udp_pcb_sendto ::
  "env \<Rightarrow> nat option \<Rightarrow> u8 list option \<Rightarrow> nat \<Rightarrow> u8 list option \<Rightarrow> u16 \<Rightarrow> net \<Rightarrow> (int \<times> net) option" where
  "udp_pcb_sendto e h data len ip port s =
    (if \<not> handle_ok s h then Some (- errno_code EINVAL, s)
     else if len > 0 \<and> data = None then Some (- errno_code EINVAL, s)
     else if ip = None \<or> port = 0 then Some (- errno_code EDESTADDRREQ, s)
     else
       let i = the h; (ok, s1) = ensure_bound i s in
       if \<not> ok then Some (- errno_code EADDRINUSE, s1)
       else
         let d = (case data of None \<Rightarrow> [] | Some d \<Rightarrow> d) in
         if length d < len then None
         else
           case udp_send e ip (u_local_port (udp_pcbs s1 ! i)) port (take len d) s1 of
             None \<Rightarrow> None
           | Some (rc, s2) \<Rightarrow> Some (if rc < 0 then rc else int len, s2))"

text \<open>
  Takes the oldest datagram of a ring. The result of \<^verbatim>\<open>udp_pcb_recvfrom\<close> is the error or the bytes
  copied to the caller, with the sender's address and port.
\<close>

definition rx_get :: "udp_pcb \<Rightarrow> (udp_pcb \<times> udp_rx_pkt) option" where
  "rx_get u =
    (if u_rx_count u = 0 then None
     else Some (u\<lparr>u_rx_head := (u_rx_head u + 1) mod UDP_RX_MAX, u_rx_count := u_rx_count u - 1\<rparr>, u_rx u ! u_rx_head u))"

definition udp_pcb_recvfrom :: "nat option \<Rightarrow> nat \<Rightarrow> net \<Rightarrow> (u8 list \<times> u8 list \<times> u16) res \<times> net" where
  "udp_pcb_recvfrom h len s =
    (if \<not> handle_ok s h then (Inl EINVAL, s)
     else
       case rx_get (udp_pcbs s ! the h) of
         None \<Rightarrow> (Inl EAGAIN, s)
       | Some (u, pkt) \<Rightarrow>
           let n = (if unat (p_len pkt) > len then len else unat (p_len pkt)) in
           (Inr (take n (p_data pkt), p_src_ip pkt, p_src_port pkt), set_pcb (the h) u s))"

definition udp_pcb_local_port :: "nat option \<Rightarrow> net \<Rightarrow> u16" where
  "udp_pcb_local_port h s = (if handle_ok s h then u_local_port (udp_pcbs s ! the h) else 0)"

definition udp_pcb_rx_ready :: "nat option \<Rightarrow> net \<Rightarrow> nat" where
  "udp_pcb_rx_ready h s = (if handle_ok s h then u_rx_count (udp_pcbs s ! the h) else 0)"

definition udp_pcb_close :: "nat option \<Rightarrow> net \<Rightarrow> net" where
  "udp_pcb_close h s = (case h of None \<Rightarrow> s | Some i \<Rightarrow> set_pcb i no_pcb s)"

section \<open>The receive ring\<close>

text \<open>A datagram as the ring keeps it: at most 1472 bytes of it.\<close>

definition clip :: "u8 list \<times> u16 \<times> u8 list \<Rightarrow> u8 list \<times> u16 \<times> u8 list" where
  "clip m = (case m of (src_ip, src_port, payload) \<Rightarrow> (src_ip, src_port, take UDP_RX_PAYLOAD payload))"

definition msg_of :: "udp_rx_pkt \<Rightarrow> u8 list \<times> u16 \<times> u8 list" where
  "msg_of p = (p_src_ip p, p_src_port p, take (unat (p_len p)) (p_data p))"

definition pkt_ok :: "udp_rx_pkt \<Rightarrow> bool" where
  "pkt_ok p \<longleftrightarrow> length (p_data p) = UDP_RX_PAYLOAD \<and> unat (p_len p) \<le> UDP_RX_PAYLOAD"

definition rx_ok :: "udp_pcb \<Rightarrow> bool" where
  "rx_ok u \<longleftrightarrow> length (u_rx u) = UDP_RX_MAX \<and> u_rx_head u < UDP_RX_MAX \<and> u_rx_count u \<le> UDP_RX_MAX \<and>
    u_rx_tail u = (u_rx_head u + u_rx_count u) mod UDP_RX_MAX \<and> (\<forall>p \<in> set (u_rx u). pkt_ok p)"

definition rx_queue :: "udp_pcb \<Rightarrow> (u8 list \<times> u16 \<times> u8 list) list" where
  "rx_queue u = map msg_of (ring_list (u_rx u) (u_rx_head u) (u_rx_count u))"

lemma pkt_store_ok:
  assumes "pkt_ok p"
  shows "pkt_ok (pkt_store a b d p)" "msg_of (pkt_store a b d p) = clip (a, b, d)"
proof -
  have "unat (of_nat n :: u16) = n" if "n \<le> UDP_RX_PAYLOAD" for n
    using that by (simp add: unat_of_nat UDP_RX_PAYLOAD_def)
  with assms show "pkt_ok (pkt_store a b d p)" "msg_of (pkt_store a b d p) = clip (a, b, d)"
    by (auto simp: pkt_store_def pkt_ok_def msg_of_def clip_def Let_def blit_def min_def)
qed

definition rx_room :: "udp_pcb \<Rightarrow> udp_pcb" where
  "rx_room u = (if u_rx_count u \<ge> UDP_RX_MAX
     then u\<lparr>u_rx_head := (u_rx_head u + 1) mod UDP_RX_MAX, u_rx_count := u_rx_count u - 1\<rparr> else u)"

lemma rx_put_room:
  "rx_put u (a, b, d) = (rx_room u)\<lparr>u_rx := (u_rx u)[u_rx_tail u := pkt_store a b d (u_rx u ! u_rx_tail u)],
     u_rx_tail := (u_rx_tail u + 1) mod UDP_RX_MAX, u_rx_count := u_rx_count (rx_room u) + 1\<rparr>"
  by (simp add: rx_put_def rx_room_def Let_def)

lemma rx_pop:
  assumes ok: "rx_ok u" and c: "u_rx_count u = Suc c"
  shows "rx_ok (u\<lparr>u_rx_head := (u_rx_head u + 1) mod UDP_RX_MAX, u_rx_count := c\<rparr>)"
    "rx_queue u = msg_of (u_rx u ! u_rx_head u) # rx_queue (u\<lparr>u_rx_head := (u_rx_head u + 1) mod UDP_RX_MAX, u_rx_count := c\<rparr>)"
proof -
  have "u_rx_tail u = ((u_rx_head u + 1) mod UDP_RX_MAX + c) mod UDP_RX_MAX"
    using ok c by (simp add: rx_ok_def circ_add_mod)
  with ok c show "rx_ok (u\<lparr>u_rx_head := (u_rx_head u + 1) mod UDP_RX_MAX, u_rx_count := c\<rparr>)"
    by (simp add: rx_ok_def UDP_RX_MAX_def)
  show "rx_queue u = msg_of (u_rx u ! u_rx_head u) # rx_queue (u\<lparr>u_rx_head := (u_rx_head u + 1) mod UDP_RX_MAX, u_rx_count := c\<rparr>)"
    using ring_list_pop [of "u_rx_head u" "u_rx u" c] ok c by (simp add: rx_queue_def rx_ok_def)
qed

lemma rx_room_ok:
  assumes ok: "rx_ok u"
  shows "rx_ok (rx_room u)" "rx_queue (rx_room u) = (if u_rx_count u < UDP_RX_MAX then rx_queue u else tl (rx_queue u))"
    "u_rx_count (rx_room u) < UDP_RX_MAX" "u_rx (rx_room u) = u_rx u" "u_rx_tail (rx_room u) = u_rx_tail u"
proof -
  have full: "u_rx_count u = Suc 7" if "\<not> u_rx_count u < UDP_RX_MAX" using ok that by (simp add: rx_ok_def UDP_RX_MAX_def)
  show "rx_ok (rx_room u)" "rx_queue (rx_room u) = (if u_rx_count u < UDP_RX_MAX then rx_queue u else tl (rx_queue u))"
    using ok rx_pop [OF ok full] full by (auto simp: rx_room_def)
  show "u_rx_count (rx_room u) < UDP_RX_MAX" "u_rx (rx_room u) = u_rx u" "u_rx_tail (rx_room u) = u_rx_tail u"
    using ok by (auto simp: rx_room_def rx_ok_def UDP_RX_MAX_def)
qed

lemma rx_put_ok:
  assumes ok: "rx_ok u"
  shows "rx_ok (rx_put u m)"
    "rx_queue (rx_put u m) = (if u_rx_count u < UDP_RX_MAX then rx_queue u else tl (rx_queue u)) @ [clip m]"
proof -
  obtain a b d where m: "m = (a, b, d)" by (cases m) blast
  let ?v = "rx_room u" and ?t = "u_rx_tail u"
  let ?p = "pkt_store a b d (u_rx u ! ?t)"
  note v = rx_room_ok [OF ok]
  have t: "?t = (u_rx_head ?v + u_rx_count ?v) mod UDP_RX_MAX" "?t < length (u_rx u)" "length (u_rx u) = UDP_RX_MAX"
    using v(1,4,5) ok by (simp_all add: rx_ok_def UDP_RX_MAX_def)
  have p: "pkt_ok ?p" "msg_of ?p = clip m" using pkt_store_ok [of "u_rx u ! ?t" a b d] ok t(2) m by (simp_all add: rx_ok_def)
  have all: "\<forall>p \<in> set ((u_rx u)[?t := ?p]). pkt_ok p" using ok p(1) by (intro set_list_update_all) (simp_all add: rx_ok_def)
  have "(?t + 1) mod UDP_RX_MAX = (u_rx_head ?v + Suc (u_rx_count ?v)) mod UDP_RX_MAX"
    unfolding t(1) circ_add_mod by simp
  with all v(1,3) t(3) show "rx_ok (rx_put u m)" by (simp add: m rx_put_room rx_ok_def)
  have "ring_list ((u_rx u)[?t := ?p]) (u_rx_head ?v) (Suc (u_rx_count ?v)) = ring_list (u_rx u) (u_rx_head ?v) (u_rx_count ?v) @ [?p]"
    using ring_list_push [of "u_rx_count ?v" "u_rx u" "u_rx_head ?v" ?p] v(3) t by simp
  then have "rx_queue (rx_put u m) = rx_queue ?v @ [clip m]" using p(2) v(4) by (simp add: m rx_put_room rx_queue_def)
  then show "rx_queue (rx_put u m) = (if u_rx_count u < UDP_RX_MAX then rx_queue u else tl (rx_queue u)) @ [clip m]"
    using v(2) by simp
qed

lemma rx_count: "length (rx_queue u) = u_rx_count u"
  by (simp add: rx_queue_def)

interpretation socket: sliding_fifo rx_ok rx_queue UDP_RX_MAX clip rx_put
  "\<lambda>u. map_option (\<lambda>(u', p). (u', msg_of p)) (rx_get u)"
proof unfold_locales
  fix u u' :: udp_pcb and m
  show "0 < UDP_RX_MAX" by (simp add: UDP_RX_MAX_def)
  show "length (rx_queue u) \<le> UDP_RX_MAX" if "rx_ok u" using that by (simp add: rx_count rx_ok_def)
  show "rx_ok (rx_put u m)" if "rx_ok u" for m using that by (rule rx_put_ok)
  show "rx_queue (rx_put u m) = rx_queue u @ [clip m]" if "rx_ok u" "length (rx_queue u) < UDP_RX_MAX" for m
    using that by (simp add: rx_put_ok rx_count)
  show "rx_queue (rx_put u m) = tl (rx_queue u) @ [clip m]" if "rx_ok u" "length (rx_queue u) = UDP_RX_MAX" for m
    using that by (simp add: rx_put_ok rx_count)
  show "(map_option (\<lambda>(u', p). (u', msg_of p)) (rx_get u) = None) = (rx_queue u = [])" if "rx_ok u"
    by (auto simp: rx_get_def rx_count [of u, symmetric])
  show "rx_ok u' \<and> rx_queue u = m # rx_queue u'"
    if "rx_ok u" "map_option (\<lambda>(u', p). (u', msg_of p)) (rx_get u) = Some (u', m)"
    using that rx_pop [OF that(1), of "u_rx_count u - 1"] by (auto simp: rx_get_def split: if_splits)
qed

section \<open>Ephemeral ports\<close>

definition eph_next :: "u16 \<Rightarrow> u16" where
  "eph_next p = (if p + 1 < UDP_EPHEMERAL_LO then UDP_EPHEMERAL_LO else p + 1)"

lemma eph_next_step:
  assumes "UDP_EPHEMERAL_LO \<le> p"
  shows "UDP_EPHEMERAL_LO \<le> eph_next p" "unat (eph_next p) = 49152 + (unat p - 49152 + 1) mod 16384"
proof -
  have p: "49152 \<le> unat p" "unat p < 65536" using assms unat_u16_less [of p] by (simp_all add: UDP_EPHEMERAL_LO_def word_le_nat_alt)
  show "UDP_EPHEMERAL_LO \<le> eph_next p" by (auto simp: eph_next_def not_less)
  show "unat (eph_next p) = 49152 + (unat p - 49152 + 1) mod 16384"
  proof (cases "unat p = 65535")
    case True
    then have "p = 0xFFFF" using word_unat_eq_iff [of p "0xFFFF"] by simp
    then show ?thesis by (simp add: eph_next_def UDP_EPHEMERAL_LO_def)
  next
    case False
    then have "unat (p + 1) = unat p + 1" using p by (simp add: unat_word_ariths)
    then have "eph_next p = p + 1" "unat (p + 1) = unat p + 1"
      using p by (simp_all add: eph_next_def UDP_EPHEMERAL_LO_def word_less_nat_alt)
    then show ?thesis using False p by simp
  qed
qed

lemma eph_iter:
  assumes "UDP_EPHEMERAL_LO \<le> p"
  shows "UDP_EPHEMERAL_LO \<le> (eph_next ^^ k) p" "unat ((eph_next ^^ k) p) = 49152 + (unat p - 49152 + k) mod 16384"
proof (induction k)
  case 0
  case 1 show ?case using assms by simp
  case 2 show ?case using assms unat_u16_less [of p] by (simp add: UDP_EPHEMERAL_LO_def word_le_nat_alt)
next
  case (Suc k)
  note n = eph_next_step [OF Suc(1)]
  case 1 show ?case using n(1) by simp
  case 2 show ?case using n(2) by (simp add: Suc(2) mod_Suc_eq)
qed

text \<open>16384 steps go through the whole range.\<close>

lemma eph_all:
  assumes "UDP_EPHEMERAL_LO \<le> p" and "UDP_EPHEMERAL_LO \<le> q"
  shows "\<exists>k < 16384. (eph_next ^^ k) p = q"
proof -
  have b: "49152 \<le> unat p" "unat p < 65536" "49152 \<le> unat q" "unat q < 65536"
    using assms unat_u16_less by (simp_all add: UDP_EPHEMERAL_LO_def word_le_nat_alt)
  define k where "k = (unat q + 16384 - unat p) mod 16384"
  have "(unat p - 49152 + k) mod 16384 = (unat p - 49152 + (unat q + 16384 - unat p)) mod 16384"
    by (simp only: k_def mod_add_right_eq)
  also have "unat p - 49152 + (unat q + 16384 - unat p) = unat q - 49152 + 16384" using b by simp
  also have "(unat q - 49152 + 16384) mod 16384 = unat q - 49152" unfolding mod_add_self2 using b by (intro mod_less) linarith
  finally have "unat ((eph_next ^^ k) p) = unat q" using eph_iter(2) [OF assms(1), of k] b by simp
  then show ?thesis by (intro exI [of _ k]) (simp add: k_def word_unat_eq_iff)
qed

lemma port_taken_next [simp]: "udp_port_taken_unlocked p (s\<lparr>udp_next := x\<rparr>) = udp_port_taken_unlocked p s"
  by (simp add: udp_port_taken_unlocked_def bound_to_def [abs_def])

lemma alloc_ephemeral_spec:
  assumes "UDP_EPHEMERAL_LO \<le> udp_next s" and "alloc_ephemeral n s = (p, s')"
  shows "(\<exists>x. s' = s\<lparr>udp_next := x\<rparr> \<and> UDP_EPHEMERAL_LO \<le> x) \<and>
    (if p = 0 then \<forall>k < n. udp_port_taken_unlocked ((eph_next ^^ k) (udp_next s)) s
     else UDP_EPHEMERAL_LO \<le> p \<and> \<not> udp_port_taken_unlocked p s)"
  using assms
proof (induction n arbitrary: s)
  case 0
  then show ?case by (auto intro: exI [of _ "udp_next s"])
next
  case (Suc n)
  let ?s1 = "s\<lparr>udp_next := eph_next (udp_next s)\<rparr>"
  have lo: "UDP_EPHEMERAL_LO \<le> udp_next ?s1" using Suc.prems(1) by (simp add: eph_next_step)
  have step: "alloc_ephemeral (Suc n) s =
      (if udp_port_taken_unlocked (udp_next s) s then alloc_ephemeral n ?s1 else (udp_next s, ?s1))"
    by (simp add: Let_def eph_next_def)
  show ?case
  proof (cases "udp_port_taken_unlocked (udp_next s) s")
    case True
    have "alloc_ephemeral n ?s1 = (p, s')" using Suc.prems(2) True unfolding step by simp
    note ih = Suc.IH [OF lo this]
    have "udp_port_taken_unlocked ((eph_next ^^ k) (udp_next s)) s" if "p = 0" "k < Suc n" for k
      using ih that True by (cases k) (auto simp: funpow_swap1)
    with ih show ?thesis by (auto split: if_splits)
  next
    case False
    then have "p = udp_next s" "s' = ?s1" using Suc.prems(2) unfolding step by auto
    with False Suc.prems(1) lo show ?thesis by (auto simp: UDP_EPHEMERAL_LO_def)
  qed
qed

lemma ephemeral_ports:
  assumes "UDP_EPHEMERAL_LO \<le> udp_next s" and "udp_alloc_ephemeral_unlocked s = (p, s')"
  shows "\<exists>x. s' = s\<lparr>udp_next := x\<rparr> \<and> UDP_EPHEMERAL_LO \<le> x"
    "p \<noteq> 0 \<Longrightarrow> UDP_EPHEMERAL_LO \<le> p \<and> \<not> udp_port_taken_unlocked p s"
    "p = 0 \<longleftrightarrow> (\<forall>q \<ge> UDP_EPHEMERAL_LO. udp_port_taken_unlocked q s)"
proof -
  note sp = alloc_ephemeral_spec [OF assms(1) assms(2) [unfolded udp_alloc_ephemeral_unlocked_def]]
  show "\<exists>x. s' = s\<lparr>udp_next := x\<rparr> \<and> UDP_EPHEMERAL_LO \<le> x" using sp by blast
  show nz: "UDP_EPHEMERAL_LO \<le> p \<and> \<not> udp_port_taken_unlocked p s" if "p \<noteq> 0" using sp that by simp
  have "udp_port_taken_unlocked q s" if "p = 0" "UDP_EPHEMERAL_LO \<le> q" for q
    using eph_all [OF assms(1) that(2)] sp that(1) by auto
  with nz show "p = 0 \<longleftrightarrow> (\<forall>q \<ge> UDP_EPHEMERAL_LO. udp_port_taken_unlocked q s)" by blast
qed

section \<open>The invariant of the sockets\<close>

abbreviation has_port :: "udp_pcb \<Rightarrow> bool" where
  "has_port u \<equiv> u_in_use u \<and> u_bound u"

text \<open>Every socket's ring is well-formed, and no two sockets share a port.\<close>

definition udp_ok :: "net \<Rightarrow> bool" where
  "udp_ok s \<longleftrightarrow> length (udp_pcbs s) = UDP_PCB_MAX \<and> UDP_EPHEMERAL_LO \<le> udp_next s \<and>
    unique_on has_port u_local_port (udp_pcbs s) \<and>
    (\<forall>u \<in> set (udp_pcbs s). rx_ok u \<and> (u_bound u \<longrightarrow> u_local_port u \<noteq> 0))"

lemma udp_okD:
  assumes "udp_ok s"
  shows "length (udp_pcbs s) = UDP_PCB_MAX" "UDP_EPHEMERAL_LO \<le> udp_next s" "unique_on has_port u_local_port (udp_pcbs s)"
    "i < UDP_PCB_MAX \<Longrightarrow> rx_ok (udp_pcbs s ! i)" "i < UDP_PCB_MAX \<Longrightarrow> u_bound (udp_pcbs s ! i) \<Longrightarrow> u_local_port (udp_pcbs s ! i) \<noteq> 0"
  using assms by (simp_all add: udp_ok_def)

lemma udp_ok_set:
  assumes ok: "udp_ok s" and "rx_ok u" and "u_bound u \<Longrightarrow> u_local_port u \<noteq> 0"
    and free: "has_port u \<Longrightarrow> \<not> (has_port (udp_pcbs s ! i) \<and> u_local_port (udp_pcbs s ! i) = u_local_port u)
      \<Longrightarrow> \<not> udp_port_taken_unlocked (u_local_port u) s"
  shows "udp_ok (set_pcb i u s)"
proof -
  note d = udp_okD [OF ok]
  have "u_local_port (udp_pcbs s ! j) \<noteq> u_local_port u"
    if u: "has_port u" and j: "j < UDP_PCB_MAX" "j \<noteq> i" "has_port (udp_pcbs s ! j)" and i: "i < UDP_PCB_MAX" for j
  proof (cases "has_port (udp_pcbs s ! i) \<and> u_local_port (udp_pcbs s ! i) = u_local_port u")
    case True
    then show ?thesis using unique_onD [OF d(3), of i j] i j d(1) by auto
  next
    case False
    from free [OF u False] j show ?thesis by (auto simp: udp_port_taken_unlocked_def bound_to_def scan_None_iff)
  qed
  then have "unique_on has_port u_local_port ((udp_pcbs s)[i := u])"
    using unique_on_update [OF d(3), of u i] d(1,3) by (cases "i < UDP_PCB_MAX") (auto simp: list_update_beyond)
  moreover have "\<forall>v \<in> set ((udp_pcbs s)[i := u]). rx_ok v \<and> (u_bound v \<longrightarrow> u_local_port v \<noteq> 0)"
    using ok assms(2,3) by (intro set_list_update_all) (simp_all add: udp_ok_def)
  ultimately show ?thesis using d by (simp add: udp_ok_def set_pcb_def)
qed

lemma udp_ok_next:
  "udp_ok s \<Longrightarrow> UDP_EPHEMERAL_LO \<le> x \<Longrightarrow> udp_ok (s\<lparr>udp_next := x\<rparr>)" "udp_ok (s\<lparr>udp_handlers := h\<rparr>) = udp_ok s"
  by (simp_all add: udp_ok_def)

lemma udp_ok_rest: "tx_rest s' = tx_rest s \<Longrightarrow> udp_ok s' = udp_ok s"
  by (simp add: tx_rest_def udp_ok_def)

lemma ip_ok_udp [simp]:
  "ip_ok (s\<lparr>udp_next := x\<rparr>) = ip_ok s" "ip_ok (s\<lparr>udp_handlers := h\<rparr>) = ip_ok s" "ip_ok (set_pcb i u s) = ip_ok s"
  by (simp_all add: ip_ok_def addrs_ok_def arp_ok_def lo_ok_def set_pcb_def)

lemma no_pcb_ok: "rx_ok no_pcb" "rx_ok (no_pcb\<lparr>u_in_use := b\<rparr>)" "\<not> u_bound no_pcb"
  by (simp_all add: no_pcb_def rx_ok_def pkt_ok_def no_pkt_def UDP_RX_MAX_def)

lemma rx_ok_simps [simp]:
  "rx_ok (u\<lparr>u_local_port := p\<rparr>) = rx_ok u" "rx_ok (u\<lparr>u_bound := b\<rparr>) = rx_ok u" "rx_ok (u\<lparr>u_connected := b\<rparr>) = rx_ok u"
  "rx_ok (u\<lparr>u_dest_ip := a\<rparr>) = rx_ok u" "rx_ok (u\<lparr>u_dest_port := p\<rparr>) = rx_ok u" "rx_ok (u\<lparr>u_in_use := b\<rparr>) = rx_ok u"
  by (simp_all add: rx_ok_def)

lemma udp_pcb_create_ok: "udp_ok s \<Longrightarrow> udp_ok (snd (udp_pcb_create s))"
  using no_pcb_ok by (auto simp: udp_pcb_create_def no_pcb_def intro!: udp_ok_set split: option.split)

lemma udp_pcb_close_ok: "udp_ok s \<Longrightarrow> udp_ok (udp_pcb_close h s)"
  using no_pcb_ok by (auto simp: udp_pcb_close_def intro!: udp_ok_set split: option.split)

text \<open>A socket that keeps its port stays well-formed, and so does one that gets a free port.\<close>

lemma udp_ok_same_port:
  assumes "udp_ok s" and "i < UDP_PCB_MAX" and "rx_ok u" "u_in_use u = u_in_use (udp_pcbs s ! i)"
    "u_bound u = u_bound (udp_pcbs s ! i)" "u_local_port u = u_local_port (udp_pcbs s ! i)"
  shows "udp_ok (set_pcb i u s)"
  using assms udp_okD(5) [OF assms(1,2)] by (intro udp_ok_set) auto

lemma udp_ok_bind:
  assumes "udp_ok s" and "i < UDP_PCB_MAX" and "p \<noteq> 0" "\<not> udp_port_taken_unlocked p s"
  shows "udp_ok (set_pcb i ((udp_pcbs s ! i)\<lparr>u_local_port := p, u_bound := True\<rparr>) s)"
  using assms udp_okD(4) [OF assms(1,2)] by (intro udp_ok_set) auto

lemma ephemeral_ok:
  assumes ok: "udp_ok s" and i: "i < UDP_PCB_MAX" and a: "udp_alloc_ephemeral_unlocked s = (p, s1)"
  shows "udp_ok s1" "ip_ok s1 = ip_ok s" "udp_pcbs s1 = udp_pcbs s" "udp_port_taken_unlocked q s1 = udp_port_taken_unlocked q s"
    "p \<noteq> 0 \<Longrightarrow> udp_ok (set_pcb i ((udp_pcbs s1 ! i)\<lparr>u_local_port := p, u_bound := True\<rparr>) s1)"
proof -
  note e = ephemeral_ports [OF udp_okD(2) [OF ok] a]
  obtain x where x: "s1 = s\<lparr>udp_next := x\<rparr>" "UDP_EPHEMERAL_LO \<le> x" using e(1) by blast
  show s1: "udp_ok s1" using udp_ok_next(1) [OF ok x(2)] x(1) by simp
  show "ip_ok s1 = ip_ok s" "udp_pcbs s1 = udp_pcbs s" "udp_port_taken_unlocked q s1 = udp_port_taken_unlocked q s"
    by (simp_all add: x(1))
  show "udp_ok (set_pcb i ((udp_pcbs s1 ! i)\<lparr>u_local_port := p, u_bound := True\<rparr>) s1)" if "p \<noteq> 0"
    using e(2) [OF that] udp_ok_bind [OF s1 i that] by (simp add: x(1))
qed

lemma ensure_bound_ok:
  assumes ok: "udp_ok s" and i: "i < UDP_PCB_MAX" and r: "ensure_bound i s = (b, s1)"
  shows "udp_ok s1" "ip_ok s1 = ip_ok s" "u_in_use (udp_pcbs s1 ! i) = u_in_use (udp_pcbs s ! i)"
    "b \<Longrightarrow> u_bound (udp_pcbs s1 ! i)"
proof -
  obtain p s2 where a: "udp_alloc_ephemeral_unlocked s = (p, s2)" by (cases "udp_alloc_ephemeral_unlocked s") blast
  note e = ephemeral_ok [OF ok i a]
  have len: "length (udp_pcbs s2) = UDP_PCB_MAX" using e(1) by (rule udp_okD)
  have u: "u_in_use (udp_pcbs (set_pcb i ((udp_pcbs s2 ! i)\<lparr>u_local_port := p, u_bound := True\<rparr>) s2) ! i) = u_in_use (udp_pcbs s ! i)"
    "u_bound (udp_pcbs (set_pcb i ((udp_pcbs s2 ! i)\<lparr>u_local_port := p, u_bound := True\<rparr>) s2) ! i)"
    using i len e(3) by (simp_all add: set_pcb_def)
  show "udp_ok s1" "ip_ok s1 = ip_ok s" "u_in_use (udp_pcbs s1 ! i) = u_in_use (udp_pcbs s ! i)" "b \<Longrightarrow> u_bound (udp_pcbs s1 ! i)"
    using r ok e(1,2,3,5) u by (auto simp: ensure_bound_def a split: if_splits)
qed

text \<open>The pointers a caller can hold: those \<^verbatim>\<open>udp_pcb_create\<close> gave out, or null.\<close>

definition socket_handle :: "nat option \<Rightarrow> bool" where
  "socket_handle h \<longleftrightarrow> (\<forall>i. h = Some i \<longrightarrow> i < UDP_PCB_MAX)"

lemma udp_pcb_bind_ok:
  assumes ok: "udp_ok s" and h: "socket_handle h"
  shows "udp_ok (snd (udp_pcb_bind h port s))" "ip_ok (snd (udp_pcb_bind h port s)) = ip_ok s"
proof (atomize (full), cases "handle_ok s h \<and> \<not> u_bound (udp_pcbs s ! the h)")
  case True
  then obtain i where i: "h = Some i" "i < UDP_PCB_MAX" using h by (auto simp: handle_ok_def socket_handle_def split: option.splits)
  obtain p s1 where a: "udp_alloc_ephemeral_unlocked s = (p, s1)" by (cases "udp_alloc_ephemeral_unlocked s") blast
  note e = ephemeral_ok [OF ok i(2) a]
  show "udp_ok (snd (udp_pcb_bind h port s)) \<and> ip_ok (snd (udp_pcb_bind h port s)) = ip_ok s"
    using True ok e(1,2,5) udp_ok_bind [OF ok i(2), of port] by (simp add: udp_pcb_bind_def i(1) a e(3) Let_def)
qed (use ok in \<open>auto simp: udp_pcb_bind_def Let_def\<close>)

lemma udp_pcb_connect_ok:
  assumes ok: "udp_ok s" and h: "socket_handle h"
  shows "udp_ok (snd (udp_pcb_connect h ip port s))" "ip_ok (snd (udp_pcb_connect h ip port s)) = ip_ok s"
proof (atomize (full), cases "handle_ok s h \<and> ip \<noteq> None \<and> port \<noteq> 0")
  case True
  then obtain i where i: "h = Some i" "i < UDP_PCB_MAX" using h by (auto simp: handle_ok_def socket_handle_def split: option.splits)
  obtain b s1 where r: "ensure_bound i s = (b, s1)" by (cases "ensure_bound i s") blast
  note e = ensure_bound_ok [OF ok i(2) r]
  have "udp_ok (set_pcb i ((udp_pcbs s1 ! i)\<lparr>u_dest_ip := the ip, u_dest_port := port, u_connected := True\<rparr>) s1)"
    using udp_okD(4) [OF e(1) i(2)] by (intro udp_ok_same_port [OF e(1) i(2)]) simp_all
  then show "udp_ok (snd (udp_pcb_connect h ip port s)) \<and> ip_ok (snd (udp_pcb_connect h ip port s)) = ip_ok s"
    using True e(1,2) by (auto simp: udp_pcb_connect_def i(1) r)
qed (use ok in \<open>auto simp: udp_pcb_connect_def\<close>)

lemma udp_pcb_recvfrom_ok:
  assumes ok: "udp_ok s" and h: "socket_handle h"
  shows "udp_ok (snd (udp_pcb_recvfrom h len s))" "ip_ok (snd (udp_pcb_recvfrom h len s)) = ip_ok s"
proof (atomize (full), cases "handle_ok s h \<and> rx_get (udp_pcbs s ! the h) \<noteq> None")
  case True
  then obtain i where i: "h = Some i" "i < UDP_PCB_MAX" using h by (auto simp: handle_ok_def socket_handle_def split: option.splits)
  from True i obtain u pkt where g: "rx_get (udp_pcbs s ! i) = Some (u, pkt)" by auto
  have "rx_ok u" using socket.get_some [OF udp_okD(4) [OF ok i(2)], of u "msg_of pkt"] g by simp
  moreover have "u_in_use u = u_in_use (udp_pcbs s ! i)" "u_bound u = u_bound (udp_pcbs s ! i)"
    "u_local_port u = u_local_port (udp_pcbs s ! i)"
    using g by (auto simp: rx_get_def split: if_splits)
  ultimately have "udp_ok (set_pcb i u s)" by (rule udp_ok_same_port [OF ok i(2)])
  then show "udp_ok (snd (udp_pcb_recvfrom h len s)) \<and> ip_ok (snd (udp_pcb_recvfrom h len s)) = ip_ok s"
    using True by (simp add: udp_pcb_recvfrom_def i(1) g Let_def)
qed (use ok in \<open>auto simp: udp_pcb_recvfrom_def split: option.splits\<close>)

lemma rx_put_same: "u_in_use (rx_put u m) = u_in_use u" "u_bound (rx_put u m) = u_bound u" "u_local_port (rx_put u m) = u_local_port u"
  by (cases m; simp add: rx_put_def Let_def)+

lemma udp_pcb_deliver_ok:
  assumes ok: "udp_ok s"
  shows "udp_ok (snd (udp_pcb_deliver sp dp ip d s))" "ip_ok (snd (udp_pcb_deliver sp dp ip d s)) = ip_ok s"
proof (atomize (full), cases "scan (bound_to s dp) 0 UDP_PCB_MAX")
  case (Some i)
  then have i: "i < UDP_PCB_MAX" using scan_SomeD by blast
  have "udp_ok (set_pcb i (rx_put (udp_pcbs s ! i) (ip, sp, d)) s)"
    using rx_put_ok(1) [OF udp_okD(4) [OF ok i]] by (intro udp_ok_same_port [OF ok i]) (simp_all add: rx_put_same)
  with Some show "udp_ok (snd (udp_pcb_deliver sp dp ip d s)) \<and> ip_ok (snd (udp_pcb_deliver sp dp ip d s)) = ip_ok s"
    by (simp add: udp_pcb_deliver_def)
qed (use ok in \<open>simp add: udp_pcb_deliver_def\<close>)

lemma length_udp_datagram: "length (udp_datagram src dst sp dp d) = 8 + length d"
  by (simp add: udp_datagram_def udp_header_def Let_def)

lemma udp_send_sends:
  assumes "ip_ok s" and "length dst = 4"
  shows "sends s (udp_send e (Some dst) sp dp d s)"
proof -
  let ?s1 = "s\<lparr>allocs := allocs s + 1\<rparr>"
  have "tx_rest ?s1 = tx_rest s" by (simp add: tx_rest_def)
  then show ?thesis
    using assms ip_send_packet_sends [of ?s1 dst "udp_datagram (ip_select_src dst ?s1) dst sp dp d" e 17]
    by (auto simp: udp_send_def try_alloc_def sends_def length_udp_datagram)
qed

lemma udp_pcb_sendto_ok:
  assumes ok: "udp_ok s" "ip_ok s" and h: "socket_handle h"
    and dst: "\<forall>a. ip = Some a \<longrightarrow> length a = 4" and data: "\<forall>d. data = Some d \<longrightarrow> len \<le> length d"
  shows "\<exists>r s'. udp_pcb_sendto e h data len ip port s = Some (r, s') \<and> udp_ok s' \<and> ip_ok s'"
proof (cases "handle_ok s h \<and> \<not> (len > 0 \<and> data = None) \<and> ip \<noteq> None \<and> port \<noteq> 0")
  case True
  then obtain i a where i: "h = Some i" "i < UDP_PCB_MAX" and a: "ip = Some a" "length a = 4"
    using h dst by (auto simp: handle_ok_def socket_handle_def split: option.splits)
  obtain b s1 where r: "ensure_bound i s = (b, s1)" by (cases "ensure_bound i s") blast
  note e = ensure_bound_ok [OF ok(1) i(2) r]
  let ?d = "case data of None \<Rightarrow> [] | Some d \<Rightarrow> d" and ?sp = "u_local_port (udp_pcbs s1 ! i)"
  have d: "\<not> length ?d < len" using True data by (auto split: option.split)
  obtain x s2 where s2: "udp_send e ip ?sp port (take len ?d) s1 = Some (x, s2)" "ip_ok s2" "tx_rest s2 = tx_rest s1"
    using udp_send_sends [of s1 a e ?sp port "take len ?d"] e(2) ok(2) a by (auto simp: sends_def)
  have eq: "udp_pcb_sendto e h data len ip port s =
      (if b then Some (if x < 0 then x else int len, s2) else Some (- errno_code EADDRINUSE, s1))"
    using True d s2(1) a(1) by (simp add: udp_pcb_sendto_def i(1) r Let_def split: option.splits)
  show ?thesis
    unfolding eq using e(1,2) ok(2) s2(2) udp_ok_rest [OF s2(3)] by auto
qed (use ok in \<open>auto simp: udp_pcb_sendto_def\<close>)

section \<open>Runs of the socket layer\<close>

inductive udp_step :: "env \<Rightarrow> net \<Rightarrow> net \<Rightarrow> bool" for e where
  Create: "udp_step e s (snd (udp_pcb_create s))"
| Bind: "socket_handle h \<Longrightarrow> udp_step e s (snd (udp_pcb_bind h port s))"
| Connect: "socket_handle h \<Longrightarrow> udp_step e s (snd (udp_pcb_connect h ip port s))"
| Sendto: "socket_handle h \<Longrightarrow> \<forall>a. ip = Some a \<longrightarrow> length a = 4 \<Longrightarrow>
    udp_pcb_sendto e h data len ip port s = Some (r, s') \<Longrightarrow> udp_step e s s'"
| Recvfrom: "socket_handle h \<Longrightarrow> udp_step e s (snd (udp_pcb_recvfrom h len s))"
| Close: "socket_handle h \<Longrightarrow> udp_step e s (udp_pcb_close h s)"
| Deliver: "udp_step e s (snd (udp_pcb_deliver src_port dst_port src_ip payload s))"
| Register: "udp_step e s (snd (udp_register_handler port handler s))"
| Unregister: "udp_step e s (udp_unregister_handler port s)"

lemma sendto_buffer:
  assumes "udp_pcb_sendto e h data len ip port s = Some (r, s')"
  shows "s' = s \<or> s' = snd (ensure_bound (the h) s) \<or> (\<forall>d. data = Some d \<longrightarrow> len \<le> length d)"
  using assms by (auto simp: udp_pcb_sendto_def Let_def split: if_splits prod.splits)

lemma udp_step_ok:
  assumes "udp_step e s s'" and ok: "udp_ok s" "ip_ok s"
  shows "udp_ok s' \<and> ip_ok s'"
  using assms(1)
proof cases
  case (Sendto h ip data len port r)
  show ?thesis
  proof (cases "\<forall>d. data = Some d \<longrightarrow> len \<le> length d")
    case True
    then show ?thesis using udp_pcb_sendto_ok [OF ok Sendto(1,2) True, of e port] Sendto(3) by auto
  next
    case False
    obtain b s1 where r: "ensure_bound (the h) s = (b, s1)" by (cases "ensure_bound (the h) s") blast
    have "s' = s \<or> s' = s1 \<and> h \<noteq> None"
      using sendto_buffer [OF Sendto(3)] False Sendto(3) r
      by (cases h) (auto simp: udp_pcb_sendto_def handle_ok_def)
    then show ?thesis
      using ensure_bound_ok(1,2) [OF ok(1) _ r] ok Sendto(1) by (auto simp: socket_handle_def)
  qed
qed (use ok udp_pcb_create_ok udp_pcb_bind_ok udp_pcb_connect_ok udp_pcb_recvfrom_ok udp_pcb_close_ok udp_pcb_deliver_ok in
    \<open>auto simp: udp_register_handler_def udp_unregister_handler_def udp_ok_next udp_pcb_create_def udp_pcb_close_def
      split: option.splits\<close>)

lemma udp_runs_ok: "(udp_step e)\<^sup>*\<^sup>* s s' \<Longrightarrow> udp_ok s \<Longrightarrow> ip_ok s \<Longrightarrow> udp_ok s' \<and> ip_ok s'"
  by (induction rule: rtranclp_induct) (auto dest: udp_step_ok)

lemma bound_to_unique:
  assumes "udp_ok s" and "i < UDP_PCB_MAX" "bound_to s port i"
  shows "scan (bound_to s port) 0 UDP_PCB_MAX = Some i"
proof -
  have "\<not> bound_to s port j" if "j < i" for j
    using unique_onD [OF udp_okD(3) [OF assms(1)], of j i] assms udp_okD(1) [OF assms(1)] that by (auto simp: bound_to_def)
  with assms(2,3) show ?thesis by (simp add: scan_Some_iff)
qed

lemma deliver_to:
  assumes "udp_ok s" and "i < UDP_PCB_MAX" "bound_to s port i"
  shows "udp_pcb_deliver src_port port src_ip payload s = (True, set_pcb i (rx_put (udp_pcbs s ! i) (src_ip, src_port, payload)) s)"
  using bound_to_unique [OF assms] by (simp add: udp_pcb_deliver_def)


lemma small_net_udp: "udp_ok small_net"
  by (simp add: udp_ok_def small_net_def unique_on_def rx_ok_def pkt_ok_def UDP_PCB_MAX_def UDP_RX_MAX_def
      UDP_RX_PAYLOAD_def UDP_EPHEMERAL_LO_def)


lemma ephemeral_enough:
  assumes "card {p. UDP_EPHEMERAL_LO \<le> p \<and> udp_handlers s p \<noteq> None} < 16352"
  shows "\<exists>p \<ge> UDP_EPHEMERAL_LO. \<not> udp_port_taken_unlocked p s"
proof (rule ccontr)
  let ?E = "{p :: u16. UDP_EPHEMERAL_LO \<le> p}" and ?H = "{p. UDP_EPHEMERAL_LO \<le> p \<and> udp_handlers s p \<noteq> None}"
  let ?U = "(\<lambda>i. u_local_port (udp_pcbs s ! i)) ` {0..<UDP_PCB_MAX}"
  have fin: "finite A" for A :: "u16 set" by simp
  assume "\<not> ?thesis"
  then have "?E \<subseteq> ?H \<union> ?U" by (auto simp: udp_port_taken_unlocked_def scan_None_iff bound_to_def)
  then have "card ?E \<le> card (?H \<union> ?U)" by (intro card_mono fin)
  also have "\<dots> \<le> card ?H + card ?U" by (rule card_Un_le)
  also have "card ?U \<le> 32" using card_image_le [of "{0..<UDP_PCB_MAX}" "\<lambda>i. u_local_port (udp_pcbs s ! i)"] by (simp add: UDP_PCB_MAX_def)
  finally have "card ?E < 16384" using assms by simp
  moreover have "inj_on (of_nat :: nat \<Rightarrow> u16) {49152..<65536}" by (intro inj_onI) (simp add: of_nat_inverse word_unat_eq_iff unat_of_nat)
  then have "card ((of_nat :: nat \<Rightarrow> u16) ` {49152..<65536}) = 16384" by (simp add: card_image)
  moreover have "(of_nat :: nat \<Rightarrow> u16) ` {49152..<65536} \<subseteq> ?E"
    by (auto simp: UDP_EPHEMERAL_LO_def word_le_nat_alt unat_of_nat)
  then have "card ((of_nat :: nat \<Rightarrow> u16) ` {49152..<65536}) \<le> card ?E" by (intro card_mono fin)
  ultimately show False by linarith
qed

text \<open>
  C27. Binding an unbound socket to port 0 succeeds exactly when some port from 49152 on is used
  neither by a handler nor by a socket, and then gives it such a port; in particular it succeeds
  whenever fewer than 16352 of these ports have handlers.
\<close>

theorem udp_bind_ephemeral:
  assumes "udp_ok s" and "i < UDP_PCB_MAX" and "u_in_use (udp_pcbs s ! i)" "\<not> u_bound (udp_pcbs s ! i)"
  shows "case udp_pcb_bind (Some i) 0 s of (r, s') \<Rightarrow>
     (r = 0 \<longleftrightarrow> (\<exists>p \<ge> UDP_EPHEMERAL_LO. \<not> udp_port_taken_unlocked p s)) \<and>
     (if r = 0 then UDP_EPHEMERAL_LO \<le> udp_pcb_local_port (Some i) s' \<and>
          \<not> udp_port_taken_unlocked (udp_pcb_local_port (Some i) s') s \<and> bound_to s' (udp_pcb_local_port (Some i) s') i
      else r = - errno_code EADDRINUSE \<and> udp_pcbs s' = udp_pcbs s) \<and>
     (card {p. UDP_EPHEMERAL_LO \<le> p \<and> udp_handlers s p \<noteq> None} < 16352 \<longrightarrow> r = 0)"
proof -
  obtain p s1 where a: "udp_alloc_ephemeral_unlocked s = (p, s1)" by (cases "udp_alloc_ephemeral_unlocked s") blast
  note e = ephemeral_ports [OF udp_okD(2) [OF assms(1)] a] and same = ephemeral_ok(3) [OF assms(1,2) a]
  let ?s' = "set_pcb i ((udp_pcbs s ! i)\<lparr>u_local_port := p, u_bound := True\<rparr>) s1"
  have b: "udp_pcb_bind (Some i) 0 s = (if p = 0 then (- errno_code EADDRINUSE, s1) else (0, ?s'))"
    using assms(3,4) by (simp add: udp_pcb_bind_def handle_ok_def a Let_def)
  have get: "udp_pcbs ?s' ! i = (udp_pcbs s ! i)\<lparr>u_local_port := p, u_bound := True\<rparr>"
    using same udp_okD(1) [OF assms(1)] assms(2) by (simp add: set_pcb_def)
  then have "udp_pcb_local_port (Some i) ?s' = p" "bound_to ?s' p i"
    using assms(3) by (simp_all add: udp_pcb_local_port_def handle_ok_def bound_to_def)
  with e(2,3) ephemeral_enough [of s] same show ?thesis by (auto simp: b)
qed

theorem udp_bind_ephemeral_witness:
  "fst (udp_pcb_bind (Some 0) 0 (snd (udp_pcb_create small_net))) = 0"
proof -
  let ?s = "snd (udp_pcb_create small_net)"
  have c: "udp_pcbs ?s ! 0 = no_pcb\<lparr>u_in_use := True\<rparr>" "udp_handlers ?s = (\<lambda>_. None)"
    by (simp_all add: udp_pcb_create_def scan.simps [of _ 0] UDP_PCB_MAX_def set_pcb_def small_net_def)
  have "card {p. UDP_EPHEMERAL_LO \<le> p \<and> udp_handlers ?s p \<noteq> None} < 16352" by (simp add: c(2))
  then show ?thesis
    using udp_bind_ephemeral [OF udp_pcb_create_ok [OF small_net_udp], of 0] c(1)
    by (simp add: UDP_PCB_MAX_def no_pcb_def case_prod_beta)
qed

definition deliver_all :: "u16 \<Rightarrow> (u8 list \<times> u16 \<times> u8 list) list \<Rightarrow> net \<Rightarrow> net" where
  "deliver_all port ms s = foldl (\<lambda>s (src_ip, src_port, payload). snd (udp_pcb_deliver src_port port src_ip payload s)) s ms"

fun recv_all :: "nat option \<Rightarrow> nat \<Rightarrow> net \<Rightarrow> (u8 list \<times> u16 \<times> u8 list) list" where
  "recv_all h 0 s = []"
| "recv_all h (Suc n) s =
    (case udp_pcb_recvfrom h UDP_RX_PAYLOAD s of
       (Inl _, _) \<Rightarrow> []
     | (Inr (d, src_ip, src_port), s') \<Rightarrow> (src_ip, src_port, d) # recv_all h n s')"

lemma set_pcb_again: "set_pcb i v (set_pcb i u s) = set_pcb i v s"
  by (simp add: set_pcb_def)

lemma set_pcb_get: "udp_ok s \<Longrightarrow> i < UDP_PCB_MAX \<Longrightarrow> udp_pcbs (set_pcb i u s) ! i = u"
  by (simp add: set_pcb_def udp_okD(1))

lemma deliver_all_eq:
  assumes "udp_ok s" and i: "i < UDP_PCB_MAX" and "bound_to s port i"
  shows "deliver_all port ms s = set_pcb i (foldl rx_put (udp_pcbs s ! i) ms) s"
  using assms(1,3)
proof (induction ms arbitrary: s)
  case Nil
  then show ?case by (simp add: deliver_all_def set_pcb_def list_update_id)
next
  case (Cons m ms)
  obtain a b d where m: "m = (a, b, d)" by (cases m) blast
  let ?u = "rx_put (udp_pcbs s ! i) m" let ?s1 = "set_pcb i ?u s"
  have del: "udp_pcb_deliver b port a d s = (True, ?s1)" using deliver_to [OF Cons.prems(1) i Cons.prems(2)] m by simp
  have "udp_ok ?s1" using udp_pcb_deliver_ok(1) [OF Cons.prems(1), of b port a d] del by simp
  moreover have "bound_to ?s1 port i"
    using Cons.prems(2) by (simp add: bound_to_def set_pcb_get [OF Cons.prems(1) i] rx_put_same)
  ultimately have "deliver_all port ms ?s1 = set_pcb i (foldl rx_put ?u ms) s"
    using Cons.IH [of ?s1] by (simp add: set_pcb_get [OF Cons.prems(1) i] set_pcb_again)
  moreover have "deliver_all port (m # ms) s = deliver_all port ms ?s1" using del by (simp add: deliver_all_def m)
  ultimately show ?case by simp
qed

lemma recv_all_eq:
  assumes "udp_ok s" and i: "i < UDP_PCB_MAX" and "u_in_use (udp_pcbs s ! i)"
  shows "recv_all (Some i) n s = socket.drain n (udp_pcbs s ! i)"
  using assms(1,3)
proof (induction n arbitrary: s)
  case (Suc n)
  let ?u = "udp_pcbs s ! i"
  have ok: "rx_ok ?u" using udp_okD(4) [OF Suc.prems(1) i] .
  have h: "handle_ok s (Some i)" using Suc.prems(2) by (simp add: handle_ok_def)
  show ?case
  proof (cases "rx_get ?u")
    case None
    then show ?thesis using h by (simp add: udp_pcb_recvfrom_def)
  next
    case (Some g)
    obtain v p where g: "rx_get ?u = Some (v, p)" using Some by (cases g) auto
    have p: "p \<in> set (u_rx ?u)" and v: "u_in_use v"
      using g ok Suc.prems(2) by (auto simp: rx_get_def rx_ok_def split: if_splits)
    have len: "unat (p_len p) \<le> UDP_RX_PAYLOAD" using ok p by (simp add: rx_ok_def pkt_ok_def)
    have r: "udp_pcb_recvfrom (Some i) UDP_RX_PAYLOAD s = (Inr (take (unat (p_len p)) (p_data p), p_src_ip p, p_src_port p), set_pcb i v s)"
      using h len by (simp add: udp_pcb_recvfrom_def g)
    have "udp_ok (set_pcb i v s)"
      using udp_pcb_recvfrom_ok(1) [OF Suc.prems(1), of "Some i" UDP_RX_PAYLOAD] i by (simp add: r socket_handle_def)
    then have "recv_all (Some i) n (set_pcb i v s) = socket.drain n v"
      using Suc.IH v by (simp add: set_pcb_get [OF Suc.prems(1) i])
    then show ?thesis by (simp add: r g msg_of_def [of p])
  qed
qed simp

text \<open>
  C26. Datagrams that arrive for a bound socket are received in the order of arrival with their
  senders, each cut at 1472 bytes; when more than 8 wait, it is the oldest that are lost.
\<close>

theorem udp_receive_order:
  assumes "udp_ok s" and "i < UDP_PCB_MAX" and "bound_to s port i"
  shows "recv_all (Some i) UDP_RX_MAX (deliver_all port ms s) = lastn UDP_RX_MAX (rx_queue (udp_pcbs s ! i) @ map clip ms)"
proof -
  let ?u = "udp_pcbs s ! i" let ?v = "foldl rx_put ?u ms" let ?s' = "set_pcb i ?v s"
  have rx: "rx_ok ?u" using udp_okD(4) [OF assms(1,2)] .
  have same: "u_in_use (foldl rx_put u ms) = u_in_use u \<and> u_bound (foldl rx_put u ms) = u_bound u \<and>
      u_local_port (foldl rx_put u ms) = u_local_port u" for u
    by (induction ms arbitrary: u) (simp_all add: rx_put_same)
  have "udp_ok ?s'" using same [of ?u] socket.puts_inv [OF rx] by (intro udp_ok_same_port [OF assms(1,2)]) simp_all
  then have "recv_all (Some i) UDP_RX_MAX ?s' = socket.drain UDP_RX_MAX ?v"
    using recv_all_eq [of ?s' i UDP_RX_MAX] assms same [of ?u] by (simp add: set_pcb_get [OF assms(1,2)] bound_to_def)
  with socket.drain_puts [OF rx, of ms] show ?thesis by (simp add: deliver_all_eq [OF assms])
qed

theorem udp_receive_order_witness:
  "recv_all (Some 0) UDP_RX_MAX (deliver_all 5000 [([10, 0, 2, 2], 53, [1, 2]), ([10, 0, 2, 3], 54, [3])]
     (snd (udp_pcb_bind (Some 0) 5000 (snd (udp_pcb_create small_net))))) =
   [([10, 0, 2, 2], 53, [1, 2]), ([10, 0, 2, 3], 54, [3])]"
proof -
  let ?c = "snd (udp_pcb_create small_net)" let ?s = "snd (udp_pcb_bind (Some 0) 5000 ?c)"
  have c: "?c = set_pcb 0 (no_pcb\<lparr>u_in_use := True\<rparr>) small_net"
    by (simp add: udp_pcb_create_def scan.simps [of _ 0] UDP_PCB_MAX_def small_net_def)
  have free: "\<not> udp_port_taken_unlocked 5000 ?c"
    unfolding c udp_port_taken_unlocked_def scan_None_iff
    by (auto simp: bound_to_def set_pcb_def small_net_def no_pcb_def UDP_PCB_MAX_def nth_list_update)
  have s: "?s = set_pcb 0 (no_pcb\<lparr>u_in_use := True, u_local_port := 5000, u_bound := True\<rparr>) small_net"
    using free unfolding c
    by (simp add: udp_pcb_bind_def handle_ok_def set_pcb_get [OF small_net_udp] set_pcb_again UDP_PCB_MAX_def Let_def no_pcb_def)
  have ok: "udp_ok ?s" by (intro udp_pcb_bind_ok udp_pcb_create_ok small_net_udp) (simp add: socket_handle_def UDP_PCB_MAX_def)
  have g: "udp_pcbs ?s ! 0 = no_pcb\<lparr>u_in_use := True, u_local_port := 5000, u_bound := True\<rparr>"
    unfolding s by (simp add: set_pcb_get [OF small_net_udp] UDP_PCB_MAX_def)
  then have "bound_to ?s 5000 0" "rx_queue (udp_pcbs ?s ! 0) = []" by (simp_all add: bound_to_def rx_queue_def no_pcb_def)
  with udp_receive_order [OF ok, of 0 5000] show ?thesis
    by (simp add: UDP_PCB_MAX_def clip_def UDP_RX_PAYLOAD_def UDP_RX_MAX_def)
qed

end
