(* ===== verification/Dnscache.thy ===== *)
theory Dnscache
  imports Arp "HOL-Library.Monad_Syntax"
begin

text \<open>
  The cache of the resolver, \<^verbatim>\<open>src/src/net_dns.c\<close>. Strings are byte lists that contain their
  terminator; reading on behind the end of a list is \<open>None\<close>. The names of the cache are kept in
  buffers of 128 bytes.
\<close>

definition DNS_CACHE_SIZE :: nat where "DNS_CACHE_SIZE = 16"
definition DNS_CACHE_MAX_NAME :: nat where "DNS_CACHE_MAX_NAME = 128"
definition DNS_CACHE_DEFAULT_TTL :: u32 where "DNS_CACHE_DEFAULT_TTL = 300"

section \<open>Operations\<close>

definition no_dns :: dns_entry where
  "no_dns = \<lparr>d_hostname = replicate DNS_CACHE_MAX_NAME 0, d_ip = replicate 4 0, d_ttl_s = 0, d_cached_at_ms = 0, d_valid = False\<rparr>"

definition dns_cache_init :: "net \<Rightarrow> net" where
  "dns_cache_init s =
    (if dns_cache_initialized s then s
     else s\<lparr>dns_cache := replicate DNS_CACHE_SIZE no_dns, dns_cache_initialized := True\<rparr>)"

definition lower_case :: "u8 \<Rightarrow> u8" where
  "lower_case c = (if c \<ge> 65 \<and> c \<le> 90 then c + 32 else c)"

fun dns_str_eq_ci :: "u8 list \<Rightarrow> u8 list \<Rightarrow> bool option" where
  "dns_str_eq_ci (a # as) (b # bs) =
    (if a \<noteq> 0 \<and> b \<noteq> 0 then if lower_case a \<noteq> lower_case b then Some False else dns_str_eq_ci as bs
     else Some (a = b))"
| "dns_str_eq_ci _ _ = None"

definition dns_stale :: "net \<Rightarrow> dns_entry \<Rightarrow> bool" where
  "dns_stale s c \<longleftrightarrow> hpet_ticks s - d_cached_at_ms c \<ge> ucast (d_ttl_s c) * 1000"

definition set_dns :: "nat \<Rightarrow> dns_entry \<Rightarrow> net \<Rightarrow> net" where
  "set_dns i c s = s\<lparr>dns_cache := (dns_cache s)[i := c]\<rparr>"

fun dns_lookup_from :: "u8 list \<Rightarrow> nat \<Rightarrow> nat \<Rightarrow> net \<Rightarrow> (u8 list option \<times> net) option" where
  "dns_lookup_from hostname i 0 s = Some (None, s)"
| "dns_lookup_from hostname i (Suc n) s =
    (let c = dns_cache s ! i in
     if \<not> d_valid c then dns_lookup_from hostname (i + 1) n s
     else do {
       same \<leftarrow> dns_str_eq_ci (d_hostname c) hostname;
       if \<not> same then dns_lookup_from hostname (i + 1) n s
       else if dns_stale s c then Some (None, set_dns i (c\<lparr>d_valid := False\<rparr>) s)
       else Some (Some (d_ip c), s)
     })"

definition dns_cache_lookup :: "u8 list \<Rightarrow> net \<Rightarrow> (u8 list option \<times> net) option" where
  "dns_cache_lookup hostname s = dns_lookup_from hostname 0 DNS_CACHE_SIZE (dns_cache_init s)"

text \<open>The search for an entry to update, and the search for a slot.\<close>

fun dns_find_from :: "u8 list \<Rightarrow> nat \<Rightarrow> nat \<Rightarrow> net \<Rightarrow> nat option option" where
  "dns_find_from hostname i 0 s = Some None"
| "dns_find_from hostname i (Suc n) s =
    (if \<not> d_valid (dns_cache s ! i) then dns_find_from hostname (i + 1) n s
     else do {
       same \<leftarrow> dns_str_eq_ci (d_hostname (dns_cache s ! i)) hostname;
       if same then Some (Some i) else dns_find_from hostname (i + 1) n s
     })"

fun dns_slot_from :: "nat option \<Rightarrow> u64 \<Rightarrow> nat \<Rightarrow> nat \<Rightarrow> net \<Rightarrow> nat option" where
  "dns_slot_from slot oldest_time i 0 s = slot"
| "dns_slot_from slot oldest_time i (Suc n) s =
    (let c = dns_cache s ! i in
     if \<not> d_valid c then Some i
     else if dns_stale s c then Some i
     else if d_cached_at_ms c < oldest_time then dns_slot_from (Some i) (d_cached_at_ms c) (i + 1) n s
     else dns_slot_from slot oldest_time (i + 1) n s)"

text \<open>The loop that measures the name, and the copy with the terminator.\<close>

fun name_len :: "u8 list \<Rightarrow> nat \<Rightarrow> nat \<Rightarrow> nat option" where
  "name_len (c # cs) limit n = (if c \<noteq> 0 \<and> n < limit then name_len cs limit (n + 1) else Some n)"
| "name_len [] limit n = None"

definition store_name :: "u8 list \<Rightarrow> u8 list \<Rightarrow> u8 list option" where
  "store_name hostname buf =
    do {
      n \<leftarrow> name_len hostname (DNS_CACHE_MAX_NAME - 1) 0;
      Some (blit buf 0 (take n hostname @ [0]))
    }"

definition dns_cache_insert :: "u8 list \<Rightarrow> u8 list \<Rightarrow> u32 \<Rightarrow> net \<Rightarrow> net option" where
  "dns_cache_insert hostname ip ttl s0 =
    (let s = dns_cache_init s0; ttl_s = (if ttl = 0 then DNS_CACHE_DEFAULT_TTL else ttl) in
     do {
       found \<leftarrow> dns_find_from hostname 0 DNS_CACHE_SIZE s;
       case found of
         Some i \<Rightarrow> Some (set_dns i ((dns_cache s ! i)\<lparr>d_ip := ip, d_ttl_s := ttl_s, d_cached_at_ms := hpet_ticks s\<rparr>) s)
       | None \<Rightarrow>
           (let slot = (case dns_slot_from None 0xFFFFFFFFFFFFFFFF 0 DNS_CACHE_SIZE s of None \<Rightarrow> 0 | Some i \<Rightarrow> i) in
            do {
              name \<leftarrow> store_name hostname (d_hostname (dns_cache s ! slot));
              Some (set_dns slot \<lparr>d_hostname = name, d_ip = ip, d_ttl_s = ttl_s, d_cached_at_ms = hpet_ticks s, d_valid = True\<rparr> s)
            })
     })"

definition dns_cache_flush :: "net \<Rightarrow> net" where
  "dns_cache_flush s = s\<lparr>dns_cache := replicate DNS_CACHE_SIZE no_dns\<rparr>"

definition dns_cache_get_count :: "net \<Rightarrow> nat \<times> net" where
  "dns_cache_get_count s0 =
    (let s = dns_cache_init s0 in
     (length (filter (\<lambda>c. d_valid c \<and> \<not> dns_stale s c) (dns_cache s)), s))"

section \<open>Names and the invariant\<close>

text \<open>What a name means: the characters before the terminator, in lower case.\<close>

definition dns_key :: "u8 list \<Rightarrow> u8 list" where
  "dns_key h = map lower_case (takeWhile (\<lambda>c. c \<noteq> 0) h)"

definition dns_entry_ok :: "dns_entry \<Rightarrow> bool" where
  "dns_entry_ok c \<longleftrightarrow> length (d_hostname c) = DNS_CACHE_MAX_NAME \<and> 0 \<in> set (d_hostname c) \<and> length (d_ip c) = 4"

definition dns_ok :: "net \<Rightarrow> bool" where
  "dns_ok s \<longleftrightarrow> length (dns_cache s) = DNS_CACHE_SIZE \<and> (\<forall>c \<in> set (dns_cache s). dns_entry_ok c) \<and>
    length (dns_answer_ip s) = 4"

definition dns_match :: "u8 list \<Rightarrow> net \<Rightarrow> nat \<Rightarrow> bool" where
  "dns_match h s i \<longleftrightarrow> d_valid (dns_cache s ! i) \<and> dns_key (d_hostname (dns_cache s ! i)) = dns_key h"

lemma dns_str_eq_ci_key: "0 \<in> set a \<Longrightarrow> 0 \<in> set b \<Longrightarrow> dns_str_eq_ci a b = Some (dns_key a = dns_key b)"
  by (induction a b rule: dns_str_eq_ci.induct) (auto simp: dns_key_def)

lemma scan_step: "scan P i (i + Suc n) = (if P i then Some i else scan P (i + 1) (i + 1 + n))"
  by (subst scan.simps) simp

lemma scan_none: "scan P i i = None"
  by (subst scan.simps) simp

lemma dns_find_from_scan:
  assumes "dns_ok s" and "0 \<in> set h"
  shows "i + n \<le> DNS_CACHE_SIZE \<Longrightarrow> dns_find_from h i n s = Some (scan (dns_match h s) i (i + n))"
proof (induction n arbitrary: i)
  case (Suc n)
  have "dns_str_eq_ci (d_hostname (dns_cache s ! i)) h = Some (dns_key (d_hostname (dns_cache s ! i)) = dns_key h)"
    using assms Suc.prems by (intro dns_str_eq_ci_key) (simp_all add: dns_ok_def dns_entry_ok_def)
  with Suc.IH [of "i + 1"] Suc.prems show ?case by (simp only: scan_step) (simp add: dns_match_def [of h s i])
qed (simp add: scan_none)

definition dns_result :: "nat option \<Rightarrow> net \<Rightarrow> u8 list option \<times> net" where
  "dns_result r s = (case r of
      None \<Rightarrow> (None, s)
    | Some i \<Rightarrow> if dns_stale s (dns_cache s ! i) then (None, set_dns i ((dns_cache s ! i)\<lparr>d_valid := False\<rparr>) s)
        else (Some (d_ip (dns_cache s ! i)), s))"

lemma dns_lookup_from_scan:
  assumes "dns_ok s" and "0 \<in> set h"
  shows "i + n \<le> DNS_CACHE_SIZE \<Longrightarrow> dns_lookup_from h i n s = Some (dns_result (scan (dns_match h s) i (i + n)) s)"
proof (induction n arbitrary: i)
  case (Suc n)
  have "dns_str_eq_ci (d_hostname (dns_cache s ! i)) h = Some (dns_key (d_hostname (dns_cache s ! i)) = dns_key h)"
    using assms Suc.prems by (intro dns_str_eq_ci_key) (simp_all add: dns_ok_def dns_entry_ok_def)
  with Suc.IH [of "i + 1"] Suc.prems show ?case
    by (simp only: scan_step) (simp add: dns_match_def [of h s i] dns_result_def Let_def)
qed (simp add: scan_none dns_result_def)

lemma dns_cache_init_ok: "dns_ok s \<Longrightarrow> dns_ok (dns_cache_init s)"
  by (simp add: dns_cache_init_def dns_ok_def dns_entry_ok_def no_dns_def DNS_CACHE_MAX_NAME_def)

lemma dns_set_ok: "dns_ok s \<Longrightarrow> dns_entry_ok c \<Longrightarrow> dns_ok (set_dns i c s)"
  using set_list_update_all [of "dns_cache s" dns_entry_ok c i] by (simp add: dns_ok_def set_dns_def)

lemma dns_slot_range:
  "dns_slot_from slot t i n s = Some j \<Longrightarrow> i + n \<le> hi \<Longrightarrow> (\<And>k. slot = Some k \<Longrightarrow> k < hi) \<Longrightarrow> j < hi"
  by (induction slot t i n s rule: dns_slot_from.induct) (auto simp: Let_def split: if_splits)

lemma name_len_eq: "0 \<in> set h \<Longrightarrow> n \<le> limit \<Longrightarrow> name_len h limit n = Some (n + min (length (takeWhile (\<lambda>c. c \<noteq> 0) h)) (limit - n))"
  by (induction h limit n rule: name_len.induct) auto

lemma take_cstring: "k \<le> length (takeWhile P h) \<Longrightarrow> take k h = take k (takeWhile P h)"
  by (metis append_take_drop_id diff_is_0_eq' append_Nil2 take0 take_append takeWhile_eq_take)

text \<open>The name that is stored is cut at 127 characters.\<close>

lemma store_name_key:
  assumes "0 \<in> set h" and "length buf = DNS_CACHE_MAX_NAME"
  obtains name where "store_name h buf = Some name" "length name = DNS_CACHE_MAX_NAME" "0 \<in> set name"
    "dns_key name = take 127 (dns_key h)"
proof -
  let ?w = "takeWhile (\<lambda>c. c \<noteq> 0) h" let ?n = "min (length ?w) 127"
  have n: "name_len h (DNS_CACHE_MAX_NAME - 1) 0 = Some ?n" using name_len_eq [OF assms(1), of 0] by (simp add: DNS_CACHE_MAX_NAME_def)
  have t: "take ?n h = take 127 ?w" using take_cstring [of ?n "\<lambda>c. c \<noteq> 0" h] by (simp add: min_def)
  define name where "name = blit buf 0 (take ?n h @ [0])"
  have "length (take ?n h @ [0]) \<le> length buf" using assms(2) by (simp add: DNS_CACHE_MAX_NAME_def)
  then have "length name = DNS_CACHE_MAX_NAME" using length_blit [of 0 "take ?n h @ [0]" buf] assms(2) by (simp add: name_def)
  moreover have "takeWhile (\<lambda>c. c \<noteq> 0) (take 127 ?w @ 0 # xs) = take 127 ?w" for xs
    by (subst takeWhile_append2) (auto dest: in_set_takeD set_takeWhileD)
  then have "dns_key name = take 127 (dns_key h)" by (simp add: name_def blit_def t dns_key_def take_map)
  moreover have "store_name h buf = Some name" by (simp add: store_name_def n [simplified] name_def)
  moreover have "0 \<in> set name" by (simp add: name_def blit_def)
  ultimately show thesis using that by blast
qed

lemma dns_entry_key: "dns_entry_ok c \<Longrightarrow> length (dns_key (d_hostname c)) \<le> 127"
proof -
  assume c: "dns_entry_ok c"
  then have "length (takeWhile (\<lambda>c. c \<noteq> 0) (d_hostname c)) < length (d_hostname c)"
    using takeWhile_eq_all_conv [of "\<lambda>c. c \<noteq> 0" "d_hostname c"] length_takeWhile_le [of "\<lambda>c. c \<noteq> 0" "d_hostname c"]
    by (metis dns_entry_ok_def le_neq_implies_less nth_equalityI takeWhile_nth)
  with c show ?thesis by (simp add: dns_key_def dns_entry_ok_def DNS_CACHE_MAX_NAME_def)
qed

lemma dns_cache_insert_cases:
  assumes ok: "dns_ok s0" and h: "0 \<in> set h" and ip: "length ip = 4"
  defines "s \<equiv> dns_cache_init s0"
  obtains j c where "dns_cache_insert h ip ttl s0 = Some (set_dns j c s)" "j < DNS_CACHE_SIZE" "dns_entry_ok c" "d_valid c"
    "d_ip c = ip" "d_ttl_s c = (if ttl = 0 then DNS_CACHE_DEFAULT_TTL else ttl)" "d_cached_at_ms c = hpet_ticks s0"
    "dns_key (d_hostname c) = take 127 (dns_key h)" "\<forall>k < DNS_CACHE_SIZE. dns_match h s k \<longrightarrow> j \<le> k"
proof -
  have s: "dns_ok s" "hpet_ticks s = hpet_ticks s0" using dns_cache_init_ok [OF ok] by (simp_all add: s_def dns_cache_init_def)
  have entry: "dns_entry_ok (dns_cache s ! i)" if "i < DNS_CACHE_SIZE" for i using s(1) that by (simp add: dns_ok_def)
  let ?ttl = "if ttl = 0 then DNS_CACHE_DEFAULT_TTL else ttl"
  have f: "dns_find_from h 0 DNS_CACHE_SIZE s = Some (scan (dns_match h s) 0 DNS_CACHE_SIZE)"
    using dns_find_from_scan [OF s(1) h, of 0 DNS_CACHE_SIZE] by simp
  show thesis
  proof (cases "scan (dns_match h s) 0 DNS_CACHE_SIZE")
    case (Some i)
    then have i: "i < DNS_CACHE_SIZE" "dns_match h s i" "\<forall>k < i. \<not> dns_match h s k" using scan_SomeD by blast+
    have "take 127 (dns_key h) = dns_key h" using i(2) dns_entry_key [OF entry [OF i(1)]] by (simp add: dns_match_def)
    then show thesis
      using that [of i "(dns_cache s ! i)\<lparr>d_ip := ip, d_ttl_s := ?ttl, d_cached_at_ms := hpet_ticks s\<rparr>"] i entry [OF i(1)] s(2) ip
      by (auto simp: dns_cache_insert_def s_def [symmetric] f Some dns_match_def dns_entry_ok_def not_less [symmetric])
  next
    case None
    define slot where "slot = (case dns_slot_from None 0xFFFFFFFFFFFFFFFF 0 DNS_CACHE_SIZE s of None \<Rightarrow> 0 | Some i \<Rightarrow> i)"
    have slot: "slot < DNS_CACHE_SIZE"
      using dns_slot_range [of None _ 0 DNS_CACHE_SIZE s _ DNS_CACHE_SIZE]
      by (auto simp: slot_def DNS_CACHE_SIZE_def split: option.split)
    obtain name where name: "store_name h (d_hostname (dns_cache s ! slot)) = Some name" "length name = DNS_CACHE_MAX_NAME"
      "0 \<in> set name" "dns_key name = take 127 (dns_key h)"
      using store_name_key [OF h, of "d_hostname (dns_cache s ! slot)"] entry [OF slot] by (auto simp: dns_entry_ok_def)
    have "\<forall>k < DNS_CACHE_SIZE. \<not> dns_match h s k" using None unfolding scan_None_iff by blast
    then show thesis
      using that [of slot "\<lparr>d_hostname = name, d_ip = ip, d_ttl_s = ?ttl, d_cached_at_ms = hpet_ticks s, d_valid = True\<rparr>"]
        slot name s(2) ip by (simp add: dns_cache_insert_def s_def [symmetric] f None slot_def [symmetric] dns_entry_ok_def Let_def)
  qed
qed

lemma dns_insert_initialized: "dns_cache_initialized (set_dns j c (dns_cache_init s))"
  by (simp add: set_dns_def dns_cache_init_def)

lemma dns_lookup_scan:
  assumes "dns_ok s" and "0 \<in> set h" and "dns_cache_initialized s"
  shows "dns_cache_lookup h s = Some (dns_result (scan (dns_match h s) 0 DNS_CACHE_SIZE) s)"
  using dns_lookup_from_scan [OF assms(1,2), of 0 DNS_CACHE_SIZE] assms(3) by (simp add: dns_cache_lookup_def dns_cache_init_def)

lemma dns_match_set:
  assumes "dns_ok s" and "j < DNS_CACHE_SIZE" and "d_valid c"
  shows "dns_match h ((set_dns j c s)\<lparr>hpet_ticks := t\<rparr>) k \<longleftrightarrow> (if k = j then dns_key (d_hostname c) = dns_key h else dns_match h s k)"
  using assms by (auto simp: dns_match_def set_dns_def dns_ok_def)

lemma dns_ok_ticks [simp]: "dns_ok (s\<lparr>hpet_ticks := t\<rparr>) = dns_ok s"
  by (simp add: dns_ok_def)

text \<open>A fresh entry that is the first with its name is what a lookup finds.\<close>

lemma dns_lookup_fresh:
  assumes ok: "dns_ok s" and j: "j < DNS_CACHE_SIZE" and c: "dns_entry_ok c" "d_valid c" "dns_key (d_hostname c) = dns_key h"
    and h: "0 \<in> set h" and first: "\<forall>k < DNS_CACHE_SIZE. dns_match h s k \<longrightarrow> j \<le> k" and init: "dns_cache_initialized s"
    and fresh: "t - d_cached_at_ms c < ucast (d_ttl_s c) * 1000"
  shows "dns_cache_lookup h ((set_dns j c s)\<lparr>hpet_ticks := t\<rparr>) = Some (Some (d_ip c), (set_dns j c s)\<lparr>hpet_ticks := t\<rparr>)"
proof -
  let ?s = "(set_dns j c s)\<lparr>hpet_ticks := t\<rparr>"
  have m: "dns_match h ?s k \<longleftrightarrow> (if k = j then True else dns_match h s k)" for k
    using dns_match_set [OF ok j c(2), of h t k] c(3) by simp
  have get: "dns_cache (set_dns j c s) ! j = c" using ok j by (simp add: set_dns_def dns_ok_def)
  have "scan (dns_match h ?s) 0 DNS_CACHE_SIZE = Some j"
    unfolding scan_Some_iff m using j first by (metis le_less_trans less_irrefl zero_le less_trans)
  moreover have "dns_cache_lookup h ?s = Some (dns_result (scan (dns_match h ?s) 0 DNS_CACHE_SIZE) ?s)"
    by (rule dns_lookup_scan) (use ok h init dns_set_ok [OF ok c(1)] in \<open>simp_all add: set_dns_def\<close>)
  moreover have "\<not> dns_stale ?s c" using fresh by (simp add: dns_stale_def not_le)
  ultimately show ?thesis by (simp add: dns_result_def get)
qed

section \<open>Properties\<close>

text \<open>
  C29. The cache gives right answers for names of up to 127 characters: until its time to live is over, a
  stored address is found under its name in upper or lower case, and a lookup of any other name
  returns only an address that was in the cache under that name before.
\<close>

theorem dns_cache_correct:
  fixes ttl :: u32
  assumes ok: "dns_ok s" and h: "0 \<in> set h" "length (dns_key h) \<le> 127" and ip: "length ip = 4"
  defines "ttl_ms \<equiv> ucast (if ttl = 0 then DNS_CACHE_DEFAULT_TTL else ttl) * 1000 :: u64"
  shows "\<exists>s'. dns_cache_insert h ip ttl s = Some s' \<and> dns_ok s' \<and>
    (\<forall>h' t. 0 \<in> set h' \<and> dns_key h' = dns_key h \<and> t - hpet_ticks s < ttl_ms \<longrightarrow>
      dns_cache_lookup h' (s'\<lparr>hpet_ticks := t\<rparr>) = Some (Some ip, s'\<lparr>hpet_ticks := t\<rparr>)) \<and>
    (\<forall>h'. 0 \<in> set h' \<and> dns_key h' \<noteq> dns_key h \<longrightarrow>
      (\<exists>r s2. dns_cache_lookup h' s' = Some (r, s2) \<and>
        (\<forall>ip'. r = Some ip' \<longrightarrow> (\<exists>c \<in> set (dns_cache s). d_valid c \<and> dns_key (d_hostname c) = dns_key h' \<and> d_ip c = ip'))))"
proof -
  let ?s = "dns_cache_init s"
  have oki: "dns_ok ?s" "dns_cache_initialized ?s" using dns_cache_init_ok [OF ok] by (simp_all add: dns_cache_init_def)
  obtain j c where c: "dns_cache_insert h ip ttl s = Some (set_dns j c ?s)" "j < DNS_CACHE_SIZE" "dns_entry_ok c" "d_valid c"
    "d_ip c = ip" "d_ttl_s c = (if ttl = 0 then DNS_CACHE_DEFAULT_TTL else ttl)" "d_cached_at_ms c = hpet_ticks s"
    "dns_key (d_hostname c) = take 127 (dns_key h)" "\<forall>k < DNS_CACHE_SIZE. dns_match h ?s k \<longrightarrow> j \<le> k"
    using dns_cache_insert_cases [OF ok h(1) ip] by metis
  let ?s' = "set_dns j c ?s"
  have key: "dns_key (d_hostname c) = dns_key h" using c(8) h(2) by simp
  have ok': "dns_ok ?s'" by (rule dns_set_ok [OF oki(1) c(3)])
  have same: "dns_cache_lookup h' (?s'\<lparr>hpet_ticks := t\<rparr>) = Some (Some ip, ?s'\<lparr>hpet_ticks := t\<rparr>)"
    if "0 \<in> set h'" "dns_key h' = dns_key h" "t - hpet_ticks s < ttl_ms" for h' t
    using dns_lookup_fresh [OF oki(1) c(2,3,4) _ that(1) _ oki(2), of t] key that(2,3) c(5,6,7,9)
    by (simp add: ttl_ms_def dns_match_def)
  have other: "\<exists>r s2. dns_cache_lookup h' ?s' = Some (r, s2) \<and>
        (\<forall>ip'. r = Some ip' \<longrightarrow> (\<exists>c \<in> set (dns_cache s). d_valid c \<and> dns_key (d_hostname c) = dns_key h' \<and> d_ip c = ip'))"
    if h': "0 \<in> set h'" "dns_key h' \<noteq> dns_key h" for h'
  proof -
    let ?r = "dns_result (scan (dns_match h' ?s') 0 DNS_CACHE_SIZE) ?s'"
    have "\<exists>c \<in> set (dns_cache s). d_valid c \<and> dns_key (d_hostname c) = dns_key h' \<and> d_ip c = ip'" if "fst ?r = Some ip'" for ip'
    proof -
      from that obtain k where k: "scan (dns_match h' ?s') 0 DNS_CACHE_SIZE = Some k" "d_ip (dns_cache ?s' ! k) = ip'"
        by (auto simp: dns_result_def split: option.splits if_splits)
      then have m: "k < DNS_CACHE_SIZE" "dns_match h' ?s' k" using scan_SomeD by blast+
      have "k \<noteq> j" using m(2) h'(2) key oki(1) c(2) by (auto simp: dns_match_def set_dns_def dns_ok_def)
      then have e: "dns_cache ?s' ! k = dns_cache ?s ! k" by (simp add: set_dns_def)
      with m(2) have v: "d_valid (dns_cache ?s ! k)" "dns_key (d_hostname (dns_cache ?s ! k)) = dns_key h'"
        by (simp_all add: dns_match_def)
      then have "dns_cache ?s ! k \<in> set (dns_cache s)"
        using m(1) ok by (auto simp: dns_cache_init_def no_dns_def dns_ok_def split: if_splits)
      with v k(2) e show ?thesis by auto
    qed
    then show ?thesis
      using dns_lookup_scan [OF ok' h'(1) dns_insert_initialized] by (metis prod.collapse)
  qed
  from c(1) ok' same other show ?thesis by blast
qed

theorem dns_cache_correct_witness:
  "\<exists>s'. dns_cache_insert [97, 46, 98, 0] [10, 0, 0, 1] 60 small_net = Some s' \<and> dns_ok s' \<and>
    dns_cache_lookup [65, 46, 66, 0] (s'\<lparr>hpet_ticks := 60999\<rparr>) = Some (Some [10, 0, 0, 1], s'\<lparr>hpet_ticks := 60999\<rparr>)"
proof -
  have ok: "dns_ok small_net"
    by (simp add: dns_ok_def dns_entry_ok_def small_net_def DNS_CACHE_SIZE_def DNS_CACHE_MAX_NAME_def)
  have k: "dns_key [65, 46, 66, 0] = dns_key [97, 46, 98, 0]" "length (dns_key [97, 46, 98, 0]) \<le> 127"
    by (simp_all add: dns_key_def lower_case_def)
  have t: "(60999 :: u64) - hpet_ticks small_net < ucast (if (60 :: u32) = 0 then DNS_CACHE_DEFAULT_TTL else 60) * 1000"
    by (simp add: small_net_def)
  show ?thesis
    using dns_cache_correct [OF ok _ k(2), of "[10, 0, 0, 1]" 60] k(1) t by fastforce
qed

text \<open>
  C36. Longer names are confused: storing the address of a name of 128 or more characters makes a lookup of
  its first 127 characters, the name of another host, return that address, while a lookup of the
  name itself does not find it.
\<close>

theorem dns_long_names_confused:
  assumes ok: "dns_ok s" and h: "0 \<in> set h" "127 < length (dns_key h)" and ip: "length ip = 4"
    and p: "0 \<in> set p" "dns_key p = take 127 (dns_key h)" "\<forall>c \<in> set (dns_cache s). d_valid c \<longrightarrow> dns_key (d_hostname c) \<noteq> dns_key p"
  shows "\<exists>s'. dns_cache_insert h ip ttl s = Some s' \<and> dns_cache_lookup p s' = Some (Some ip, s') \<and>
    dns_cache_lookup h s' = Some (None, s')"
proof -
  let ?s = "dns_cache_init s"
  have oki: "dns_ok ?s" "dns_cache_initialized ?s" using dns_cache_init_ok [OF ok] by (simp_all add: dns_cache_init_def)
  obtain j c where c: "dns_cache_insert h ip ttl s = Some (set_dns j c ?s)" "j < DNS_CACHE_SIZE" "dns_entry_ok c" "d_valid c"
    "d_ip c = ip" "d_ttl_s c = (if ttl = 0 then DNS_CACHE_DEFAULT_TTL else ttl)" "d_cached_at_ms c = hpet_ticks s"
    "dns_key (d_hostname c) = take 127 (dns_key h)"
    using dns_cache_insert_cases [OF ok h(1) ip] by metis
  let ?s' = "set_dns j c ?s"
  have t: "?s'\<lparr>hpet_ticks := hpet_ticks s\<rparr> = ?s'" by (simp add: set_dns_def dns_cache_init_def)
  have nomatch: "\<not> dns_match p ?s k" if "k < DNS_CACHE_SIZE" for k
  proof (cases "dns_cache_initialized s")
    case True
    then have "dns_cache ?s ! k \<in> set (dns_cache s)" using that ok by (simp add: dns_cache_init_def dns_ok_def)
    with p(3) True show ?thesis by (auto simp: dns_match_def dns_cache_init_def)
  qed (use that in \<open>simp add: dns_match_def dns_cache_init_def no_dns_def\<close>)
  have "0 < ucast (d_ttl_s c) * (1000 :: u64)"
  proof -
    have "d_ttl_s c \<noteq> 0" using c(6) by (simp add: DNS_CACHE_DEFAULT_TTL_def)
    then have nz: "0 < unat (d_ttl_s c)" by (simp add: unat_gt_0)
    have "unat (d_ttl_s c) * 1000 < 2 ^ 64" using unat_u32_less [of "d_ttl_s c"] by simp
    then have "unat (ucast (d_ttl_s c) * (1000 :: u64)) = unat (d_ttl_s c) * 1000"
      by (simp add: unat_word_ariths unsigned_ucast_eq take_bit_eq_mod)
    with nz show ?thesis by (simp add: word_less_nat_alt)
  qed
  then have "dns_cache_lookup p ?s' = Some (Some ip, ?s')"
    using dns_lookup_fresh [OF oki(1) c(2,3,4) _ p(1) _ oki(2), of "hpet_ticks s"] c(5,7,8) p(2) nomatch t by auto
  moreover have "\<not> dns_match h ?s' k" if "k < DNS_CACHE_SIZE" for k
    using dns_entry_key [of "dns_cache ?s' ! k"] dns_set_ok [OF oki(1) c(3), of j] h(2) that by (auto simp: dns_match_def dns_ok_def)
  then have "scan (dns_match h ?s') 0 DNS_CACHE_SIZE = None" unfolding scan_None_iff by blast
  then have "dns_cache_lookup h ?s' = Some (None, ?s')"
    using dns_lookup_scan [OF dns_set_ok [OF oki(1) c(3)] h(1) dns_insert_initialized] by (simp add: dns_result_def)
  ultimately show ?thesis using c(1) by blast
qed

theorem dns_long_names_confused_witness:
  "\<exists>s'. dns_cache_insert (replicate 128 97 @ [0]) [10, 0, 0, 1] 60 small_net = Some s' \<and>
    dns_cache_lookup (replicate 127 97 @ [0]) s' = Some (Some [10, 0, 0, 1], s') \<and>
    dns_cache_lookup (replicate 128 97 @ [0]) s' = Some (None, s')"
proof -
  have ok: "dns_ok small_net"
    by (simp add: dns_ok_def dns_entry_ok_def small_net_def DNS_CACHE_SIZE_def DNS_CACHE_MAX_NAME_def)
  have tw: "takeWhile (\<lambda>c. c \<noteq> 0) (replicate n 97 @ [0]) = replicate n (97 :: u8)" for n by (subst takeWhile_append2) auto
  show ?thesis
    by (rule dns_long_names_confused [OF ok]) (simp_all add: dns_key_def tw lower_case_def small_net_def)
qed

end
