(* ===== verification/Netrx.thy ===== *)
theory Netrx
  imports Frag Udp Dnscache
begin

text \<open>
  ICMP (\<^verbatim>\<open>src/src/net_icmp.c\<close>) and reception: \<^verbatim>\<open>udp_handle_packet\<close> of \<^verbatim>\<open>src/src/net_udp.c\<close>,
  \<^verbatim>\<open>ip_handle_packet\<close> and \<^verbatim>\<open>ip_loopback_drain\<close> of \<^verbatim>\<open>src/src/net_ip.c\<close>, \<^verbatim>\<open>ethernet_process_frame\<close> of
  \<^verbatim>\<open>src/src/net_ethernet.c\<close> and the service routine of \<^verbatim>\<open>src/src/net_thread.c\<close>. Every read of a
  frame is checked against its length: \<open>None\<close> is an access outside of a buffer.

  The handlers of other protocols and of UDP ports are arguments, collected in \<open>hooks\<close>.
\<close>

unbundle bit_operations_syntax

section \<open>ICMP\<close>

definition icmp_init :: "net \<Rightarrow> net" where
  "icmp_init s = s\<lparr>icmp_id_counter := 0\<rparr>"

text \<open>The message with its checksum field, zero before, filled in as the machine stores it.\<close>

definition icmp_summed :: "u8 list \<Rightarrow> u8 list" where
  "icmp_summed m = m[2 := lo8 (icmp_checksum m), 3 := hi8 (icmp_checksum m)]"

definition icmp_handle_packet :: "u8 list \<Rightarrow> net \<Rightarrow> net option" where
  "icmp_handle_packet data s =
    (if length data < 8 then Some s
     else do {
       typ \<leftarrow> get8 data 0;
       identifier \<leftarrow> get16 data 4;
       sequence \<leftarrow> get16 data 6;
       Some (if typ = 0 \<and> identifier = expect_id s \<and> sequence = expect_seq s then s\<lparr>expect_hit := True\<rparr> else s)
     })"

definition icmp_echo_request :: "u16 \<Rightarrow> u16 \<Rightarrow> u8 list \<Rightarrow> u8 list" where
  "icmp_echo_request ident sequence data =
    icmp_summed ([8, 0, 0, 0, hi8 ident, lo8 ident, hi8 sequence, lo8 sequence] @ data)"

text \<open>The length of the message is computed with 16 bits.\<close>

definition icmp_send_echo_request :: "env \<Rightarrow> u8 list \<Rightarrow> u16 \<Rightarrow> u16 \<Rightarrow> u8 list \<Rightarrow> net \<Rightarrow> (int \<times> net) option" where
  "icmp_send_echo_request e dst_ip ident sequence data s =
    (let total_len = 8 + of_nat (length data) :: u16; (ok, s1) = try_alloc e (unat total_len) s in
     if \<not> ok then Some (- 1, s1)
     else if 8 + length data > unat total_len then None
     else ip_send_packet e dst_ip 1 (icmp_echo_request ident sequence data) s1)"

definition icmp_echo_reply :: "u8 list \<Rightarrow> u8 list" where
  "icmp_echo_reply original = icmp_summed (original[0 := 0, 2 := 0, 3 := 0])"

text \<open>Both callers pass a 16-bit length.\<close>

definition icmp_send_echo_reply_to :: "env \<Rightarrow> u8 list \<Rightarrow> u8 list \<Rightarrow> net \<Rightarrow> (int \<times> net) option" where
  "icmp_send_echo_reply_to e dst_ip original s =
    (if length original < 8 then Some (- 1, s)
     else
       let (ok, s1) = try_alloc e (length original) s in
       if \<not> ok then Some (- 1, s1)
       else ip_send_packet e dst_ip 1 (icmp_echo_reply original) s1)"

definition icmp_set_echo_expect :: "u16 \<Rightarrow> u16 \<Rightarrow> net \<Rightarrow> net" where
  "icmp_set_echo_expect ident sequence s = s\<lparr>expect_id := ident, expect_seq := sequence, expect_hit := False\<rparr>"

definition icmp_ping :: "env \<Rightarrow> u8 list \<Rightarrow> u8 list \<Rightarrow> net \<Rightarrow> (int \<times> net) option" where
  "icmp_ping e dst_ip data s =
    (let ident = icmp_id_counter s; s1 = s\<lparr>icmp_id_counter := ident + 1\<rparr> in
     icmp_send_echo_request e dst_ip ident 1 data (icmp_set_echo_expect ident 1 s1))"

definition icmp_check_echo_reply :: "net \<Rightarrow> bool \<times> net" where
  "icmp_check_echo_reply s = (if expect_hit s then (True, s\<lparr>expect_hit := False\<rparr>) else (False, s))"

section \<open>Receiving UDP\<close>

record hooks =
  h_tcp :: "u8 list \<Rightarrow> net \<Rightarrow> net option"
  h_udp :: "nat \<Rightarrow> u8 list \<Rightarrow> u16 \<Rightarrow> u8 list \<Rightarrow> net \<Rightarrow> net option"
  h_ipv6 :: "u8 list \<Rightarrow> net \<Rightarrow> net option"
  h_ipv6_on :: bool

text \<open>How much of the datagram is summed: never more than the payload of the IP header.\<close>

definition udp_csum_len :: "u16 \<Rightarrow> nat \<Rightarrow> u16 \<Rightarrow> u16" where
  "udp_csum_len ip_total ihl total_len =
    (if ip_total \<ge> of_nat (ihl + 8) \<and> ip_total - of_nat ihl < total_len then ip_total - of_nat ihl else total_len)"

definition udp_handle_packet :: "hooks \<Rightarrow> u8 list \<Rightarrow> net \<Rightarrow> net option" where
  "udp_handle_packet hk frame s =
    (if length frame < 14 + 20 + 8 then Some s
     else do {
       version_ihl \<leftarrow> get8 frame 14;
       let ihl = unat (version_ihl AND 0x0F) * 4;
       if length frame < 14 + ihl + 8 then Some s
       else do {
         total_len \<leftarrow> get16 frame (14 + ihl + 4);
         if total_len < 8 then Some s
         else if 14 + ihl + unat total_len > length frame then Some s
         else do {
           src_port \<leftarrow> get16 frame (14 + ihl);
           dst_port \<leftarrow> get16 frame (14 + ihl + 2);
           rx_csum \<leftarrow> get16 frame (14 + ihl + 6);
           src_ip \<leftarrow> slice frame 26 4;
           dst_ip \<leftarrow> slice frame 30 4;
           ip_total \<leftarrow> get16 frame 16;
           summed \<leftarrow> slice frame (14 + ihl) (unat (udp_csum_len ip_total ihl total_len));
           if rx_csum \<noteq> 0 \<and> udp_checksum src_ip dst_ip summed \<noteq> 0 \<and> \<not> (src_port = 67 \<and> dst_port = 68) then Some s
           else do {
             payload \<leftarrow> slice frame (14 + ihl + 8) (unat total_len - 8);
             case udp_handlers s dst_port of
               Some handler \<Rightarrow> h_udp hk handler src_ip src_port payload s
             | None \<Rightarrow> Some (snd (udp_pcb_deliver src_port dst_port src_ip payload s))
           }
         }
       }
     })"

section \<open>Receiving IPv4\<close>

text \<open>
  The protocol switch. \<open>payload\<close> is the payload of the datagram, \<open>frame\<close> the whole frame. A
  reassembled datagram of an unknown protocol is not counted.
\<close>

definition ip_icmp_input :: "env \<Rightarrow> u8 list \<Rightarrow> u8 list \<Rightarrow> net \<Rightarrow> net option" where
  "ip_icmp_input e src_ip payload s =
    (if length payload \<ge> 8 then do {
       typ \<leftarrow> get8 payload 0;
       if typ = 8 then map_option snd (icmp_send_echo_reply_to e src_ip payload s)
       else icmp_handle_packet payload s
     } else Some s)"

definition ip_dispatch :: "env \<Rightarrow> hooks \<Rightarrow> u8 \<Rightarrow> u8 list \<Rightarrow> u8 list \<Rightarrow> u8 list \<Rightarrow> net \<Rightarrow> net option" where
  "ip_dispatch e hk protocol src_ip payload frame s =
    (if protocol = 1 then ip_icmp_input e src_ip payload s
     else if protocol = 6 then h_tcp hk frame s
     else if protocol = 17 then udp_handle_packet hk frame s
     else Some (net_rx_count_ip_proto protocol s))"

definition ip_dispatch_reassembled :: "env \<Rightarrow> hooks \<Rightarrow> u8 \<Rightarrow> u8 list \<Rightarrow> u8 list \<Rightarrow> u8 list \<Rightarrow> net \<Rightarrow> net option" where
  "ip_dispatch_reassembled e hk protocol src_ip payload frame s =
    (if protocol = 1 then ip_icmp_input e src_ip payload s
     else if protocol = 6 then h_tcp hk frame s
     else if protocol = 17 then udp_handle_packet hk frame s
     else Some s)"

text \<open>The synthetic frame: 20 bytes of the header of the last fragment, whatever its length says.\<close>

definition synth_frame :: "u8 list \<Rightarrow> u8 list \<Rightarrow> u8 list" where
  "synth_frame frame reassembled =
    (let synth_total = 20 + of_nat (length reassembled) :: u16 in
     (take 34 frame @ reassembled)[16 := hi8 synth_total, 17 := lo8 synth_total, 20 := 0, 21 := 0])"

definition ip_handle_fragment ::
  "env \<Rightarrow> hooks \<Rightarrow> u8 list \<Rightarrow> u8 list \<Rightarrow> u16 \<Rightarrow> u8 \<Rightarrow> u16 \<Rightarrow> bool \<Rightarrow> u8 list \<Rightarrow> u8 list \<Rightarrow> net \<Rightarrow> net option" where
  "ip_handle_fragment e hk src_ip dst_ip ident protocol frag_offset more_fragments payload frame s =
    (let (i, s1) = ip_frag_find_or_create src_ip dst_ip ident protocol s in
     if unat frag_offset + length payload > IP_FRAG_MAX_SIZE then Some s1
     else
       let (complete, s2) = ip_frag_add e i frag_offset payload more_fragments s1 in
       if \<not> complete then Some s2
       else do {
         (r, s3) \<leftarrow> ip_frag_reassemble e (ip_frag_slots s2 ! i) s2;
         let s4 = set_slot i (ip_frag_slot_free (ip_frag_slots s3 ! i)) s3;
         case r of
           None \<Rightarrow> Some s4
         | Some reassembled \<Rightarrow>
             let (ok, s5) = try_alloc e (14 + 20 + length reassembled) s4 in
             if \<not> ok then Some s5
             else ip_dispatch_reassembled e hk protocol src_ip reassembled (synth_frame frame reassembled) s5
       })"

text \<open>
  \<^verbatim>\<open>ip_handle_packet\<close>. The checksum bytes are cleared for the check and then restored in the
  opposite order, which is the frame the handlers get.
\<close>

definition ip_accepts :: "u8 list \<Rightarrow> net \<Rightarrow> bool" where
  "ip_accepts dst_ip s \<longleftrightarrow> dst_ip = broadcast_ip \<or> dev_ip s = zero_ip \<or> dst_ip ! 0 = 127 \<or> dst_ip = dev_ip s"

definition ip_input :: "env \<Rightarrow> hooks \<Rightarrow> nat \<Rightarrow> u8 list \<Rightarrow> u8 list \<Rightarrow> u8 list \<Rightarrow> net \<Rightarrow> net option" where
  "ip_input e hk header_len src_ip dst_ip frame s =
    do {
      total_len \<leftarrow> get16 frame 16;
      if unat total_len < header_len then Some (net_rx_count_malformed s)
      else if 14 + unat total_len > length frame then Some (net_rx_count_malformed s)
      else do {
        protocol \<leftarrow> get8 frame 23;
        sender_mac \<leftarrow> slice frame 6 6;
        s1 \<leftarrow> (if dst_ip ! 0 \<noteq> 127 \<and> src_ip ! 0 \<noteq> 127 \<and> src_ip \<noteq> dev_ip s
               then arp_insert e src_ip sender_mac s else Some s);
        flags_frag \<leftarrow> get16 frame 20;
        ident \<leftarrow> get16 frame 18;
        payload \<leftarrow> slice frame (14 + header_len) (unat total_len - header_len);
        let more_fragments = (flags_frag AND 0x2000 \<noteq> 0);
        let frag_offset = (flags_frag AND 0x1FFF) * 8;
        if more_fragments \<or> frag_offset > 0
        then ip_handle_fragment e hk src_ip dst_ip ident protocol frag_offset more_fragments payload frame s1
        else ip_dispatch e hk protocol src_ip payload frame s1
      }
    }"

definition ip_handle_packet :: "env \<Rightarrow> hooks \<Rightarrow> u8 list \<Rightarrow> net \<Rightarrow> net option" where
  "ip_handle_packet e hk frame s =
    (if length frame < 34 then Some (net_rx_count_malformed s)
     else do {
       version_ihl \<leftarrow> get8 frame 14;
       let header_len = unat (version_ihl AND 0xF) * 4;
       if drop_bit 4 version_ihl AND 0xF \<noteq> 4 then Some (net_rx_count_malformed s)
       else if header_len < 20 \<or> 14 + header_len > length frame then Some (net_rx_count_malformed s)
       else do {
         src_ip \<leftarrow> slice frame 26 4;
         dst_ip \<leftarrow> slice frame 30 4;
         if \<not> ip_accepts dst_ip s then Some s
         else do {
           original \<leftarrow> get16 frame 24;
           header \<leftarrow> slice frame 14 header_len;
           if original \<noteq> ip_header_checksum_bytes (header[10 := 0, 11 := 0]) then Some (net_rx_count_malformed s)
           else ip_input e hk header_len src_ip dst_ip (frame[24 := lo8 original, 25 := hi8 original]) s
         }
       }
     })"

text \<open>The loop delivers at most 1024 frames; a null frame would be dereferenced.\<close>

fun drain_frames :: "env \<Rightarrow> hooks \<Rightarrow> nat \<Rightarrow> net \<Rightarrow> (nat \<times> net) option" where
  "drain_frames e hk 0 s = Some (0, s)"
| "drain_frames e hk (Suc n) s =
    (case lo_get s of
       None \<Rightarrow> Some (0, s)
     | Some (s1, None) \<Rightarrow> None
     | Some (s1, Some f) \<Rightarrow> do {
         s2 \<leftarrow> ip_handle_packet e hk f s1;
         (k, s3) \<leftarrow> drain_frames e hk n s2;
         Some (k + 1, s3)
       })"

definition ip_loopback_drain :: "env \<Rightarrow> hooks \<Rightarrow> net \<Rightarrow> (nat \<times> net) option" where
  "ip_loopback_drain e hk s =
    (if ip_lo_draining s then Some (0, s)
     else do {
       (n, s1) \<leftarrow> drain_frames e hk 1024 (s\<lparr>ip_lo_draining := True\<rparr>);
       Some (n, s1\<lparr>ip_lo_draining := False\<rparr>)
     })"

section \<open>Frames from the card\<close>

definition ethernet_process_frame :: "env \<Rightarrow> hooks \<Rightarrow> u8 list \<Rightarrow> net \<Rightarrow> net option" where
  "ethernet_process_frame e hk frame s =
    (if length frame < 14 then Some s
     else do {
       ethertype \<leftarrow> get16 frame 12;
       if ethertype = 0x0806 then arp_handle_packet e frame s
       else if ethertype = 0x0800 then ip_handle_packet e hk frame s
       else if ethertype = 0x86dd then if h_ipv6_on hk then h_ipv6 hk (drop 14 frame) s else Some s
       else Some (net_rx_count_unknown_l2 ethertype s)
     })"

section \<open>The service routine\<close>

definition NET_RX_BATCH_SIZE :: nat where "NET_RX_BATCH_SIZE = 8"
definition NET_FALLBACK_POLL_MS :: u64 where "NET_FALLBACK_POLL_MS = 50"
definition NET_ARP_CLEANUP_MS :: u64 where "NET_ARP_CLEANUP_MS = 10000"
definition NET_ARPQ_TICK_MS :: u64 where "NET_ARPQ_TICK_MS = 50"

record rx_service =
  net_rx_event :: bool
  net_rx_packets_total :: u64
  last_fallback_poll :: u64
  last_arp_cleanup :: u64
  last_arpq_tick :: u64

definition net_thread_notify_rx :: "rx_service \<Rightarrow> rx_service" where
  "net_thread_notify_rx v = v\<lparr>net_rx_event := True\<rparr>"

text \<open>
  \<open>inbox\<close> holds what the calls of \<^verbatim>\<open>net_receive_packet\<close> return: the next frame, an empty one for a
  length of zero or less; when it is exhausted the card has no frame.
\<close>

fun rx_batch :: "env \<Rightarrow> hooks \<Rightarrow> nat \<Rightarrow> u8 list list \<Rightarrow> net \<Rightarrow> (nat \<times> u8 list list \<times> net) option" where
  "rx_batch e hk 0 inbox s = Some (0, inbox, s)"
| "rx_batch e hk (Suc n) [] s = Some (0, [], s)"
| "rx_batch e hk (Suc n) (f # inbox) s =
    (if f = [] then Some (0, inbox, s)
     else do {
       s1 \<leftarrow> ethernet_process_frame e hk f s;
       (k, rest, s2) \<leftarrow> rx_batch e hk n inbox s1;
       Some (k + 1, rest, s2)
     })"

definition rx_poll ::
  "env \<Rightarrow> hooks \<Rightarrow> u8 list list \<Rightarrow> rx_service \<Rightarrow> net \<Rightarrow> (nat \<times> u8 list list \<times> rx_service \<times> net) option" where
  "rx_poll e hk inbox v s =
    (if net_rx_event v \<or> hpet_ticks s - last_fallback_poll v \<ge> NET_FALLBACK_POLL_MS
     then do {
       (k, rest, s1) \<leftarrow> rx_batch e hk NET_RX_BATCH_SIZE inbox s;
       Some (k, rest, v\<lparr>net_rx_event := False, last_fallback_poll := hpet_ticks s,
         net_rx_packets_total := net_rx_packets_total v + of_nat k\<rparr>, s1)
     } else Some (0, inbox, v, s))"

definition net_rx_service ::
  "env \<Rightarrow> hooks \<Rightarrow> u8 list list \<Rightarrow> rx_service \<Rightarrow> net \<Rightarrow> (nat \<times> u8 list list \<times> rx_service \<times> net) option" where
  "net_rx_service e hk inbox v s =
    do {
      let now = hpet_ticks s;
      (processed, inbox1, v1, s1) \<leftarrow> rx_poll e hk inbox v s;
      (drained, s2) \<leftarrow> (if ip_loopback_pending s1 then ip_loopback_drain e hk s1 else Some (0, s1));
      (v2, s3) \<leftarrow>
        (if now - last_arpq_tick v1 \<ge> NET_ARPQ_TICK_MS
         then do { s3 \<leftarrow> ip_arpq_tick e s2; Some (v1\<lparr>last_arpq_tick := now\<rparr>, s3) }
         else Some (v1, s2));
      Some (if now - last_arp_cleanup v2 > NET_ARP_CLEANUP_MS
            then (processed + drained, inbox1, v2\<lparr>last_arp_cleanup := now\<rparr>, arp_cleanup_expired s3)
            else (processed + drained, inbox1, v2, s3))
    }"

section \<open>Reception is safe\<close>

definition frags_ok :: "net \<Rightarrow> bool" where
  "frags_ok s \<longleftrightarrow> length (ip_frag_slots s) = IP_FRAG_MAX_SLOTS \<and> (\<forall>f \<in> set (ip_frag_slots s). \<forall>p \<in> set (f_pieces f). piece_ok p)"

definition net_ok :: "net \<Rightarrow> bool" where
  "net_ok s \<longleftrightarrow> ip_ok s \<and> routes_ok s \<and> udp_ok s \<and> frags_ok s \<and> dns_ok s"

text \<open>What a computation of the stack must do: not fault, and keep the invariant.\<close>

definition safe :: "net option \<Rightarrow> bool" where
  "safe r \<longleftrightarrow> (\<exists>s. r = Some s \<and> net_ok s)"

lemma safe_Some [simp]: "safe (Some s) = net_ok s"
  by (simp add: safe_def)

lemma safe_bind: "safe r \<Longrightarrow> (\<And>s. net_ok s \<Longrightarrow> r = Some s \<Longrightarrow> safe (f s)) \<Longrightarrow> safe (Option.bind r f)"
  by (auto simp: safe_def)

definition hooks_ok :: "hooks \<Rightarrow> bool" where
  "hooks_ok hk \<longleftrightarrow> (\<forall>s frame. net_ok s \<longrightarrow> safe (h_tcp hk frame s) \<and> safe (h_ipv6 hk frame s)) \<and>
    (\<forall>s h src_ip src_port payload. net_ok s \<longrightarrow> safe (h_udp hk h src_ip src_port payload s))"

lemma net_ok_rest:
  assumes "net_ok s" and "ip_ok s'" "routes_ok s'" "tx_rest s' = tx_rest s"
  shows "net_ok s'"
  using assms udp_ok_rest [OF assms(4)] by (simp add: net_ok_def frags_ok_def dns_ok_def) (simp add: tx_rest_def)

lemma keeps_safe: "net_ok s \<Longrightarrow> keeps s r \<Longrightarrow> safe r"
  using net_ok_rest by (auto simp: keeps_def safe_def)

lemma routes_ok_cong:
  "ip_arpq s' = ip_arpq s \<Longrightarrow> dev_ip s' = dev_ip s \<Longrightarrow> dev_mask s' = dev_mask s \<Longrightarrow> dev_gw s' = dev_gw s \<Longrightarrow>
   routes_ok s' = routes_ok s"
  by (simp add: routes_ok_def remote_cong [of s' s])

text \<open>The part of the state the invariant is about.\<close>

definition net_view :: "net \<Rightarrow> _" where
  "net_view s = ((dev_mac s, dev_ip s, dev_mask s, dev_gw s), (arp_cache s, arp_pending_requests s),
    (ip_lo_frame s, ip_lo_head s, ip_lo_tail s, ip_lo_count s), (ip_arpq s, ip_frag_slots s, udp_next s, udp_pcbs s),
    (dns_cache s, dns_answer_ip s))"

lemma net_ok_view:
  assumes "net_view s' = net_view s"
  shows "net_ok s' = net_ok s"
proof -
  have "routes_ok s' = routes_ok s" by (rule routes_ok_cong) (use assms in \<open>simp_all add: net_view_def\<close>)
  then show ?thesis
    using assms by (simp add: net_ok_def ip_ok_def addrs_ok_def arp_ok_def lo_ok_def udp_ok_def frags_ok_def dns_ok_def net_view_def)
qed

lemma net_ok_simps [simp]:
  "net_ok (s\<lparr>allocs := n\<rparr>) = net_ok s" "net_ok (s\<lparr>expect_hit := b\<rparr>) = net_ok s" "net_ok (s\<lparr>expect_id := i\<rparr>) = net_ok s"
  "net_ok (s\<lparr>expect_seq := q\<rparr>) = net_ok s" "net_ok (s\<lparr>icmp_id_counter := i\<rparr>) = net_ok s"
  "net_ok (s\<lparr>ip_lo_draining := b\<rparr>) = net_ok s"
  "net_ok (net_rx_count_malformed s) = net_ok s" "net_ok (net_rx_count_unknown_l2 t s) = net_ok s"
  "net_ok (net_rx_count_ip_proto p s) = net_ok s"
  by (rule net_ok_view; simp add: net_view_def net_rx_count_malformed_def net_rx_count_unknown_l2_def
      net_rx_count_ip_proto_def)+

lemma length_icmp_summed [simp]: "length (icmp_summed m) = length m"
  by (simp add: icmp_summed_def)

lemma ip_send_packet_safe:
  "net_ok s \<Longrightarrow> length dst_ip = 4 \<Longrightarrow> length payload \<le> 65535 \<Longrightarrow> safe (map_option snd (ip_send_packet e dst_ip protocol payload s))"
  using ip_send_packet_keeps [of s dst_ip payload e protocol] keeps_safe [of s] by (fastforce simp: net_ok_def)

lemma icmp_send_echo_reply_to_safe:
  "net_ok s \<Longrightarrow> length dst_ip = 4 \<Longrightarrow> length m \<le> 65535 \<Longrightarrow> safe (map_option snd (icmp_send_echo_reply_to e dst_ip m s))"
  by (simp add: icmp_send_echo_reply_to_def try_alloc_def icmp_echo_reply_def ip_send_packet_safe)

lemma icmp_send_echo_request_safe:
  assumes "net_ok s" and "length dst_ip = 4" and "length data \<le> 65527"
  shows "safe (map_option snd (icmp_send_echo_request e dst_ip ident sequence data s))"
proof -
  have "unat (8 + of_nat (length data) :: u16) = 8 + length data" using assms(3) by (simp add: unat_word_ariths unat_of_nat)
  then show ?thesis
    using assms by (simp add: icmp_send_echo_request_def try_alloc_def icmp_echo_request_def Let_def ip_send_packet_safe)
qed

lemma icmp_handle_packet_safe: "net_ok s \<Longrightarrow> safe (icmp_handle_packet data s)"
  by (cases data) (simp_all add: icmp_handle_packet_def)

lemma ip_icmp_input_safe:
  "net_ok s \<Longrightarrow> length src_ip = 4 \<Longrightarrow> length payload \<le> 65535 \<Longrightarrow> safe (ip_icmp_input e src_ip payload s)"
  by (cases payload) (simp_all add: ip_icmp_input_def icmp_handle_packet_safe icmp_send_echo_reply_to_safe)

lemma udp_csum_len_le: "udp_csum_len ip_total ihl total_len \<le> total_len"
  by (simp add: udp_csum_len_def less_imp_le)

lemma udp_deliver_safe: "net_ok s \<Longrightarrow> safe (Some (snd (udp_pcb_deliver sp dp src_ip payload s)))"
proof -
  assume ok: "net_ok s"
  let ?s' = "snd (udp_pcb_deliver sp dp src_ip payload s)"
  have "udp_ok ?s'" "ip_ok ?s'" using udp_pcb_deliver_ok [of s] ok by (simp_all add: net_ok_def)
  moreover have "routes_ok ?s' = routes_ok s"
    by (rule routes_ok_cong) (simp_all add: udp_pcb_deliver_def set_pcb_def split: option.split)
  moreover have "frags_ok ?s' = frags_ok s" by (simp add: frags_ok_def udp_pcb_deliver_def set_pcb_def split: option.split)
  moreover have "dns_ok ?s' = dns_ok s" by (simp add: dns_ok_def udp_pcb_deliver_def set_pcb_def split: option.split)
  ultimately show ?thesis using ok by (simp add: net_ok_def)
qed

lemma udp_handle_packet_safe:
  assumes hk: "hooks_ok hk" and ok: "net_ok s"
  shows "safe (udp_handle_packet hk frame s)"
proof (cases "length frame < 42")
  case False
  let ?ihl = "unat (frame ! 14 AND 0x0F) * 4"
  let ?total = "be16 (frame ! (?ihl + 18)) (frame ! Suc (?ihl + 18))"
  show ?thesis
  proof (cases "length frame < 14 + ?ihl + 8 \<or> ?total < 8 \<or> 14 + ?ihl + unat ?total > length frame")
    case True
    then show ?thesis using False ok by (auto simp: udp_handle_packet_def Let_def add.commute)
  next
    case F: False
    have t8: "8 \<le> unat ?total" using F by (simp add: word_less_nat_alt not_less)
    have cs: "unat (udp_csum_len x ?ihl ?total) \<le> unat ?total" for x using udp_csum_len_le by (simp add: word_le_nat_alt)
    have h: "safe (h_udp hk h a b c s)" for h a b c using hk ok by (simp add: hooks_ok_def)
    have s2: "14 + ?ihl + unat (udp_csum_len x ?ihl ?total) \<le> length frame" for x using cs [of x] F by linarith
    show ?thesis
      using False F t8 s2 h udp_deliver_safe [OF ok] ok
      by (simp add: udp_handle_packet_def Let_def add.commute split: option.split)
  qed
qed (use ok in \<open>simp add: udp_handle_packet_def\<close>)

lemma ip_dispatch_safe:
  assumes "hooks_ok hk" and "net_ok s" and "length src_ip = 4" "length payload \<le> 65535"
  shows "safe (ip_dispatch e hk protocol src_ip payload frame s)"
    "safe (ip_dispatch_reassembled e hk protocol src_ip payload frame s)"
  using assms ip_icmp_input_safe [OF assms(2-4)] udp_handle_packet_safe [OF assms(1,2)]
  by (simp_all add: ip_dispatch_def ip_dispatch_reassembled_def hooks_ok_def)

lemma set_slot_ok:
  assumes "net_ok s" and "\<forall>p \<in> set (f_pieces f). piece_ok p"
  shows "net_ok (set_slot i f s)"
proof -
  have "frags_ok (set_slot i f s)"
    using assms set_list_update_all [of "ip_frag_slots s" "\<lambda>f. \<forall>p \<in> set (f_pieces f). piece_ok p" f i]
    by (simp add: net_ok_def frags_ok_def set_slot_def)
  moreover have "routes_ok (set_slot i f s) = routes_ok s" by (rule routes_ok_cong) (simp_all add: set_slot_def)
  ultimately show ?thesis
    using assms by (simp add: net_ok_def ip_ok_def addrs_ok_def arp_ok_def lo_ok_def udp_ok_def dns_ok_def set_slot_def)
qed

lemma frag_slot_pieces: "net_ok s \<Longrightarrow> i < IP_FRAG_MAX_SLOTS \<Longrightarrow> \<forall>p \<in> set (f_pieces (ip_frag_slots s ! i)). piece_ok p"
  by (auto simp: net_ok_def frags_ok_def)

lemma ip_frag_find_or_create_ok:
  assumes "net_ok s" and r: "ip_frag_find_or_create src_ip dst_ip ident protocol s = (i, s1)"
  shows "i < IP_FRAG_MAX_SLOTS" "net_ok s1"
proof -
  have "oldest_from t 0 1 (IP_FRAG_MAX_SLOTS - 1) < IP_FRAG_MAX_SLOTS" for t
    by (rule oldest_from_range) (simp_all add: IP_FRAG_MAX_SLOTS_def)
  with assms show "i < IP_FRAG_MAX_SLOTS" "net_ok s1"
    by (auto simp: ip_frag_find_or_create_def Let_def ip_frag_slot_free_def intro!: set_slot_ok
        split: option.splits dest: scan_SomeD)
qed

lemma slot_add_pieces:
  "\<forall>p \<in> set (f_pieces f). piece_ok p \<Longrightarrow> piece_ok (off, d) \<Longrightarrow> \<forall>p \<in> set (f_pieces (slot_add off d m f)). piece_ok p"
  by (simp add: slot_add_def insert_piece_insort set_insort_key)

lemma ip_frag_add_ok:
  assumes ok: "net_ok s" and i: "i < IP_FRAG_MAX_SLOTS" and d: "piece_ok (off, d)" and r: "ip_frag_add e i off d m s = (c, s1)"
  shows "net_ok s1" "c \<Longrightarrow> frag_complete (ip_frag_slots s1 ! i)"
proof -
  have len: "length (ip_frag_slots s) = IP_FRAG_MAX_SLOTS" using ok by (simp add: net_ok_def frags_ok_def)
  have "net_ok (set_slot i (slot_add off d m (ip_frag_slots s ! i)) (s\<lparr>allocs := a\<rparr>))" for a
    using ok slot_add_pieces [OF frag_slot_pieces [OF ok i] d] by (intro set_slot_ok) simp_all
  with r ok show "net_ok s1" by (auto simp: ip_frag_add_def try_alloc_def Let_def split: if_splits)
  show "frag_complete (ip_frag_slots s1 ! i)" if c
    using r that i len by (auto simp: ip_frag_add_def try_alloc_def Let_def set_slot_def split: if_splits)
qed

lemma ip_frag_reassemble_ok:
  assumes ok: "net_ok s" and f: "frag_complete f" "\<forall>p \<in> set (f_pieces f). piece_ok p"
  shows "\<exists>r a. ip_frag_reassemble e f s = Some (r, s\<lparr>allocs := a\<rparr>) \<and> (\<forall>buf. r = Some buf \<longrightarrow> length buf \<le> 65535)"
proof -
  let ?n = "unat (f_total_len f)"
  obtain r s1 where r: "ip_frag_reassemble e f s = Some (r, s1)" using reassemble_safe [OF f, of e s] by auto
  have "s1 = s\<lparr>allocs := allocs s + 1\<rparr> \<or> s1 = s\<lparr>allocs := allocs s\<rparr>"
    using r by (auto simp: ip_frag_reassemble_def try_alloc_def split: if_splits option.splits)
  moreover have "length buf = ?n" if "copy_pieces b ps = Some buf" "length b = ?n" for b ps buf
    using that by (induction b ps rule: copy_pieces.induct) (auto simp: blit_facts split: if_splits)
  then have "length buf \<le> 65535" if "r = Some buf" for buf
    using r that unat_u16_less [of "f_total_len f"]
    by (fastforce simp: ip_frag_reassemble_def try_alloc_def split: if_splits option.splits)
  ultimately show ?thesis using r by blast
qed

lemma ip_handle_fragment_safe:
  assumes hk: "hooks_ok hk" and ok: "net_ok s" and src: "length src_ip = 4"
  shows "safe (ip_handle_fragment e hk src_ip dst_ip ident protocol off m payload frame s)"
proof -
  obtain i s1 where f: "ip_frag_find_or_create src_ip dst_ip ident protocol s = (i, s1)"
    by (cases "ip_frag_find_or_create src_ip dst_ip ident protocol s") blast
  note s1 = ip_frag_find_or_create_ok [OF ok f]
  obtain c s2 where a: "ip_frag_add e i off payload m s1 = (c, s2)" by (cases "ip_frag_add e i off payload m s1") blast
  show ?thesis
  proof (cases "unat off + length payload > IP_FRAG_MAX_SIZE \<or> \<not> c")
    case True
    then show ?thesis
      using s1(2) ip_frag_add_ok(1) [OF s1(2,1) _ a] by (auto simp: ip_handle_fragment_def f a piece_ok_def)
  next
    case False
    then have p: "piece_ok (off, payload)" by (simp add: piece_ok_def)
    note s2 = ip_frag_add_ok [OF s1(2,1) p a]
    let ?f = "ip_frag_slots s2 ! i"
    obtain r n where r: "ip_frag_reassemble e ?f s2 = Some (r, s2\<lparr>allocs := n\<rparr>)" "\<And>buf. r = Some buf \<Longrightarrow> length buf \<le> 65535"
      using ip_frag_reassemble_ok [OF s2(1), of ?f e] s2(2) False frag_slot_pieces [OF s2(1) s1(1)] by blast
    have s4: "net_ok (set_slot i (ip_frag_slot_free ?f) (s2\<lparr>allocs := n\<rparr>))"
      by (intro set_slot_ok) (simp_all add: s2(1) ip_frag_slot_free_def)
    show ?thesis
      using False s4 ip_dispatch_safe(2) [OF hk _ src] r(2)
      by (auto simp: ip_handle_fragment_def f a r(1) try_alloc_def Let_def split: option.split)
  qed
qed

lemma ip_input_safe:
  assumes hk: "hooks_ok hk" and ok: "net_ok s" and src: "length src_ip = 4" and len: "34 \<le> length frame"
  shows "safe (ip_input e hk header_len src_ip dst_ip frame s)"
proof -
  let ?total = "be16 (frame ! 16) (frame ! 17)" and ?mac = "take 6 (drop 6 frame)"
  let ?r = "if dst_ip ! 0 \<noteq> 127 \<and> src_ip ! 0 \<noteq> 127 \<and> src_ip \<noteq> dev_ip s then arp_insert e src_ip ?mac s else Some s"
  have r: "safe ?r" using keeps_safe [OF ok arp_insert_keeps [of s ?mac e src_ip]] ok len by (simp add: net_ok_def)
  show ?thesis
  proof (cases "unat ?total < header_len \<or> 14 + unat ?total > length frame")
    case True
    then show ?thesis using ok len by (auto simp: ip_input_def)
  next
    case False
    have "unat ?total \<le> 65535" using unat_u16_less [of ?total] by simp
    moreover have sl: "slice frame (14 + header_len) (unat ?total - header_len) = Some (take (unat ?total - header_len) (drop (14 + header_len) frame))"
      using False by (intro slice_some) linarith
    moreover have "length (take (unat ?total - header_len) (drop (14 + header_len) frame)) \<le> 65535"
      using unat_u16_less [of ?total] by simp
    ultimately have "safe (ip_input e hk header_len src_ip dst_ip frame s) =
        safe (Option.bind ?r (\<lambda>s1. let payload = take (unat ?total - header_len) (drop (14 + header_len) frame);
          flags = be16 (frame ! 20) (frame ! 21); ident = be16 (frame ! 18) (frame ! 19); more_fragments = (flags AND 0x2000 \<noteq> 0);
          frag_offset = (flags AND 0x1FFF) * 8 in
          if more_fragments \<or> frag_offset > 0
          then ip_handle_fragment e hk src_ip dst_ip ident (frame ! 23) frag_offset more_fragments payload frame s1
          else ip_dispatch e hk (frame ! 23) src_ip payload frame s1))"
      using False len by (simp add: ip_input_def Let_def)
    also have "\<dots>"
      using ip_handle_fragment_safe [OF hk _ src] ip_dispatch_safe(1) [OF hk _ src] unat_u16_less [of ?total]
      by (intro safe_bind [OF r]) (simp add: Let_def)
    finally show ?thesis .
  qed
qed

lemma ip_handle_packet_safe:
  assumes hk: "hooks_ok hk" and ok: "net_ok s"
  shows "safe (ip_handle_packet e hk frame s)"
proof (cases "34 \<le> length frame")
  case True
  then show ?thesis
    using ok ip_input_safe [OF hk ok, of "take 4 (drop 26 frame)"] by (simp add: ip_handle_packet_def Let_def)
qed (use ok in \<open>simp add: ip_handle_packet_def\<close>)

lemma lo_get_net_ok:
  assumes ok: "net_ok s" and g: "lo_get s = Some (s1, r)"
  shows "net_ok s1" "r \<noteq> None"
proof -
  have lo: "lo_ok s1" "\<exists>f. r = Some f" using lo_get_ok [of s s1 r] ok g by (auto simp: net_ok_def ip_ok_def)
  have s1: "s1 = s\<lparr>ip_lo_frame := ip_lo_frame s1, ip_lo_head := ip_lo_head s1, ip_lo_count := ip_lo_count s1\<rparr>"
    using g by (auto simp: lo_get_def split: if_splits)
  have same: "dev_mac s1 = dev_mac s" "dev_ip s1 = dev_ip s" "dev_mask s1 = dev_mask s" "dev_gw s1 = dev_gw s"
    "arp_cache s1 = arp_cache s" "arp_pending_requests s1 = arp_pending_requests s" "ip_arpq s1 = ip_arpq s"
    "ip_frag_slots s1 = ip_frag_slots s" "udp_next s1 = udp_next s" "udp_pcbs s1 = udp_pcbs s"
    "dns_cache s1 = dns_cache s" "dns_answer_ip s1 = dns_answer_ip s"
    by (subst s1; simp)+
  have "routes_ok s1 = routes_ok s" by (rule routes_ok_cong) (simp_all only: same)
  with ok lo(1) show "net_ok s1"
    by (simp add: net_ok_def ip_ok_def addrs_ok_def arp_ok_def udp_ok_def frags_ok_def dns_ok_def same)
  show "r \<noteq> None" using lo(2) by blast
qed

lemma drain_frames_safe: "hooks_ok hk \<Longrightarrow> net_ok s \<Longrightarrow> safe (map_option snd (drain_frames e hk n s))"
proof (induction n arbitrary: s)
  case (Suc n)
  show ?case
  proof (cases "lo_get s")
    case (Some g)
    then obtain s1 f where g: "lo_get s = Some (s1, Some f)" "net_ok s1"
      using lo_get_net_ok [OF Suc.prems(2)] by (cases g) fastforce
    obtain s2 where s2: "ip_handle_packet e hk f s1 = Some s2" "net_ok s2"
      using ip_handle_packet_safe [OF Suc.prems(1) g(2), of e f] by (auto simp: safe_def)
    obtain k s3 where "drain_frames e hk n s2 = Some (k, s3)" "net_ok s3"
      using Suc.IH [OF Suc.prems(1) s2(2)] by (auto simp: safe_def)
    with g(1) s2(1) show ?thesis by simp
  qed (use Suc.prems in simp)
qed simp

lemma ip_loopback_drain_safe:
  assumes "hooks_ok hk" and "net_ok s"
  shows "safe (map_option snd (ip_loopback_drain e hk s))"
  using drain_frames_safe [OF assms(1), of "s\<lparr>ip_lo_draining := True\<rparr>" e 1024] assms(2)
  by (auto simp: ip_loopback_drain_def safe_def)

lemma ethernet_process_frame_safe:
  assumes hk: "hooks_ok hk" and ok: "net_ok s"
  shows "safe (ethernet_process_frame e hk frame s)"
proof (cases "length frame < 14")
  case False
  then show ?thesis
    using ok hk ip_handle_packet_safe [OF hk ok] keeps_safe [OF ok arp_handle_packet_keeps [of s e frame]]
    by (simp add: ethernet_process_frame_def net_ok_def [of s] hooks_ok_def)
qed (use ok in \<open>simp add: ethernet_process_frame_def\<close>)

lemma rx_batch_safe: "hooks_ok hk \<Longrightarrow> net_ok s \<Longrightarrow> \<exists>k rest s'. rx_batch e hk n inbox s = Some (k, rest, s') \<and> net_ok s' \<and> k \<le> n"
proof (induction e hk n inbox s rule: rx_batch.induct)
  case (3 e hk n f inbox s)
  obtain s1 where s1: "ethernet_process_frame e hk f s = Some s1" "net_ok s1"
    using ethernet_process_frame_safe [OF 3(2,3), of e f] by (auto simp: safe_def)
  have "\<exists>k rest s'. rx_batch e hk n inbox s1 = Some (k, rest, s') \<and> net_ok s' \<and> k \<le> n" if "f \<noteq> []"
    using 3(1) [OF that s1(1) 3(2) s1(2)] .
  with s1(1) 3(3) show ?case by fastforce
qed auto

lemma rx_poll_safe:
  assumes "hooks_ok hk" and "net_ok s"
  shows "\<exists>k rest v' s'. rx_poll e hk inbox v s = Some (k, rest, v', s') \<and> net_ok s' \<and> k \<le> 8"
proof -
  obtain k rest s1 where "rx_batch e hk NET_RX_BATCH_SIZE inbox s = Some (k, rest, s1)" "net_ok s1" "k \<le> 8"
    using rx_batch_safe [OF assms, of e 8 inbox] by (auto simp: NET_RX_BATCH_SIZE_def)
  with assms(2) show ?thesis by (simp add: rx_poll_def)
qed

lemma drain_frames_count: "drain_frames e hk n s = Some (k, s') \<Longrightarrow> k \<le> n"
  by (induction n arbitrary: s k) (auto split: option.splits bind_splits)

section \<open>What a frame made by the sender means to the receiver\<close>

definition plain_frame :: "u8 list \<Rightarrow> u8 list \<Rightarrow> u8 \<Rightarrow> u16 \<Rightarrow> u16 \<Rightarrow> u8 list \<Rightarrow> u8 list \<Rightarrow> u8 list \<Rightarrow> u8 list" where
  "plain_frame m1 m2 protocol ident checksum src dst payload =
    m1 @ m2 @ [0x08, 0x00] @ ip_header (of_nat (20 + length payload)) ident IP_FLAG_DF protocol checksum src dst @ payload"

lemma list4: "length xs = 4 \<Longrightarrow> \<exists>a b c d. xs = [a, b, c, d]"
  by (auto simp: numeral_eq_Suc length_Suc_conv)

lemma list6: "length xs = 6 \<Longrightarrow> \<exists>a b c d e f. xs = [a, b, c, d, e, f]"
  by (auto simp: numeral_eq_Suc length_Suc_conv)

lemma flag_bytes: "hi8 IP_FLAG_DF = 0x40" "lo8 IP_FLAG_DF = 0"
  by (simp_all add: IP_FLAG_DF_def hi8_def lo8_def)

lemma plain_frame_fields:
  fixes protocol :: u8 and ident checksum :: u16 and payload :: "u8 list"
  assumes "length m1 = 6" "length m2 = 6" "length src = 4" "length dst = 4"
  defines "f \<equiv> plain_frame m1 m2 protocol ident checksum src dst payload"
  shows "length f = 34 + length payload" "f ! 14 = 0x45" "be16 (f ! 16) (f ! 17) = of_nat (20 + length payload)"
    "be16 (f ! 18) (f ! 19) = ident" "f ! 20 = 0x40" "f ! 21 = 0" "f ! 23 = protocol" "be16 (f ! 24) (f ! 25) = checksum"
    "take 4 (drop 26 f) = src" "take 4 (drop 30 f) = dst" "drop 34 f = payload"
    "take 20 (drop 14 f) = ip_header (of_nat (20 + length payload)) ident IP_FLAG_DF protocol checksum src dst"
proof -
  obtain a b c d e g where m1: "m1 = [a, b, c, d, e, g]" using list6 [OF assms(1)] by blast
  obtain a' b' c' d' e' g' where m2: "m2 = [a', b', c', d', e', g']" using list6 [OF assms(2)] by blast
  obtain p q r t where src: "src = [p, q, r, t]" using list4 [OF assms(3)] by blast
  obtain p' q' r' t' where dst: "dst = [p', q', r', t']" using list4 [OF assms(4)] by blast
  note defs = f_def plain_frame_def ip_header_def flag_bytes
  show "length f = 34 + length payload" "f ! 14 = 0x45" "be16 (f ! 16) (f ! 17) = of_nat (20 + length payload)"
    "be16 (f ! 18) (f ! 19) = ident" "f ! 20 = 0x40" "f ! 21 = 0" "f ! 23 = protocol" "be16 (f ! 24) (f ! 25) = checksum"
    "take 4 (drop 26 f) = src" "take 4 (drop 30 f) = dst" "drop 34 f = payload"
    "take 20 (drop 14 f) = ip_header (of_nat (20 + length payload)) ident IP_FLAG_DF protocol checksum src dst"
    by (simp_all add: defs m1 m2 src dst)
qed

lemma update_two: "length xs = n \<Longrightarrow> (xs @ a # b # ys)[n := c, Suc n := d] = xs @ c # d # ys"
  by (simp add: list_update_append)

lemma header_update:
  "(ip_header t i f p checksum src dst)[10 := hi8 c, 11 := lo8 c] = ip_header t i f p c src dst"
  using update_two [of "[0x45, 0, hi8 t, lo8 t, hi8 i, lo8 i, hi8 f, lo8 f, 64, p]" 10] by (simp add: ip_header_def)

lemma plain_frame_update:
  assumes "length m1 = 6" "length m2 = 6"
  shows "(plain_frame m1 m2 protocol ident checksum src dst payload)[24 := hi8 c, 25 := lo8 c] =
    plain_frame m1 m2 protocol ident c src dst payload"
proof -
  let ?t = "of_nat (20 + length payload) :: u16"
  let ?xs = "m1 @ m2 @ [0x08, 0x00, 0x45, 0, hi8 ?t, lo8 ?t, hi8 ident, lo8 ident, hi8 IP_FLAG_DF, lo8 IP_FLAG_DF, 64, protocol]"
  have "plain_frame m1 m2 protocol ident x src dst payload = ?xs @ hi8 x # lo8 x # src @ dst @ payload" for x
    by (simp add: plain_frame_def ip_header_def)
  with update_two [of ?xs 24] assms show ?thesis by simp
qed

lemma ip_frame_plain:
  "ip_frame m1 m2 src dst protocol ident IP_FLAG_DF payload =
   plain_frame m1 m2 protocol ident
     (ip_header_checksum_bytes (ip_header (of_nat (20 + length payload)) ident IP_FLAG_DF protocol 0 src dst)) src dst payload"
  by (simp add: ip_frame_def plain_frame_def ip_header_summed_def)

text \<open>A frame for this host, from this host, goes to the handler of its protocol.\<close>

lemma ip_handle_local:
  assumes len: "length m1 = 6" "length m2 = 6" "length src = 4" "length dst = 4" "length payload \<le> 65515"
    and acc: "ip_accepts dst s" "dst ! 0 = 127 \<or> src ! 0 = 127 \<or> src = dev_ip s"
  shows "\<exists>c. ip_handle_packet e hk (ip_frame m1 m2 src dst protocol ident IP_FLAG_DF payload) s =
    ip_dispatch e hk protocol src payload (plain_frame m1 m2 protocol ident c src dst payload) s"
proof -
  let ?h = "\<lambda>c. ip_header (of_nat (20 + length payload)) ident IP_FLAG_DF protocol c src dst"
  define c where "c = ip_header_checksum_bytes (?h 0)"
  let ?f = "\<lambda>c. plain_frame m1 m2 protocol ident c src dst payload"
  note F = plain_frame_fields [OF len(1-4), of protocol ident _ payload]
  have zero: "(?h c)[10 := 0, 11 := 0] = ?h 0" using header_update [of _ _ _ _ c src dst 0] by (simp add: hi8_def lo8_def)
  have swap: "(?f c)[24 := lo8 c, 25 := hi8 c] = ?f (bswap16 c)" using plain_frame_update [OF len(1,2), of _ _ _ _ _ _ "bswap16 c"] by simp
  have total: "unat (of_nat (20 + length payload) :: u16) = 20 + length payload" using len(5) by (simp only: unat_of_nat) simp
  have nofrag: "be16 0x40 0 AND 0x2000 = 0" "(be16 0x40 0 AND 0x1FFF) * 8 = 0" by (simp_all add: be16_def)
  have input: "ip_input e hk 20 src dst (?f x) s = ip_dispatch e hk protocol src payload (?f x) s" for x
    using acc(2) by (auto simp: ip_input_def F total nofrag Let_def simp del: of_nat_add)
  have "ip_handle_packet e hk (?f c) s = ip_input e hk 20 src dst ((?f c)[24 := lo8 c, 25 := hi8 c]) s"
    using acc(1) zero by (simp add: ip_handle_packet_def F c_def [symmetric] Let_def del: of_nat_add)
  then have "ip_handle_packet e hk (ip_frame m1 m2 src dst protocol ident IP_FLAG_DF payload) s =
      ip_dispatch e hk protocol src payload (?f (bswap16 c)) s"
    unfolding swap input by (simp only: ip_frame_plain c_def)
  then show ?thesis by blast
qed

lemma udp_datagram_sum:
  assumes "length d \<le> 65527"
  shows "\<exists>cs. udp_datagram src dst sp dp d = udp_header sp dp (of_nat (8 + length d)) cs @ d \<and>
    udp_checksum src dst (udp_datagram src dst sp dp d) = 0"
proof -
  let ?h = "\<lambda>c. udp_header sp dp (of_nat (8 + length d)) c @ d"
  define cs where "cs = (if udp_checksum src dst (?h 0) = 0 then 0xFFFF else udp_checksum src dst (?h 0))"
  have "(?h 0)[6 := hi8 cs, 7 := lo8 cs] = ?h cs"
    using update_two [of "[hi8 sp, lo8 sp, hi8 dp, lo8 dp, hi8 (of_nat (8 + length d)), lo8 (of_nat (8 + length d))]" 6]
    by (simp add: udp_header_def)
  moreover have "udp_checksum src dst ((?h 0)[6 := hi8 cs, 7 := lo8 cs]) = 0"
    using assms by (intro udp_checksum_stored [OF _ _ _ _ cs_def]) (simp_all add: udp_header_def hi8_def lo8_def)
  moreover have "udp_datagram src dst sp dp d = ?h cs" by (simp add: udp_datagram_def cs_def Let_def)
  ultimately show ?thesis by auto
qed

lemma udp_handle_plain:
  assumes len: "length m1 = 6" "length m2 = 6" "length src = 4" "length dst = 4" "length d \<le> 65507"
  shows "udp_handle_packet hk (plain_frame m1 m2 17 ident c src dst (udp_datagram src dst sp dp d)) s =
    (case udp_handlers s dp of Some h \<Rightarrow> h_udp hk h src sp d s | None \<Rightarrow> Some (snd (udp_pcb_deliver sp dp src d s)))"
proof -
  obtain cs where dg: "udp_datagram src dst sp dp d = udp_header sp dp (of_nat (8 + length d)) cs @ d"
    and sum0: "udp_checksum src dst (udp_datagram src dst sp dp d) = 0"
    using udp_datagram_sum [of d src dst sp dp] len(5) by auto
  let ?dg = "udp_datagram src dst sp dp d" let ?n = "8 + length d"
  define f where "f = plain_frame m1 m2 17 ident c src dst ?dg"
  have ld: "length ?dg = ?n" by (rule length_udp_datagram)
  note F = plain_frame_fields [OF len(1-4), of 17 ident c ?dg, folded f_def, unfolded ld]
  have at: "f ! (34 + k) = ?dg ! k" for k using nth_drop [of 34 f k] F(1,11) by simp
  have ports: "be16 (f ! 34) (f ! 35) = sp" "be16 (f ! 36) (f ! 37) = dp" "be16 (f ! 38) (f ! 39) = of_nat ?n"
    using at [of 0] at [of 1] at [of 2] at [of 3] at [of 4] at [of 5] by (simp_all add: dg udp_header_def del: of_nat_add)
  have n: "unat (of_nat ?n :: u16) = ?n" "unat (of_nat (20 + ?n) :: u16) = 20 + ?n"
    using len(5) by (simp_all only: unat_of_nat) simp_all
  have n8: "\<not> (of_nat ?n :: u16) < 8" using n(1) by (simp add: word_less_nat_alt)
  have "udp_csum_len (of_nat (20 + ?n)) 20 (of_nat ?n) = of_nat ?n"
  proof -
    have "(of_nat (20 + ?n) :: u16) - of_nat 20 = of_nat ?n" by simp
    then show ?thesis by (simp add: udp_csum_len_def del: of_nat_add)
  qed
  moreover have "take ?n ?dg = ?dg" by (simp add: ld)
  moreover have "drop 42 f = drop 8 ?dg" using drop_drop [of 8 34 f] F(11) by simp
  then have "take (length d) (drop 42 f) = d" by (simp add: dg udp_header_def)
  ultimately show ?thesis
    using F(1,2,3,9,10,11) ports n n8 sum0
    by (simp add: udp_handle_packet_def f_def [symmetric] Let_def del: of_nat_add split: option.split)
qed

lemma lo_pop:
  assumes "lo_ok s" and "lo_queue s = f # q"
  obtains s1 where "lo_get s = Some (s1, Some f)" "lo_ok s1" "lo_queue s1 = q"
    "s1 = s\<lparr>ip_lo_frame := ip_lo_frame s1, ip_lo_head := ip_lo_head s1, ip_lo_count := ip_lo_count s1\<rparr>"
proof -
  obtain s1 r where g: "lo_get s = Some (s1, r)" using lo_get_none [of s] assms(2) by (cases "lo_get s") auto
  moreover have "s1 = s\<lparr>ip_lo_frame := ip_lo_frame s1, ip_lo_head := ip_lo_head s1, ip_lo_count := ip_lo_count s1\<rparr>"
    using g by (auto simp: lo_get_def split: if_splits)
  ultimately show thesis using that lo_get_ok [OF assms(1) g] assms(2) by auto
qed

lemma drain_step:
  assumes "lo_get s = Some (s1, Some f)" and "ip_handle_packet e hk f s1 = Some s2"
  shows "drain_frames e hk (Suc n) s = map_option (\<lambda>(k, s3). (k + 1, s3)) (drain_frames e hk n s2)"
  using assms by (cases "drain_frames e hk n s2") auto

lemma drain_stop: "lo_queue s = [] \<Longrightarrow> drain_frames e hk (Suc n) s = Some (0, s)"
  using lo_get_none [of s] by simp

lemma drain_local:
  assumes "\<not> ip_lo_draining s" and "drain_frames e hk 1024 (s\<lparr>ip_lo_draining := True\<rparr>) = Some (n, s1)"
  shows "ip_loopback_drain e hk s = Some (n, s1\<lparr>ip_lo_draining := False\<rparr>)"
  using assms by (simp add: ip_loopback_drain_def)

lemma local_accepted:
  assumes "ip_is_local_dst dst s"
  shows "ip_accepts dst s" "dst ! 0 = 127 \<or> ip_select_src dst s ! 0 = 127 \<or> ip_select_src dst s = dev_ip s"
  using assms by (auto simp: ip_is_local_dst_def ip_accepts_def ip_select_src_def)

text \<open>Sending to this host puts one frame into the loopback queue.\<close>

lemma send_local:
  assumes ok: "ip_ok s" and loc: "ip_is_local_dst dst s" and len: "length payload \<le> 65515"
    and al: "\<And>n k. e_alloc e n k" and q: "length (lo_queue s) < IP_LO_MAX"
  shows "\<exists>s1 ident. ip_send_packet e dst protocol payload s = Some (0, s1) \<and> lo_ok s1 \<and> tx_rest s1 = tx_rest s \<and>
    lo_queue s1 = lo_queue s @ [ip_frame (dev_mac s) (dev_mac s) (ip_select_src dst s) dst protocol ident IP_FLAG_DF payload]"
proof -
  let ?s = "s\<lparr>allocs := allocs s + 1, ip_id_counter := ip_id_counter s + 1\<rparr>"
  let ?f = "ip_frame (dev_mac s) (dev_mac s) (ip_select_src dst s) dst protocol (ip_id_counter s) IP_FLAG_DF payload"
  have lo: "lo_ok ?s" "lo_queue ?s = lo_queue s" using ok by (simp_all add: ip_ok_def lo_ok_def lo_queue_def)
  have "ip_send_packet e dst protocol payload s = Some (0, lo_put ?s ?f)"
    using loc len al ip_lo_enqueue_eq [of payload e s dst protocol] by (simp add: ip_send_packet_def)
  moreover have "lo_queue (lo_put ?s ?f) = lo_queue s @ [?f]" using loopback.put_queue [OF lo(1)] lo(2) q by simp
  moreover have "tx_rest (lo_put ?s ?f) = tx_rest s" by (subst lo_put_frame(1)) (simp add: tx_rest_def)
  ultimately show ?thesis using loopback.put_inv [OF lo(1)] by blast
qed

lemma recv_single:
  assumes "rx_ok u" and "u_rx_count u = 0" and "length d \<le> UDP_RX_PAYLOAD"
  obtains v pkt where "rx_get (rx_put u (a, b, d)) = Some (v, pkt)" "p_src_ip pkt = a" "p_src_port pkt = b"
    "take (unat (p_len pkt)) (p_data pkt) = d" "unat (p_len pkt) \<le> UDP_RX_PAYLOAD"
proof -
  let ?u = "rx_put u (a, b, d)"
  have ok: "rx_ok ?u" using rx_put_ok(1) [OF assms(1)] .
  have "rx_queue u = []" using assms(2) by (simp add: rx_queue_def)
  then have q: "rx_queue ?u = [(a, b, d)]"
    using rx_put_ok(2) [OF assms(1), of "(a, b, d)"] assms(2,3) by (simp add: clip_def UDP_RX_MAX_def)
  then obtain v pkt where g: "rx_get ?u = Some (v, pkt)" using socket.get_empty [OF ok] by auto
  then have "msg_of pkt = (a, b, d)" using socket.get_some [OF ok, of v "msg_of pkt"] q by simp
  moreover have "pkt \<in> set (u_rx ?u)" using g ok by (auto simp: rx_get_def rx_ok_def split: if_splits)
  ultimately show thesis using that g ok by (auto simp: msg_of_def rx_ok_def pkt_ok_def)
qed

section \<open>Properties\<close>

text \<open>
  C6. Whatever frames the card delivers, of any length and with any contents, one round of the
  network service returns, reads and writes only inside its buffers, keeps the tables of the stack
  well-formed, and handles at most 8 frames from the card and 1024 from the loopback queue, as long
  as the handlers of the other protocols do their part.
\<close>

theorem net_rx_service_safe:
  assumes hk: "hooks_ok hk" and ok: "net_ok s"
  shows "\<exists>n rest v' s'. net_rx_service e hk inbox v s = Some (n, rest, v', s') \<and> net_ok s' \<and> n \<le> 8 + 1024"
proof -
  have d: "\<exists>n t'. ip_loopback_drain e hk t = Some (n, t') \<and> net_ok t' \<and> n \<le> 1024" if "net_ok t" for t
    using ip_loopback_drain_safe [OF hk that, of e] drain_frames_count [of e hk 1024 "t\<lparr>ip_lo_draining := True\<rparr>"]
    by (auto simp: safe_def ip_loopback_drain_def split: bind_splits if_splits)
  have tick: "\<exists>t'. ip_arpq_tick e t = Some t' \<and> net_ok t'" if "net_ok t" for t
    using keeps_safe [OF that ip_arpq_tick_keeps [of t e]] that by (auto simp: net_ok_def safe_def)
  have clean: "net_ok (arp_cleanup_expired t)" if "net_ok t" for t
    using keeps_safe [OF that arp_cleanup_keeps [of t]] that by (simp add: net_ok_def)
  obtain n1 in1 v1 t1 where s1: "rx_poll e hk inbox v s = Some (n1, in1, v1, t1)" "net_ok t1" "n1 \<le> 8"
    using rx_poll_safe [OF hk ok] by blast
  obtain n2 t2 where s2: "(if ip_loopback_pending t1 then ip_loopback_drain e hk t1 else Some (0, t1)) = Some (n2, t2)"
    "net_ok t2" "n2 \<le> 1024" using d [OF s1(2)] s1(2) by (cases "ip_loopback_pending t1") auto
  obtain t3 where t3: "ip_arpq_tick e t2 = Some t3" "net_ok t3" using tick [OF s2(2)] by blast
  show ?thesis
    using s1(3) s2(2,3) t3 clean [of t2] clean [of t3] by (simp add: net_rx_service_def Let_def s1(1) s2(1))
qed

definition no_hooks :: hooks where
  "no_hooks = \<lparr>h_tcp = \<lambda>_ s. Some s, h_udp = \<lambda>_ _ _ _ s. Some s, h_ipv6 = \<lambda>_ s. Some s, h_ipv6_on = False\<rparr>"

lemma no_hooks_ok: "hooks_ok no_hooks"
  by (simp add: hooks_ok_def no_hooks_def)

lemma small_net_ok: "net_ok small_net"
  using small_net_ip small_net_udp by (simp add: net_ok_def) (simp add: frags_ok_def dns_ok_def dns_entry_ok_def small_net_def IP_FRAG_MAX_SLOTS_def DNS_CACHE_SIZE_def DNS_CACHE_MAX_NAME_def)

theorem net_rx_service_safe_witness:
  "\<exists>n rest v' s'. net_rx_service good_env no_hooks [replicate 40 0xFF, [1, 2, 3]]
     \<lparr>net_rx_event = True, net_rx_packets_total = 0, last_fallback_poll = 0, last_arp_cleanup = 0, last_arpq_tick = 0\<rparr> small_net
     = Some (n, rest, v', s') \<and> net_ok s' \<and> n \<le> 8 + 1024"
  by (rule net_rx_service_safe [OF no_hooks_ok small_net_ok])

lemma udp_deliver_local:
  assumes ok: "net_ok s" and loc: "ip_is_local_dst dst s" "length dst = 4" and d: "length d \<le> 65507"
    and j: "j < UDP_PCB_MAX" "bound_to s port j" "udp_handlers s port = None"
    and q: "lo_queue s = [ip_frame (dev_mac s) (dev_mac s) (ip_select_src dst s) dst 17 ident IP_FLAG_DF
      (udp_datagram (ip_select_src dst s) dst sport port d)]" and dr: "\<not> ip_lo_draining s"
  shows "\<exists>s2. ip_loopback_drain e hk s = Some (1, s2) \<and>
    udp_pcbs s2 = (udp_pcbs s)[j := rx_put (udp_pcbs s ! j) (ip_select_src dst s, sport, d)]"
proof -
  let ?t = "s\<lparr>ip_lo_draining := True\<rparr>" and ?src = "ip_select_src dst s"
  let ?dg = "udp_datagram ?src dst sport port d"
  have "lo_ok ?t" "lo_queue ?t = lo_queue s" using ok by (simp_all add: net_ok_def ip_ok_def lo_ok_def lo_queue_def)
  then obtain t1 where t1: "lo_get ?t = Some (t1, Some (ip_frame (dev_mac s) (dev_mac s) ?src dst 17 ident IP_FLAG_DF ?dg))"
    "lo_queue t1 = []" "t1 = ?t\<lparr>ip_lo_frame := ip_lo_frame t1, ip_lo_head := ip_lo_head t1, ip_lo_count := ip_lo_count t1\<rparr>"
    using lo_pop [of ?t] q by metis
  have same: "dev_ip t1 = dev_ip s" "udp_pcbs t1 = udp_pcbs s" "udp_handlers t1 = udp_handlers s" "udp_next t1 = udp_next s"
    by (subst t1(3); simp)+
  have uok: "udp_ok t1" using ok same by (simp add: net_ok_def udp_ok_def)
  have lens: "length (dev_mac s) = 6" "length ?src = 4" "length ?dg \<le> 65515"
    using ok loc(2) d by (simp_all add: net_ok_def ip_ok_def addrs_ok_def ip_select_src_def length_udp_datagram)
  have acc: "ip_accepts dst t1" "dst ! 0 = 127 \<or> ?src ! 0 = 127 \<or> ?src = dev_ip t1"
    using local_accepted [OF loc(1)] same(1) by (simp_all add: ip_accepts_def)
  obtain c where "ip_handle_packet e hk (ip_frame (dev_mac s) (dev_mac s) ?src dst 17 ident IP_FLAG_DF ?dg) t1 =
      ip_dispatch e hk 17 ?src ?dg (plain_frame (dev_mac s) (dev_mac s) 17 ident c ?src dst ?dg) t1"
    using ip_handle_local [OF lens(1,1,2) loc(2) lens(3) acc] by metis
  also have "\<dots> = Some (snd (udp_pcb_deliver sport port ?src d t1))"
    using udp_handle_plain [OF lens(1,1,2) loc(2) d] j(3) same(3) by (simp add: ip_dispatch_def)
  also have "snd (udp_pcb_deliver sport port ?src d t1) = set_pcb j (rx_put (udp_pcbs s ! j) (?src, sport, d)) t1"
    using deliver_to [OF uok j(1), of port] j(2) same(2) by (simp add: bound_to_def)
  finally have "drain_frames e hk (Suc (Suc 1022)) ?t =
      map_option (\<lambda>(k, s3). (k + 1, s3)) (drain_frames e hk (Suc 1022) (set_pcb j (rx_put (udp_pcbs s ! j) (?src, sport, d)) t1))"
    by (rule drain_step [OF t1(1)])
  also have "\<dots> = Some (1, set_pcb j (rx_put (udp_pcbs s ! j) (?src, sport, d)) t1)"
    using t1(2) by (subst drain_stop) (simp_all add: lo_queue_def set_pcb_def)
  finally have "drain_frames e hk 1024 ?t = Some (1, set_pcb j (rx_put (udp_pcbs s ! j) (?src, sport, d)) t1)"
    by (simp add: eval_nat_numeral)
  from drain_local [OF dr this] show ?thesis by (auto simp: set_pcb_def same(2))
qed


lemma icmp_summed_nth: "k \<noteq> 2 \<Longrightarrow> k \<noteq> 3 \<Longrightarrow> icmp_summed m ! k = m ! k"
  by (simp add: icmp_summed_def)

lemma echo_reply_hits:
  assumes "expect_id s = ident" "expect_seq s = sequence"
  shows "ip_icmp_input e src (icmp_echo_reply (icmp_echo_request ident sequence data)) s = Some (s\<lparr>expect_hit := True\<rparr>)"
proof -
  let ?m = "icmp_echo_reply (icmp_echo_request ident sequence data)"
  have len: "length ?m = 8 + length data" by (simp add: icmp_echo_reply_def icmp_echo_request_def)
  have "?m ! 0 = 0" "?m ! 4 = hi8 ident" "?m ! 5 = lo8 ident" "?m ! 6 = hi8 sequence" "?m ! 7 = lo8 sequence"
    by (simp_all add: icmp_echo_reply_def icmp_echo_request_def icmp_summed_nth)
  then show ?thesis
    using len assms by (cases ?m) (simp_all add: ip_icmp_input_def icmp_handle_packet_def)
qed

lemma local_src: "ip_is_local_dst dst s \<Longrightarrow> ip_select_src dst s = dst"
  by (auto simp: ip_is_local_dst_def ip_select_src_def)

text \<open>The head of the loopback queue, when it is an ICMP message of this host to itself.\<close>

lemma pop_icmp:
  assumes ok: "net_ok t" and loc: "ip_is_local_dst dst t" "length dst = 4" and len: "length m \<le> 65515"
    and q: "lo_queue t = [ip_frame (dev_mac t) (dev_mac t) dst dst 1 ident IP_FLAG_DF m]"
  shows "\<exists>t1 f. lo_get t = Some (t1, Some f) \<and> net_ok t1 \<and> lo_queue t1 = [] \<and> ip_is_local_dst dst t1 \<and>
    expect_id t1 = expect_id t \<and> expect_seq t1 = expect_seq t \<and> ip_handle_packet e hk f t1 = ip_icmp_input e dst m t1"
proof -
  let ?f = "ip_frame (dev_mac t) (dev_mac t) dst dst 1 ident IP_FLAG_DF m"
  have "lo_ok t" using ok by (simp add: net_ok_def ip_ok_def)
  then obtain t1 where t1: "lo_get t = Some (t1, Some ?f)" "lo_queue t1 = []"
    "t1 = t\<lparr>ip_lo_frame := ip_lo_frame t1, ip_lo_head := ip_lo_head t1, ip_lo_count := ip_lo_count t1\<rparr>"
    using lo_pop [OF _ q] by metis
  have same: "dev_ip t1 = dev_ip t" "expect_id t1 = expect_id t" "expect_seq t1 = expect_seq t" by (subst t1(3); simp)+
  then have loc1: "ip_is_local_dst dst t1" using loc(1) by (simp add: ip_is_local_dst_def)
  have mac: "length (dev_mac t) = 6" using ok by (simp add: net_ok_def ip_ok_def addrs_ok_def)
  have "ip_handle_packet e hk ?f t1 = ip_icmp_input e dst m t1"
    using ip_handle_local [OF mac mac loc(2,2) len local_accepted [OF loc1, unfolded local_src [OF loc1]], of e hk 1 ident]
    by (auto simp: ip_dispatch_def)
  with t1(1,2) lo_get_net_ok(1) [OF ok t1(1)] loc1 same show ?thesis by blast
qed

lemma echo_request_answered:
  assumes "net_ok t" and "ip_is_local_dst dst t" "length dst = 4" and "length data \<le> 65507" and al: "\<And>n k. e_alloc e n k"
    and q: "lo_queue t = []"
  obtains t1 i2 where "ip_icmp_input e dst (icmp_echo_request ident sequence data) t = Some t1" "net_ok t1" "tx_rest t1 = tx_rest t"
    "lo_queue t1 = [ip_frame (dev_mac t1) (dev_mac t1) dst dst 1 i2 IP_FLAG_DF (icmp_echo_reply (icmp_echo_request ident sequence data))]"
proof -
  let ?m = "icmp_echo_request ident sequence data" and ?s = "t\<lparr>allocs := allocs t + 1\<rparr>"
  have len: "length ?m = 8 + length data" "length (icmp_echo_reply ?m) = 8 + length data"
    by (simp_all add: icmp_echo_request_def icmp_echo_reply_def)
  have "?m ! 0 = 8" by (simp add: icmp_echo_request_def icmp_summed_nth)
  then have eq: "ip_icmp_input e dst ?m t = map_option snd (ip_send_packet e dst 1 (icmp_echo_reply ?m) ?s)"
    using len(1) al by (cases ?m) (simp_all add: ip_icmp_input_def icmp_send_echo_reply_to_def try_alloc_def)
  have s: "ip_ok ?s" "ip_is_local_dst dst ?s" "lo_queue ?s = []" "tx_rest ?s = tx_rest t"
    using assms(1,2) q by (simp_all add: net_ok_def ip_is_local_dst_def lo_queue_def tx_rest_def)
  obtain t1 i2 where t1: "ip_send_packet e dst 1 (icmp_echo_reply ?m) ?s = Some (0, t1)" "tx_rest t1 = tx_rest ?s"
    "lo_queue t1 = [ip_frame (dev_mac t) (dev_mac t) dst dst 1 i2 IP_FLAG_DF (icmp_echo_reply ?m)]"
    using send_local [OF s(1,2), of "icmp_echo_reply ?m" e 1] len(2) assms(4) al local_src [OF s(2)] s(3) by (auto simp: IP_LO_MAX_def)
  moreover have "net_ok t1"
    using ip_send_packet_safe [of ?s dst "icmp_echo_reply ?m" e 1] assms(1,3,4) len(2) t1(1) by simp
  moreover have "dev_mac t1 = dev_mac t" using t1(2) by (simp add: tx_rest_def)
  ultimately show thesis using that [of t1 i2] eq s(4) by simp
qed

text \<open>
  C15. Pinging this host works: the echo request goes through the loopback queue, the stack answers it,
  and after one round of the queue the reply that was waited for has been seen.
\<close>

theorem ping_loopback:
  assumes ok: "net_ok s" and al: "\<forall>n k. e_alloc e n k" and lo: "ip_lo_count s = 0" "\<not> ip_lo_draining s"
    and dst: "ip_is_local_dst dst s" "length dst = 4" and len: "length data \<le> 65507"
  shows "\<exists>s1 s2. icmp_ping e dst data s = Some (0, s1) \<and> ip_loopback_drain e hk s1 = Some (2, s2) \<and>
    fst (icmp_check_echo_reply s2)"
proof -
  define ident where "ident = icmp_id_counter s"
  let ?m = "icmp_echo_request ident 1 data" and ?hit = "\<lambda>t. t\<lparr>expect_hit := True\<rparr>"
  define s0 where "s0 = (icmp_set_echo_expect ident 1 (s\<lparr>icmp_id_counter := ident + 1\<rparr>))\<lparr>allocs := allocs s + 1\<rparr>"
  have s0: "net_ok s0" "ip_is_local_dst dst s0" "lo_queue s0 = []" "expect_id s0 = ident" "expect_seq s0 = 1" "\<not> ip_lo_draining s0"
    using ok dst(1) lo by (simp_all add: s0_def icmp_set_echo_expect_def ip_is_local_dst_def lo_queue_def)
  have mlen: "length ?m = 8 + length data" by (simp add: icmp_echo_request_def)
  have n: "unat (8 + of_nat (length data) :: u16) = 8 + length data" using len by (simp add: unat_word_ariths unat_of_nat)
  obtain s1 i1 where s1: "ip_send_packet e dst 1 ?m s0 = Some (0, s1)" "tx_rest s1 = tx_rest s0"
    "lo_queue s1 = [ip_frame (dev_mac s0) (dev_mac s0) dst dst 1 i1 IP_FLAG_DF ?m]"
    using send_local [OF _ s0(2), of ?m e 1] s0(1,3) len al local_src [OF s0(2)] mlen by (auto simp: IP_LO_MAX_def net_ok_def)
  have sent: "icmp_ping e dst data s = Some (0, s1)"
    using s1(1) al n
    by (simp add: icmp_ping_def icmp_send_echo_request_def try_alloc_def Let_def ident_def s0_def icmp_set_echo_expect_def)
  have ok1: "net_ok s1" using ip_send_packet_safe [of s0 dst ?m e 1] s0(1) dst(2) len mlen s1(1) by simp
  have same: "dev_mac s1 = dev_mac s0" "dev_ip s1 = dev_ip s0" "expect_id s1 = ident" "expect_seq s1 = 1" "\<not> ip_lo_draining s1"
    using s1(2) s0 by (simp_all add: tx_rest_def)
  let ?t = "s1\<lparr>ip_lo_draining := True\<rparr>"
  have t: "net_ok ?t" "ip_is_local_dst dst ?t" "lo_queue ?t = [ip_frame (dev_mac ?t) (dev_mac ?t) dst dst 1 i1 IP_FLAG_DF ?m]"
    using ok1 s0(2) s1(3) same by (simp_all add: ip_is_local_dst_def lo_queue_def)
  obtain t1 f where t1: "lo_get ?t = Some (t1, Some f)" "net_ok t1" "lo_queue t1 = []" "ip_is_local_dst dst t1"
    "expect_id t1 = ident" "expect_seq t1 = 1" "ip_handle_packet e hk f t1 = ip_icmp_input e dst ?m t1"
    using pop_icmp [OF t(1,2) dst(2) _ t(3), of e hk] len mlen same(3,4) by auto
  obtain t2 i2 where t2: "ip_icmp_input e dst ?m t1 = Some t2" "net_ok t2" "tx_rest t2 = tx_rest t1"
    "lo_queue t2 = [ip_frame (dev_mac t2) (dev_mac t2) dst dst 1 i2 IP_FLAG_DF (icmp_echo_reply ?m)]"
    using echo_request_answered [OF t1(2,4) dst(2) len _ t1(3), of e ident 1] al by blast
  have loc2: "ip_is_local_dst dst t2" "expect_id t2 = ident" "expect_seq t2 = 1"
    using t1(4-6) t2(3) by (simp_all add: tx_rest_def ip_is_local_dst_def)
  obtain t3 f' where t3: "lo_get t2 = Some (t3, Some f')" "lo_queue t3 = []" "expect_id t3 = ident" "expect_seq t3 = 1"
    "ip_handle_packet e hk f' t3 = ip_icmp_input e dst (icmp_echo_reply ?m) t3"
    using pop_icmp [OF t2(2) loc2(1) dst(2) _ t2(4), of e hk] len mlen loc2(2,3) by (auto simp: icmp_echo_reply_def)
  have "drain_frames e hk (Suc (Suc (Suc 1021))) ?t = Some (2, ?hit t3)"
    using drain_step [OF t1(1), of e hk t2 "Suc (Suc 1021)"] drain_step [OF t3(1), of e hk "?hit t3" "Suc 1021"]
      drain_stop [of "?hit t3" e hk 1021] t1(7) t2(1) t3 echo_reply_hits [OF t3(3,4), of e dst data]
    by (simp add: lo_queue_def)
  then have "drain_frames e hk 1024 ?t = Some (2, ?hit t3)" by (simp add: eval_nat_numeral)
  from drain_local [OF same(5) this] sent show ?thesis by (simp add: icmp_check_echo_reply_def)
qed

theorem ping_loopback_witness:
  "\<exists>s1 s2. icmp_ping good_env [127, 0, 0, 1] [1, 2, 3] small_net = Some (0, s1) \<and>
     ip_loopback_drain good_env no_hooks s1 = Some (2, s2) \<and> fst (icmp_check_echo_reply s2)"
  by (rule ping_loopback [OF small_net_ok]) (simp_all add: good_env_def small_net_def ip_is_local_dst_def)

definition bound_pcb :: "u16 \<Rightarrow> udp_pcb" where
  "bound_pcb port = no_pcb\<lparr>u_in_use := True, u_bound := True, u_local_port := port\<rparr>"

definition two_sockets :: net where
  "two_sockets = set_pcb 1 (bound_pcb 5001) (set_pcb 0 (bound_pcb 5000) small_net)"

lemma bound_pcb_ok: "rx_ok (bound_pcb port)" "u_local_port (bound_pcb port) = port"
  using no_pcb_ok(1) by (simp_all add: bound_pcb_def)

lemma two_sockets_udp: "udp_ok two_sockets"
proof -
  have free0: "\<not> udp_port_taken_unlocked 5000 small_net"
    by (simp add: udp_port_taken_unlocked_def scan_None_iff bound_to_def small_net_def UDP_PCB_MAX_def)
  have free1: "\<not> udp_port_taken_unlocked 5001 (set_pcb 0 (bound_pcb 5000) small_net)"
    by (auto simp: udp_port_taken_unlocked_def scan_None_iff bound_to_def small_net_def UDP_PCB_MAX_def set_pcb_def
        bound_pcb_def nth_list_update)
  have "udp_ok (set_pcb 0 (bound_pcb 5000) small_net)"
    by (rule udp_ok_set [OF small_net_udp]) (simp_all add: bound_pcb_ok free0)
  then show ?thesis unfolding two_sockets_def
    by (rule udp_ok_set) (simp_all add: bound_pcb_ok free1)
qed

lemma two_sockets_ok: "net_ok two_sockets"
proof -
  have "routes_ok two_sockets = routes_ok small_net" by (rule routes_ok_cong) (simp_all add: two_sockets_def set_pcb_def)
  moreover have "frags_ok two_sockets = frags_ok small_net" by (simp add: frags_ok_def two_sockets_def set_pcb_def)
  moreover have "dns_ok two_sockets = dns_ok small_net" by (simp add: dns_ok_def two_sockets_def set_pcb_def)
  moreover have "ip_ok two_sockets = ip_ok small_net" by (simp add: two_sockets_def)
  ultimately show ?thesis using small_net_ok two_sockets_udp by (simp add: net_ok_def)
qed


end
