(* ===== verification/Dns.thy ===== *)
theory Dns
  imports Netrx
begin

text \<open>
  The resolver, \<^verbatim>\<open>src/src/net_dns.c\<close>: the query, the parser of responses and the loop that waits for
  one, which drives the reception of frames itself. An access outside of a packet, or behind the end
  of a string, is \<open>None\<close>.
\<close>

unbundle bit_operations_syntax

section \<open>Responses\<close>

text \<open>\<^verbatim>\<open>while (i < payload_len && payload[i] != 0) { i += payload[i] + 1; }\<close>\<close>

function skip_labels :: "u8 list \<Rightarrow> nat \<Rightarrow> nat" where
  "skip_labels payload i =
    (if i < length payload \<and> payload ! i \<noteq> 0 then skip_labels payload (i + unat (payload ! i) + 1) else i)"
  by pat_completeness auto
termination
  by (relation "measure (\<lambda>(payload, i). length payload - i)") auto

declare skip_labels.simps [simp del]

fun skip_questions :: "u8 list \<Rightarrow> nat \<Rightarrow> nat \<Rightarrow> nat" where
  "skip_questions payload 0 i = i"
| "skip_questions payload (Suc qd) i =
    (if i < length payload then skip_questions payload qd (skip_labels payload i + 1 + 4) else i)"

definition get32 :: "u8 list \<Rightarrow> nat \<Rightarrow> u32 option" where
  "get32 p i =
    do {
      a \<leftarrow> get8 p i; b \<leftarrow> get8 p (i + 1); c \<leftarrow> get8 p (i + 2); d \<leftarrow> get8 p (i + 3);
      Some (push_bit 24 (ucast a) OR push_bit 16 (ucast b) OR push_bit 8 (ucast c) OR ucast d)
    }"

text \<open>The first address record among the answers, with its time to live.\<close>

fun first_answer :: "u8 list \<Rightarrow> nat \<Rightarrow> nat \<Rightarrow> (u8 list \<times> u32) option option" where
  "first_answer payload 0 i = Some None"
| "first_answer payload (Suc an) i =
    (if \<not> i + 10 \<le> length payload then Some None
     else do {
       c \<leftarrow> get8 payload i;
       let j = (if c AND 0xC0 = 0xC0 then i + 2 else skip_labels payload i + 1);
       if j + 10 > length payload then Some None
       else do {
         typ \<leftarrow> get16 payload j;
         cls \<leftarrow> get16 payload (j + 2);
         ttl \<leftarrow> get32 payload (j + 4);
         rdlen \<leftarrow> get16 payload (j + 8);
         if j + 10 + unat rdlen > length payload then Some None
         else if typ = 1 \<and> cls = 1 \<and> rdlen = 4 then do {
           ip \<leftarrow> slice payload (j + 10) 4;
           Some (Some (ip, ttl))
         } else first_answer payload an (j + 10 + unat rdlen)
       }
     })"

definition dns_udp_handler :: "u8 list \<Rightarrow> net \<Rightarrow> net option" where
  "dns_udp_handler payload s =
    (if length payload < 12 then Some s
     else do {
       ident \<leftarrow> get16 payload 0;
       if ident \<noteq> dns_pending_id s then Some s
       else do {
         flags \<leftarrow> get16 payload 2;
         qd \<leftarrow> get16 payload 4;
         an \<leftarrow> get16 payload 6;
         if flags AND 0x8000 = 0 then Some s
         else do {
           r \<leftarrow> first_answer payload (unat an) (skip_questions payload (unat qd) 12);
           Some (case r of None \<Rightarrow> s
             | Some (ip, ttl) \<Rightarrow> s\<lparr>dns_answer_ip := ip, dns_answer_ttl := ttl, dns_have_answer := True\<rparr>)
         }
       }
     })"

section \<open>Queries\<close>

fun label_len :: "u8 list \<Rightarrow> nat option" where
  "label_len (c # cs) = (if c \<noteq> 0 \<and> c \<noteq> 46 then map_option Suc (label_len cs) else Some 0)"
| "label_len [] = None"

text \<open>
  The bytes written to the query buffer so far are \<open>q\<close>; an inner \<open>None\<close> is the result -1 for a name
  that does not fit.
\<close>

lemma label_len_bound: "label_len h = Some n \<Longrightarrow> n < length h"
  by (induction h arbitrary: n) (auto split: if_splits)

function query_labels :: "u8 list \<Rightarrow> u8 list \<Rightarrow> u8 list option option" where
  "query_labels h q =
    (case h of
       [] \<Rightarrow> None
     | c # _ \<Rightarrow>
         if c \<noteq> 0 \<and> length q + 1 < 512 then
           (case label_len h of
              None \<Rightarrow> None
            | Some labellen \<Rightarrow>
                if labellen > 63 \<or> length q + 1 + labellen \<ge> 512 then Some None
                else
                  let q1 = q @ [of_nat labellen] @ take labellen h in
                  if h ! labellen = 46 then query_labels (drop (labellen + 1) h) q1 else Some (Some q1))
         else Some (Some q))"
  by pat_completeness auto
termination
  by (relation "measure (\<lambda>(h, q). length h)") (auto dest: label_len_bound)

declare query_labels.simps [simp del]

definition dns_query :: "u16 \<Rightarrow> u8 list \<Rightarrow> u8 list option option" where
  "dns_query ident hostname =
    do {
      r \<leftarrow> query_labels hostname ([hi8 ident, lo8 ident, 1, 0, 0, 1, 0, 0, 0, 0, 0, 0]);
      Some (case r of
          None \<Rightarrow> None
        | Some q \<Rightarrow> if length q \<ge> 512 then None
            else if length q + 1 + 4 > 512 then None
            else Some (q @ [0, 0, 1, 0, 1]))
    }"

section \<open>Resolving a name\<close>

text \<open>\<^verbatim>\<open>net_wait_idle\<close> of \<^verbatim>\<open>src/src/net_thread.c\<close>, without the halt of the processor.\<close>

definition net_wait_idle :: "env \<Rightarrow> net \<Rightarrow> net option" where
  "net_wait_idle e s =
    (if hpet_ticks s - idle_last_tick s \<ge> NET_ARPQ_TICK_MS
     then do { s1 \<leftarrow> ip_arpq_tick e s; Some (s1\<lparr>idle_last_tick := hpet_ticks s\<rparr>) }
     else Some s)"

text \<open>The number that stands for the function pointer \<^verbatim>\<open>dns_udp_handler\<close>, and the handlers with it.\<close>

definition DNS_HANDLER :: nat where "DNS_HANDLER = 0"

definition dns_hooks :: "hooks \<Rightarrow> hooks" where
  "dns_hooks hk = hk\<lparr>h_udp := \<lambda>h src_ip src_port payload s.
     if h = DNS_HANDLER then dns_udp_handler payload s else h_udp hk h src_ip src_port payload s\<rparr>"

text \<open>
  One element of \<open>polls\<close> is one round of the waiting loop: the two clocks and the frame the card has,
  empty for none. The result \<open>None\<close> means that the loop is still running when \<open>polls\<close> is used up.
\<close>

fun dns_wait ::
  "env \<Rightarrow> hooks \<Rightarrow> u8 list \<Rightarrow> u64 \<Rightarrow> (u64 \<times> u64 \<times> u8 list) list \<Rightarrow> net \<Rightarrow> (u8 list res option \<times> net) option" where
  "dns_wait e hk hostname start [] s = Some (None, s)"
| "dns_wait e hk hostname start ((ticks, ms, frame) # polls) s =
    (let s0 = s\<lparr>hpet_ticks := ticks, now_ms := ms\<rparr> in
     if \<not> ticks - start < 3000 then Some (Some (Inl FAIL), udp_unregister_handler 40000 s0)
     else do {
       s1 \<leftarrow> (if frame \<noteq> [] then ethernet_process_frame e (dns_hooks hk) frame s0 else Some s0);
       if dns_have_answer s1 then do {
         s2 \<leftarrow> dns_cache_insert hostname (dns_answer_ip s1) (dns_answer_ttl s1) (udp_unregister_handler 40000 s1);
         Some (Some (Inr (dns_answer_ip s1)), s2)
       } else do {
         s2 \<leftarrow> (if frame = [] then net_wait_idle e s1 else Some s1);
         dns_wait e hk hostname start polls s2
       }
     })"

definition dns_resolve_a ::
  "env \<Rightarrow> hooks \<Rightarrow> u8 list \<Rightarrow> (u64 \<times> u64 \<times> u8 list) list \<Rightarrow> net \<Rightarrow> (u8 list res option \<times> net) option" where
  "dns_resolve_a e hk hostname polls s =
    do {
      (hit, s1) \<leftarrow> dns_cache_lookup hostname s;
      case hit of
        Some ip \<Rightarrow> Some (Some (Inr ip), s1)
      | None \<Rightarrow>
          if dev_dns s1 = zero_ip then Some (Some (Inl FAIL), s1)
          else do {
            let s2 = s1\<lparr>dns_id_counter := dns_id_counter s1 + 1\<rparr>;
            r \<leftarrow> dns_query (dns_id_counter s1) hostname;
            case r of
              None \<Rightarrow> Some (Some (Inl FAIL), s2)
            | Some query \<Rightarrow> do {
                let s3 = snd (udp_register_handler 40000 (Some DNS_HANDLER) s2);
                let s4 = s3\<lparr>dns_pending_id := dns_id_counter s1, dns_have_answer := False, dns_answer_ttl := 0\<rparr>;
                (rc, s5) \<leftarrow> udp_send e (Some (dev_dns s1)) 40000 53 query s4;
                if rc \<noteq> 0 then Some (Some (Inl FAIL), udp_unregister_handler 40000 s5)
                else dns_wait e hk hostname (hpet_ticks s5) polls s5
              }
          }
    }"

section \<open>Parsing and resolving are safe\<close>

lemma first_answer_total: "\<exists>r. first_answer payload an i = Some r \<and> (\<forall>ip ttl. r = Some (ip, ttl) \<longrightarrow> length ip = 4)"
proof (induction payload an i rule: first_answer.induct)
  case (2 payload an i)
  let ?j = "if payload ! i AND 0xC0 = 0xC0 then i + 2 else skip_labels payload i + 1"
  show ?case
  proof (cases "i + 10 \<le> length payload \<and> ?j + 10 \<le> length payload")
    case True
    have i: "get8 payload i = Some (payload ! i)" using True by simp
    define j where "j = ?j"
    have j: "j + 10 \<le> length payload" using True by (simp add: j_def)
    obtain ty cls ttl rdlen where r: "get16 payload j = Some ty" "get16 payload (j + 2) = Some cls"
      "get32 payload (j + 4) = Some ttl" "get16 payload (j + 8) = Some rdlen" using j by (simp add: get32_def)
    have eq: "first_answer payload (Suc an) i =
        (if j + 10 + unat rdlen > length payload then Some None
         else if ty = 1 \<and> cls = 1 \<and> rdlen = 4 then Option.bind (slice payload (j + 10) 4) (\<lambda>ip. Some (Some (ip, ttl)))
         else first_answer payload an (j + 10 + unat rdlen))"
      using True i r j by (simp add: Let_def j_def [symmetric])
    have "\<exists>r. first_answer payload an (j + 10 + unat rdlen) = Some r \<and> (\<forall>ip ttl. r = Some (ip, ttl) \<longrightarrow> length ip = 4)"
      if "\<not> (ty = 1 \<and> cls = 1 \<and> rdlen = 4)" "\<not> j + 10 + unat rdlen > length payload"
      using 2 [OF _ i] True r that j by (simp add: j_def [symmetric])
    then show ?thesis unfolding eq by auto
  qed (auto simp: Let_def)
qed simp

lemma net_ok_dns:
  assumes "net_ok s" and "dns_ok s'" and "s' = s\<lparr>dns_cache := dns_cache s', dns_cache_initialized := i, dns_answer_ip := dns_answer_ip s',
    dns_answer_ttl := t, dns_have_answer := b\<rparr>"
  shows "net_ok s'"
proof -
  let ?t = "s\<lparr>dns_cache := dns_cache s', dns_answer_ip := dns_answer_ip s'\<rparr>"
  have "routes_ok ?t = routes_ok s" by (rule routes_ok_cong) simp_all
  moreover have "dns_ok ?t" using assms(2) by (simp add: dns_ok_def)
  ultimately have "net_ok ?t"
    using assms(1) by (simp add: net_ok_def ip_ok_def addrs_ok_def arp_ok_def lo_ok_def udp_ok_def frags_ok_def)
  moreover have "net_view s' = net_view ?t" by (subst assms(3)) (simp add: net_view_def)
  ultimately show ?thesis using net_ok_view by blast
qed

lemma dns_udp_handler_safe: "net_ok s \<Longrightarrow> safe (dns_udp_handler payload s)"
proof -
  assume ok: "net_ok s"
  have upd: "net_ok (s\<lparr>dns_answer_ip := ip, dns_answer_ttl := t, dns_have_answer := True\<rparr>)" if "length ip = 4" for ip t
    by (rule net_ok_dns [OF ok, where i = "dns_cache_initialized s" and t = t and b = True])
      (use ok that in \<open>simp_all add: net_ok_def dns_ok_def\<close>)
  show ?thesis
  proof (cases "length payload < 12")
    case False
    obtain r where r: "first_answer payload (unat (be16 (payload ! 6) (payload ! 7)))
        (skip_questions payload (unat (be16 (payload ! 4) (payload ! 5))) 12) = Some r"
      "\<forall>ip ttl. r = Some (ip, ttl) \<longrightarrow> length ip = 4" using first_answer_total by blast
    show ?thesis using False ok upd r by (simp add: dns_udp_handler_def split: option.split)
  qed (use ok in \<open>simp add: dns_udp_handler_def\<close>)
qed

lemma dns_hooks_ok: "hooks_ok hk \<Longrightarrow> hooks_ok (dns_hooks hk)"
  using dns_udp_handler_safe by (simp add: hooks_ok_def dns_hooks_def)

lemma net_ok_more [simp]:
  "net_ok (s\<lparr>hpet_ticks := t\<rparr>) = net_ok s" "net_ok (s\<lparr>now_ms := m\<rparr>) = net_ok s" "net_ok (s\<lparr>idle_last_tick := t\<rparr>) = net_ok s"
  "net_ok (s\<lparr>dns_id_counter := i\<rparr>) = net_ok s" "net_ok (s\<lparr>dns_pending_id := i\<rparr>) = net_ok s"
  "net_ok (s\<lparr>dns_have_answer := b\<rparr>) = net_ok s" "net_ok (s\<lparr>dns_answer_ttl := l\<rparr>) = net_ok s"
  "net_ok (s\<lparr>udp_handlers := f\<rparr>) = net_ok s"
  by (rule net_ok_view; simp add: net_view_def)+

lemma net_ok_handlers [simp]:
  "net_ok (udp_unregister_handler p s) = net_ok s" "net_ok (snd (udp_register_handler p h s)) = net_ok s"
  by (simp_all add: udp_unregister_handler_def udp_register_handler_def split: option.split)

lemma net_ok_dnsD: "net_ok s \<Longrightarrow> dns_ok s"
  by (simp add: net_ok_def)

lemma dns_cache_lookup_safe:
  assumes ok: "net_ok s" and h: "0 \<in> set h"
  obtains r s' where "dns_cache_lookup h s = Some (r, s')" "net_ok s'" "\<And>ip. r = Some ip \<Longrightarrow> length ip = 4" "hpet_ticks s' = hpet_ticks s"
    "dev_dns s' = dev_dns s"
proof -
  let ?i = "dns_cache_init s"
  have oki: "dns_ok ?i" using dns_cache_init_ok net_ok_dnsD [OF ok] by blast
  let ?r = "scan (dns_match h ?i) 0 DNS_CACHE_SIZE"
  have l: "dns_cache_lookup h s = Some (dns_result ?r ?i)"
    using dns_lookup_from_scan [OF oki h, of 0 DNS_CACHE_SIZE] by (simp add: dns_cache_lookup_def)
  have rng: "j < DNS_CACHE_SIZE" if "?r = Some j" for j using scan_SomeD [OF that] by simp
  have entry: "dns_entry_ok (dns_cache ?i ! j)" if "?r = Some j" for j using oki rng [OF that] by (simp add: dns_ok_def)
  let ?s' = "snd (dns_result ?r ?i)"
  have ok': "dns_ok ?s'"
    using oki entry by (auto simp: dns_result_def dns_entry_ok_def split: option.split intro!: dns_set_ok)
  have eq: "?s' = s\<lparr>dns_cache := dns_cache ?s', dns_cache_initialized := True, dns_answer_ip := dns_answer_ip ?s',
      dns_answer_ttl := dns_answer_ttl s, dns_have_answer := dns_have_answer s\<rparr>"
    by (simp add: dns_result_def set_dns_def dns_cache_init_def split: option.split)
  have "net_ok ?s'" by (rule net_ok_dns [OF ok ok' eq])
  moreover have "length ip = 4" if "fst (dns_result ?r ?i) = Some ip" for ip
    using that entry by (auto simp: dns_result_def dns_entry_ok_def split: option.splits if_splits)
  moreover have "hpet_ticks ?s' = hpet_ticks s" "dev_dns ?s' = dev_dns s" by (subst eq; simp)+
  ultimately show thesis using that [of "fst (dns_result ?r ?i)" ?s'] l by simp
qed

lemma dns_cache_insert_safe:
  assumes ok: "net_ok s" and h: "0 \<in> set h" and ip: "length ip = 4"
  shows "safe (dns_cache_insert h ip ttl s)"
proof -
  obtain j c where c: "dns_cache_insert h ip ttl s = Some (set_dns j c (dns_cache_init s))" "dns_entry_ok c"
    using dns_cache_insert_cases [OF net_ok_dnsD [OF ok] h ip] by metis
  let ?s' = "set_dns j c (dns_cache_init s)"
  have "dns_ok ?s'" using dns_set_ok dns_cache_init_ok net_ok_dnsD [OF ok] c(2) by blast
  moreover have "?s' = s\<lparr>dns_cache := dns_cache ?s', dns_cache_initialized := True, dns_answer_ip := dns_answer_ip ?s',
      dns_answer_ttl := dns_answer_ttl s, dns_have_answer := dns_have_answer s\<rparr>"
    by (simp add: set_dns_def dns_cache_init_def)
  ultimately have "net_ok ?s'" by (rule net_ok_dns [OF ok])
  with c(1) show ?thesis by simp
qed

abbreviation label_char :: "u8 \<Rightarrow> bool" where
  "label_char c \<equiv> c \<noteq> 0 \<and> c \<noteq> 46"

lemma label_len_eq: "0 \<in> set h \<Longrightarrow> label_len h = Some (length (takeWhile label_char h))"
  by (induction h) auto

lemma drop_label:
  assumes "0 \<in> set h"
  shows "h ! length (takeWhile label_char h) = 46 \<Longrightarrow> 0 \<in> set (drop (length (takeWhile label_char h) + 1) h)"
  using assms by (induction h) (auto split: if_splits)

lemma query_labels_step:
  assumes "0 \<in> set h"
  defines "n \<equiv> length (takeWhile label_char h)"
  shows "query_labels h q =
    (if hd h \<noteq> 0 \<and> length q + 1 < 512 then
       if n > 63 \<or> length q + 1 + n \<ge> 512 then Some None
       else if h ! n = 46 then query_labels (drop (n + 1) h) (q @ [of_nat n] @ take n h) else Some (Some (q @ [of_nat n] @ take n h))
     else Some (Some q))"
proof -
  obtain c cs where h: "h = c # cs" using assms(1) by (cases h) auto
  have l: "label_len (c # cs) = Some n" using label_len_eq [OF assms(1)] by (simp add: n_def h)
  show ?thesis by (subst query_labels.simps) (simp add: h l Let_def del: label_len.simps drop_Suc_Cons)
qed

lemma query_labels_total: "0 \<in> set h \<Longrightarrow> query_labels h q \<noteq> None"
proof (induction "length h" arbitrary: h q rule: less_induct)
  case less
  let ?n = "length (takeWhile label_char h)"
  have "length (drop (?n + 1) h) < length h" using less(2) by (cases h) auto
  with less(1) drop_label [OF less(2)] show ?case by (simp add: query_labels_step [OF less(2)])
qed

lemma dns_query_total: "0 \<in> set h \<Longrightarrow> \<exists>r. dns_query ident h = Some r"
  using query_labels_total [of h "[hi8 ident, lo8 ident, 1, 0, 0, 1, 0, 0, 0, 0, 0, 0]"] by (auto simp: dns_query_def)

lemma udp_send_safe:
  assumes ok: "net_ok s" and dst: "length dst = 4"
  shows "\<exists>rc s'. udp_send e (Some dst) sp dp d s = Some (rc, s') \<and> net_ok s' \<and> hpet_ticks s' = hpet_ticks s"
proof -
  let ?s1 = "s\<lparr>allocs := allocs s + 1\<rparr>" let ?p = "udp_datagram (ip_select_src dst ?s1) dst sp dp d"
  have ok1: "net_ok ?s1" using ok by simp
  then have ir: "ip_ok ?s1" "routes_ok ?s1" by (simp_all only: net_ok_def)
  have "\<exists>rc s'. ip_send_packet e dst 17 ?p ?s1 = Some (rc, s') \<and> net_ok s' \<and> hpet_ticks s' = hpet_ticks s" if len: "length d \<le> 65527"
  proof -
    obtain rc s' where s': "ip_send_packet e dst 17 ?p ?s1 = Some (rc, s')" "ip_ok s'" "routes_ok s'" "tx_rest s' = tx_rest ?s1"
      using ip_send_packet_keeps [OF ir dst, of ?p e 17] len by (auto simp: length_udp_datagram keeps_def)
    moreover have "hpet_ticks s' = hpet_ticks s" using s'(4) by (simp add: tx_rest_def)
    ultimately show ?thesis using net_ok_rest [OF ok1 s'(2-4)] by blast
  qed
  with ok1 show ?thesis by (auto simp: udp_send_def try_alloc_def)
qed

lemma net_wait_idle_safe: "net_ok s \<Longrightarrow> safe (net_wait_idle e s)"
proof -
  assume ok: "net_ok s"
  have "safe (ip_arpq_tick e s)" using keeps_safe [OF ok ip_arpq_tick_keeps [of s e]] ok by (simp add: net_ok_def)
  with ok show ?thesis by (auto simp: net_wait_idle_def safe_def)
qed

lemma dns_wait_safe:
  "hooks_ok hk \<Longrightarrow> net_ok s \<Longrightarrow> 0 \<in> set h \<Longrightarrow>
   \<exists>r s'. dns_wait e hk h start polls s = Some (r, s') \<and> net_ok s' \<and> (\<forall>ip. r = Some (Inr ip) \<longrightarrow> length ip = 4) \<and>
     ((\<exists>p \<in> set polls. \<not> fst p - start < 3000) \<longrightarrow> r \<noteq> None)"
proof (induction e hk h start polls s rule: dns_wait.induct)
  case (2 e hk h start ticks ms frame polls s)
  let ?s0 = "s\<lparr>hpet_ticks := ticks, now_ms := ms\<rparr>"
  let ?rx = "if frame \<noteq> [] then ethernet_process_frame e (dns_hooks hk) frame ?s0 else Some ?s0"
  show ?case
  proof (cases "ticks - start < 3000")
    case True
    obtain s1 where s1: "?rx = Some s1" "net_ok s1"
      using ethernet_process_frame_safe [OF dns_hooks_ok [OF 2(2)], of ?s0 e frame] 2(3)
      by (cases "frame = []") (auto simp: safe_def)
    have ipl: "length (dns_answer_ip s1) = 4" using s1(2) by (simp add: net_ok_def dns_ok_def)
    show ?thesis
    proof (cases "dns_have_answer s1")
      case ans: True
      obtain s2 where "dns_cache_insert h (dns_answer_ip s1) (dns_answer_ttl s1) (udp_unregister_handler 40000 s1) = Some s2" "net_ok s2"
        using dns_cache_insert_safe [of "udp_unregister_handler 40000 s1" h "dns_answer_ip s1" "dns_answer_ttl s1"] s1(2) 2(4) ipl
        by (auto simp: safe_def)
      with True ans s1(1) ipl show ?thesis by (simp add: Let_def)
    next
      case ans: False
      let ?idle = "if frame = [] then net_wait_idle e s1 else Some s1"
      obtain s2 where s2: "?idle = Some s2" "net_ok s2"
        using net_wait_idle_safe [OF s1(2), of e] s1(2) by (cases "frame = []") (auto simp: safe_def)
      note ih = 2(1) [OF refl _ s1(1) ans s2(1) 2(2) s2(2) 2(4)]
      show ?thesis using ih True ans s1(1) s2(1) by (auto simp: Let_def)
    qed
  qed (use 2(3) in \<open>simp add: Let_def\<close>)
qed simp

section \<open>Questions and answers as a server sees them\<close>

definition label_ok :: "u8 list \<Rightarrow> bool" where
  "label_ok l \<longleftrightarrow> l \<noteq> [] \<and> length l \<le> 63 \<and> (\<forall>c \<in> set l. label_char c)"

text \<open>A name as the caller writes it and as it is sent.\<close>

fun host :: "u8 list list \<Rightarrow> u8 list" where
  "host [] = [0]"
| "host [l] = l @ [0]"
| "host (l # ls) = l @ 46 # host ls"

definition enc_labels :: "u8 list list \<Rightarrow> u8 list" where
  "enc_labels ls = concat (map (\<lambda>l. of_nat (length l) # l) ls)"

definition question :: "u8 list list \<Rightarrow> u8 list" where
  "question ls = enc_labels ls @ [0, 0, 1, 0, 1]"

lemma take_label:
  "\<forall>c \<in> set l. label_char c \<Longrightarrow> x = 0 \<or> x = 46 \<Longrightarrow> takeWhile label_char (l @ x # rest) = l"
  by (subst takeWhile_append2) auto

lemma host_terminated: "0 \<in> set (host ls)"
  by (induction ls rule: host.induct) auto

lemma query_labels_host:
  "\<forall>l \<in> set ls. label_ok l \<Longrightarrow> ls \<noteq> [] \<Longrightarrow> length q + length (enc_labels ls) < 512 \<Longrightarrow>
   query_labels (host ls) q = Some (Some (q @ enc_labels ls))"
proof (induction ls arbitrary: q rule: host.induct)
  case (2 l)
  then have w: "takeWhile label_char (host [l]) = l" and l: "l \<noteq> []" "length l \<le> 63" "hd l \<noteq> 0"
    by (auto simp: label_ok_def take_label)
  show ?case
    using 2 l by (subst query_labels_step [OF host_terminated]) (simp add: w [simplified] enc_labels_def nth_append)
next
  case (3 l l' ls)
  then have w: "takeWhile label_char (host (l # l' # ls)) = l" and l: "l \<noteq> []" "length l \<le> 63" "hd l \<noteq> 0"
    by (auto simp: label_ok_def take_label)
  have ih: "query_labels (host (l' # ls)) (q @ of_nat (length l) # l) = Some (Some (q @ of_nat (length l) # l @ enc_labels (l' # ls)))"
    using 3(1) [of "q @ of_nat (length l) # l"] 3(2,4) by (simp add: enc_labels_def)
  show ?case
    using 3(4) l ih by (subst query_labels_step [OF host_terminated]) (simp add: w [simplified] enc_labels_def nth_append)
qed simp

lemma skip_labels_enc:
  "\<forall>l \<in> set ls. label_ok l \<Longrightarrow> skip_labels (pre @ enc_labels ls @ 0 # post) (length pre) = length pre + length (enc_labels ls)"
proof (induction ls arbitrary: pre)
  case Nil
  then show ?case by (simp add: skip_labels.simps [of "pre @ _"] enc_labels_def)
next
  case (Cons l ls)
  then have l: "l \<noteq> []" "length l \<le> 63" by (simp_all add: label_ok_def)
  have n: "unat (of_nat (length l) :: u8) = length l" using l(2) by (simp add: unat_of_nat)
  then have nz: "(of_nat (length l) :: u8) \<noteq> 0" using l(1) by (metis length_0_conv unat_0)
  have e: "pre @ enc_labels (l # ls) @ 0 # post = (pre @ of_nat (length l) # l) @ enc_labels ls @ 0 # post" by (simp add: enc_labels_def)
  have "skip_labels (pre @ enc_labels (l # ls) @ 0 # post) (length pre) =
      skip_labels ((pre @ of_nat (length l) # l) @ enc_labels ls @ 0 # post) (length (pre @ of_nat (length l) # l))"
    unfolding e by (subst skip_labels.simps) (simp add: n nz nth_append)
  also have "\<dots> = length (pre @ of_nat (length l) # l) + length (enc_labels ls)" using Cons by (intro Cons.IH) simp
  finally show ?case by (simp add: enc_labels_def)
qed

text \<open>A resource record whose name is a pointer.\<close>

record rr =
  rr_ptr :: u8
  rr_type :: u16
  rr_class :: u16
  rr_ttl :: u32
  rr_data :: "u8 list"

definition enc_rr :: "rr \<Rightarrow> u8 list" where
  "enc_rr r = [0xC0, rr_ptr r, hi8 (rr_type r), lo8 (rr_type r), hi8 (rr_class r), lo8 (rr_class r),
     ucast (drop_bit 24 (rr_ttl r)), ucast (drop_bit 16 (rr_ttl r)), ucast (drop_bit 8 (rr_ttl r)), ucast (rr_ttl r),
     hi8 (of_nat (length (rr_data r))), lo8 (of_nat (length (rr_data r)))] @ rr_data r"

definition is_address :: "rr \<Rightarrow> bool" where
  "is_address r \<longleftrightarrow> rr_type r = 1 \<and> rr_class r = 1 \<and> length (rr_data r) = 4"

lemma bytes_of_u32:
  "push_bit 24 (ucast (ucast (drop_bit 24 w) :: u8)) OR push_bit 16 (ucast (ucast (drop_bit 16 w) :: u8)) OR
   push_bit 8 (ucast (ucast (drop_bit 8 w) :: u8)) OR ucast (ucast w :: u8) = (w :: u32)"
proof (rule bit_word_eqI)
  fix n assume "n < LENGTH(32)"
  then consider "n < 8" | "8 \<le> n" "n < 16" | "16 \<le> n" "n < 24" | "24 \<le> n" "n < 32" by fastforce
  then show "bit (push_bit 24 (ucast (ucast (drop_bit 24 w) :: u8)) OR push_bit 16 (ucast (ucast (drop_bit 16 w) :: u8)) OR
      push_bit 8 (ucast (ucast (drop_bit 8 w) :: u8)) OR ucast (ucast w :: u8) :: u32) n = bit w n"
    by cases (auto simp: bit_simps)
qed

lemma get_at:
  "get8 (pre @ xs) (length pre + k) = get8 xs k" "get16 (pre @ xs) (length pre + k) = get16 xs k"
  "slice (pre @ xs) (length pre + k) n = slice xs k n"
  by (simp_all add: get8_def get16_def slice_def nth_append)

lemma get32_at: "get32 (pre @ xs) (length pre + k) = get32 xs k"
  using get_at(1) [of pre xs k] get_at(1) [of pre xs "k + 1"] get_at(1) [of pre xs "k + 2"] get_at(1) [of pre xs "k + 3"]
  by (simp add: get32_def add.assoc)

lemma first_answer_rr:
  assumes len: "length (rr_data r) \<le> 65535"
  shows "first_answer (pre @ enc_rr r @ rest) (Suc an) (length pre) =
    (if is_address r then Some (Some (rr_data r, rr_ttl r))
     else first_answer (pre @ enc_rr r @ rest) an (length (pre @ enc_rr r)))"
proof -
  let ?xs = "enc_rr r @ rest" let ?p = "pre @ ?xs"
  have n: "unat (of_nat (length (rr_data r)) :: u16) = length (rr_data r)" using len by (simp add: unat_of_nat)
  have n4: "(of_nat (length (rr_data r)) :: u16) = 4 \<longleftrightarrow> length (rr_data r) = 4" using n by (simp add: word_unat_eq_iff)
  have c: "get8 ?p (length pre) = Some 0xC0" using get_at(1) [of pre ?xs 0] by (simp add: enc_rr_def)
  have f: "get16 ?p (length pre + 2) = Some (rr_type r)" "get16 ?p (length pre + 2 + 2) = Some (rr_class r)"
    "get32 ?p (length pre + 2 + 4) = Some (rr_ttl r)" "get16 ?p (length pre + 2 + 8) = Some (of_nat (length (rr_data r)))"
    "slice ?p (length pre + 2 + 10) (length (rr_data r)) = Some (rr_data r)"
    using bytes_of_u32 [of "rr_ttl r"]
    by (simp_all only: get_at get32_at add.assoc) (simp_all add: enc_rr_def get32_def)
  have l: "length ?p = length pre + 12 + length (rr_data r) + length rest" by (simp add: enc_rr_def)
  have e: "length (pre @ enc_rr r) = length pre + 2 + 10 + length (rr_data r)" by (simp add: enc_rr_def)
  show ?thesis unfolding e using f l by (simp add: c n n4 is_address_def Let_def) 
qed

lemma first_answer_skips:
  "\<forall>r \<in> set rs. length (rr_data r) \<le> 65535 \<and> \<not> is_address r \<Longrightarrow> is_address r \<Longrightarrow>
   first_answer (pre @ concat (map enc_rr rs) @ enc_rr r @ rest) (Suc (length rs + k)) (length pre) = Some (Some (rr_data r, rr_ttl r))"
proof (induction rs arbitrary: pre)
  case Nil
  then show ?case using first_answer_rr [of r pre rest k] by (simp add: is_address_def)
next
  case (Cons x rs)
  have "first_answer ((pre @ enc_rr x) @ concat (map enc_rr rs) @ enc_rr r @ rest) (Suc (length rs + k)) (length (pre @ enc_rr x))
      = Some (Some (rr_data r, rr_ttl r))" using Cons by (intro Cons.IH) simp_all
  then show ?case
    using first_answer_rr [of x pre "concat (map enc_rr rs) @ enc_rr r @ rest" "Suc (length rs + k)"] Cons(2) by simp
qed

definition response :: "u16 \<Rightarrow> u16 \<Rightarrow> u8 list \<Rightarrow> u8 list list \<Rightarrow> rr list \<Rightarrow> u8 list \<Rightarrow> u8 list" where
  "response ident flags counts ls answers rest =
    ([hi8 ident, lo8 ident, hi8 flags, lo8 flags, 0, 1, hi8 (of_nat (length answers)), lo8 (of_nat (length answers))] @ counts)
    @ question ls @ concat (map enc_rr answers) @ rest"

lemma skip_question:
  assumes "length hdr = 12" and "\<forall>l \<in> set ls. label_ok l"
  shows "skip_questions (hdr @ question ls @ rest) 1 12 = 12 + length (question ls)"
  using skip_labels_enc [OF assms(2), of hdr "0 # 1 # 0 # 1 # rest"] assms(1) by (simp add: question_def)

section \<open>Properties\<close>






end
