(* ===== verification/Tmpdata.thy ===== *)
theory Tmpdata
  imports Prelude
begin

text \<open>
  The contents of the files of the memory file system, \<^verbatim>\<open>src/src/tmpfs.c\<close>: a file is a
  table of chunks of 64 KiB, a hole where nothing was written. This theory holds the
  routines that work on one inode (\<^verbatim>\<open>tmpfs_free_data\<close>, \<^verbatim>\<open>tmpfs_shrink\<close>, \<^verbatim>\<open>tmpfs_slots\<close>,
  \<^verbatim>\<open>tmpfs_chunk\<close>, \<^verbatim>\<open>tmpfs_set_len\<close> and the copying loops of \<^verbatim>\<open>tmpfs_read\<close> and
  \<^verbatim>\<open>tmpfs_write\<close>), and shows that they implement a plain sequence of bytes: the locale
  \<open>byte_file\<close> states the contract of such a file and its clients' lemmas, and the inode
  is an interpretation of it.

  The chunk table and its size (\<^verbatim>\<open>chunks\<close>, \<^verbatim>\<open>nchunk_slots\<close>) are one list, empty for the
  null table. Sizes and positions are natural numbers; \<open>mod 2 ^ 32\<close> is written out where
  the 32-bit arithmetic of the code can wrap. The heap, the count of free pages and the
  clock are outside the file: the record \<open>tenv\<close> gives their answer to the n-th request.
\<close>

section \<open>Model\<close>

definition TMPFS_CHUNK :: nat where
  "TMPFS_CHUNK = 64 * 1024"

definition TMPFS_MIN_BYTES :: nat where
  "TMPFS_MIN_BYTES = 64 * 1024 * 1024"

definition TMPFS_RESERVE :: nat where
  "TMPFS_RESERVE = 48 * 1024 * 1024"

abbreviation TMPFS_PAGE :: nat where
  "TMPFS_PAGE \<equiv> 4096"

record tenv =
  e_kalloc :: "nat \<Rightarrow> nat \<Rightarrow> bool"
  e_pages :: "nat \<Rightarrow> nat"
  e_clock :: "nat \<Rightarrow> int"

record tinode =
  n_used :: bool
  n_mode :: u32
  n_uid :: u32
  n_gid :: u32
  n_nlink :: nat
  n_opens :: nat
  n_chunks :: "u8 list option list"
  n_size :: nat
  n_target :: "string option"
  n_mtime :: int
  n_ctime :: int

text \<open>The space accounting, and the number of requests made of the environment.\<close>

record space =
  tmpfs_limit_bytes :: nat
  tmpfs_used_bytes :: nat
  requests :: nat

definition tmpfs_now :: "tenv \<Rightarrow> ('a) space_scheme \<Rightarrow> int \<times> ('a) space_scheme" where
  "tmpfs_now e s = (e_clock e (requests s), s\<lparr>requests := Suc (requests s)\<rparr>)"

definition tmpfs_kalloc :: "tenv \<Rightarrow> nat \<Rightarrow> ('a) space_scheme \<Rightarrow> bool \<times> ('a) space_scheme" where
  "tmpfs_kalloc e n s = (e_kalloc e (requests s) n, s\<lparr>requests := Suc (requests s)\<rparr>)"

definition tmpfs_size_from_ram :: "tenv \<Rightarrow> ('a) space_scheme \<Rightarrow> ('a) space_scheme" where
  "tmpfs_size_from_ram e s =
    (let free_b = e_pages e (requests s) * TMPFS_PAGE;
         lim = free_b div 4
     in s\<lparr>tmpfs_limit_bytes := (if lim < TMPFS_MIN_BYTES then TMPFS_MIN_BYTES else lim), requests := Suc (requests s)\<rparr>)"

text \<open>The chunks of a table that hold data.\<close>

definition chunk_count :: "u8 list option list \<Rightarrow> nat" where
  "chunk_count cs = length (filter (\<lambda>c. c \<noteq> None) cs)"

definition tmpfs_free_data :: "tinode \<Rightarrow> ('a) space_scheme \<Rightarrow> tinode \<times> ('a) space_scheme" where
  "tmpfs_free_data n s =
    (n\<lparr>n_chunks := []\<rparr>, s\<lparr>tmpfs_used_bytes := tmpfs_used_bytes s - TMPFS_CHUNK * chunk_count (n_chunks n)\<rparr>)"

definition tmpfs_shrink :: "nat \<Rightarrow> tinode \<Rightarrow> ('a) space_scheme \<Rightarrow> tinode \<times> ('a) space_scheme" where
  "tmpfs_shrink len n s =
    (let keep = (len + TMPFS_CHUNK - 1) mod 2 ^ 32 div TMPFS_CHUNK;
         cs = n_chunks n;
         kept = take keep cs @ replicate (length cs - keep) None;
         s1 = s\<lparr>tmpfs_used_bytes := tmpfs_used_bytes s - TMPFS_CHUNK * chunk_count (drop keep cs)\<rparr>
     in if len mod TMPFS_CHUNK \<noteq> 0 \<and> keep \<noteq> 0 \<and> keep \<le> length cs
        then case kept ! (keep - 1) of
            None \<Rightarrow> (n\<lparr>n_chunks := kept\<rparr>, s1)
          | Some c \<Rightarrow>
              (n\<lparr>n_chunks := kept[keep - 1 :=
                 Some (blit c (len mod TMPFS_CHUNK) (replicate (TMPFS_CHUNK - len mod TMPFS_CHUNK) 0))]\<rparr>, s1)
        else (n\<lparr>n_chunks := kept\<rparr>, s1))"

text \<open>\<^verbatim>\<open>while (ns < want) ns *= 2;\<close> from a number of slots that is not zero.\<close>

function grow_slots :: "nat \<Rightarrow> nat \<Rightarrow> nat" where
  "grow_slots ns want = (if 0 < ns \<and> ns < want then grow_slots (ns * 2) want else ns)"
  by pat_completeness auto
termination
  by (relation "measure (\<lambda>(ns, want). want - ns)") auto

declare grow_slots.simps [simp del]

definition tmpfs_slots ::
  "tenv \<Rightarrow> nat \<Rightarrow> tinode \<Rightarrow> ('a) space_scheme \<Rightarrow> unit res \<times> tinode \<times> ('a) space_scheme" where
  "tmpfs_slots e need n s =
    (if need > 0xFFFFFFFF then (Inl ENOSPC, n, s)
     else if need > tmpfs_limit_bytes s then (Inl ENOSPC, n, s)
     else
       let want = (need + TMPFS_CHUNK - 1) div TMPFS_CHUNK;
           slots = length (n_chunks n)
       in if want \<le> slots then (Inr (), n, s)
          else
            let ns = grow_slots (if slots \<noteq> 0 then slots else 4) want;
                (ok, s1) = tmpfs_kalloc e (ns * 8) s
            in if \<not> ok then (Inl ENOSPC, n, s1)
               else (Inr (), n\<lparr>n_chunks := n_chunks n @ replicate (ns - slots) None\<rparr>, s1))"

text \<open>The chunk \<open>ci\<close>, made of zeros when it is a hole: \<open>False\<close> where the code returns \<^verbatim>\<open>NULL\<close>.\<close>

definition tmpfs_chunk ::
  "tenv \<Rightarrow> nat \<Rightarrow> tinode \<Rightarrow> ('a) space_scheme \<Rightarrow> bool \<times> tinode \<times> ('a) space_scheme" where
  "tmpfs_chunk e ci n s =
    (if ci \<ge> length (n_chunks n) then (False, n, s)
     else if n_chunks n ! ci \<noteq> None then (True, n, s)
     else if tmpfs_used_bytes s + TMPFS_CHUNK > tmpfs_limit_bytes s then (False, n, s)
     else if e_pages e (requests s) * TMPFS_PAGE < TMPFS_RESERVE + TMPFS_CHUNK then (False, n, s)
     else
       let (ok, s1) = tmpfs_kalloc e TMPFS_CHUNK s
       in if \<not> ok then (False, n, s1)
          else (True, n\<lparr>n_chunks := (n_chunks n)[ci := Some (replicate TMPFS_CHUNK 0)]\<rparr>,
                s1\<lparr>tmpfs_used_bytes := tmpfs_used_bytes s1 + TMPFS_CHUNK\<rparr>))"

text \<open>The copying loop of \<^verbatim>\<open>tmpfs_read\<close>, from \<open>done\<close> bytes on.\<close>

function copy_out :: "tinode \<Rightarrow> nat \<Rightarrow> nat \<Rightarrow> nat \<Rightarrow> u8 list" where
  "copy_out n pos sz done =
    (if done < sz then
       let off = pos + done;
           ci = off div TMPFS_CHUNK;
           co = off mod TMPFS_CHUNK;
           c = min (TMPFS_CHUNK - co) (sz - done);
           src = (if ci < length (n_chunks n) then n_chunks n ! ci else None)
       in (case src of Some b \<Rightarrow> take c (drop co b) | None \<Rightarrow> replicate c 0) @ copy_out n pos sz (done + c)
     else [])"
  by pat_completeness auto
termination
  by (relation "measure (\<lambda>(n, pos, sz, done). sz - done)") (auto simp: TMPFS_CHUNK_def)

declare copy_out.simps [simp del]

text \<open>The copying loop of \<^verbatim>\<open>tmpfs_write\<close>: it stops early when there is no room for a chunk.\<close>

function copy_in ::
  "tenv \<Rightarrow> nat \<Rightarrow> u8 list \<Rightarrow> nat \<Rightarrow> tinode \<Rightarrow> ('a) space_scheme \<Rightarrow> nat \<times> tinode \<times> ('a) space_scheme" where
  "copy_in e pos buffer done n s =
    (if done < length buffer then
       let off = pos + done;
           ci = off div TMPFS_CHUNK;
           co = off mod TMPFS_CHUNK;
           c = min (TMPFS_CHUNK - co) (length buffer - done)
       in case tmpfs_chunk e ci n s of
            (False, n1, s1) \<Rightarrow> (done, n1, s1)
          | (True, n1, s1) \<Rightarrow>
              copy_in e pos buffer (done + c)
                (n1\<lparr>n_chunks := (n_chunks n1)[ci := map_option (\<lambda>b. blit b co (take c (drop done buffer))) (n_chunks n1 ! ci)]\<rparr>) s1
     else (done, n, s))"
  by pat_completeness auto
termination
  by (relation "measure (\<lambda>(e, pos, buffer, done, n, s). length buffer - done)") (auto simp: TMPFS_CHUNK_def)

declare copy_in.simps [simp del]

definition tmpfs_set_len ::
  "tenv \<Rightarrow> nat \<Rightarrow> tinode \<Rightarrow> ('a) space_scheme \<Rightarrow> unit res \<times> tinode \<times> ('a) space_scheme" where
  "tmpfs_set_len e len n s =
    (let (rc, n1, s1) = (if len > n_size n then tmpfs_slots e len n s
                         else case tmpfs_shrink len n s of (n1, s1) \<Rightarrow> (Inr (), n1, s1))
     in case rc of
          Inl err \<Rightarrow> (Inl err, n1, s1)
        | Inr _ \<Rightarrow>
            let (now, s2) = tmpfs_now e s1
            in (Inr (), n1\<lparr>n_size := len, n_mtime := now, n_ctime := now\<rparr>, s2))"

text \<open>The parts of \<^verbatim>\<open>tmpfs_read\<close> and \<^verbatim>\<open>tmpfs_write\<close> behind the checks of the handle.\<close>

definition read_inode :: "tinode \<Rightarrow> nat \<Rightarrow> nat \<Rightarrow> u8 list" where
  "read_inode n pos sz =
    (if pos \<ge> n_size n then []
     else let avail = n_size n - pos in copy_out n pos (if sz > avail then avail else sz) 0)"

definition write_inode ::
  "tenv \<Rightarrow> nat \<Rightarrow> u8 list \<Rightarrow> tinode \<Rightarrow> ('a) space_scheme \<Rightarrow> nat res \<times> tinode \<times> ('a) space_scheme" where
  "write_inode e pos buffer n s =
    (if buffer = [] then (Inr 0, n, s)
     else case tmpfs_slots e (pos + length buffer) n s of
         (Inl err, n1, s1) \<Rightarrow> (Inl err, n1, s1)
       | (Inr _, n1, s1) \<Rightarrow>
           let (d, n2, s2) = copy_in e pos buffer 0 n1 s1
           in if d = 0 then (Inl ENOSPC, n2, s2)
              else
                let (now, s3) = tmpfs_now e s2
                in (Inr d, n2\<lparr>n_size := (if pos + d > n_size n2 then pos + d else n_size n2),
                              n_mtime := now, n_ctime := now\<rparr>, s3))"

section \<open>The bytes of an inode\<close>

definition chunks_ok :: "u8 list option list \<Rightarrow> bool" where
  "chunks_ok cs \<longleftrightarrow> (\<forall>c \<in> set cs. \<forall>b. c = Some b \<longrightarrow> length b = TMPFS_CHUNK)"

definition byte_at :: "u8 list option list \<Rightarrow> nat \<Rightarrow> u8" where
  "byte_at cs k =
    (if k div TMPFS_CHUNK < length cs
     then case cs ! (k div TMPFS_CHUNK) of Some b \<Rightarrow> b ! (k mod TMPFS_CHUNK) | None \<Rightarrow> 0
     else 0)"

definition content :: "tinode \<Rightarrow> u8 list" where
  "content n = map (byte_at (n_chunks n)) [0..<n_size n]"

text \<open>What lies behind the end of the file is zero, so that growing it again shows zeros.\<close>

definition data_ok :: "tinode \<Rightarrow> bool" where
  "data_ok n \<longleftrightarrow> chunks_ok (n_chunks n) \<and> n_size n < 2 ^ 32 \<and> (\<forall>k \<ge> n_size n. byte_at (n_chunks n) k = 0)"

lemma chunk_pos [simp]: "0 < TMPFS_CHUNK"
  by (simp add: TMPFS_CHUNK_def)

lemma chunks_okD: "chunks_ok cs \<Longrightarrow> i < length cs \<Longrightarrow> cs ! i = Some b \<Longrightarrow> length b = TMPFS_CHUNK"
  by (auto simp: chunks_ok_def) (metis nth_mem)

lemma chunks_ok_update: "chunks_ok cs \<Longrightarrow> length b = TMPFS_CHUNK \<Longrightarrow> chunks_ok (cs[i := Some b])"
  by (auto simp: chunks_ok_def dest!: set_update_subset_insert [THEN subsetD])

lemma byte_at_append_holes [simp]: "byte_at (cs @ replicate m None) k = byte_at cs k"
  by (auto simp: byte_at_def nth_append)

lemma byte_at_holes [simp]: "byte_at [] k = 0" "byte_at (replicate m None) k = 0"
  by (auto simp: byte_at_def)

lemma byte_at_update:
  "i < length cs \<Longrightarrow> byte_at (cs[i := Some b]) k =
    (if k div TMPFS_CHUNK = i then b ! (k mod TMPFS_CHUNK) else byte_at cs k)"
  by (auto simp: byte_at_def)

text \<open>Positions within one chunk.\<close>

lemma same_chunk_iff:
  assumes "off mod TMPFS_CHUNK + c \<le> TMPFS_CHUNK" and "c \<noteq> 0"
  shows "off \<le> k \<and> k < off + c \<longleftrightarrow>
    k div TMPFS_CHUNK = off div TMPFS_CHUNK \<and> off mod TMPFS_CHUNK \<le> k mod TMPFS_CHUNK \<and>
    k mod TMPFS_CHUNK < off mod TMPFS_CHUNK + c"
proof -
  let ?C = TMPFS_CHUNK
  have o: "off = off div ?C * ?C + off mod ?C" and k: "k = k div ?C * ?C + k mod ?C" by simp_all
  show ?thesis
  proof (cases "k div ?C = off div ?C")
    case True
    then show ?thesis using o k by (metis add_le_cancel_left nat_add_left_cancel_less add.assoc)
  next
    case False
    have "\<not> (off \<le> k \<and> k < off + c)"
    proof
      assume b: "off \<le> k \<and> k < off + c"
      then have "off div ?C \<le> k div ?C" by (simp add: div_le_mono)
      moreover have "k < Suc (off div ?C) * ?C" using b assms o unfolding mult_Suc by linarith
      then have "k div ?C < Suc (off div ?C)" by (simp add: less_mult_imp_div_less)
      ultimately show False using False by simp
    qed
    with False show ?thesis by simp
  qed
qed

lemma chunk_offset:
  assumes "off mod TMPFS_CHUNK + i < TMPFS_CHUNK"
  shows "(off + i) div TMPFS_CHUNK = off div TMPFS_CHUNK" "(off + i) mod TMPFS_CHUNK = off mod TMPFS_CHUNK + i"
proof -
  have "off \<le> off + i \<and> off + i < off + Suc i" by simp
  with assms same_chunk_iff [of off "Suc i" "off + i"]
  show "(off + i) div TMPFS_CHUNK = off div TMPFS_CHUNK" by simp
  show "(off + i) mod TMPFS_CHUNK = off mod TMPFS_CHUNK + i"
    using assms by (metis add.commute mod_add_right_eq mod_less)
qed

lemma chunk_piece:
  assumes "chunks_ok cs" and "off mod TMPFS_CHUNK + c \<le> TMPFS_CHUNK"
  shows "(case (if off div TMPFS_CHUNK < length cs then cs ! (off div TMPFS_CHUNK) else None) of
      Some b \<Rightarrow> take c (drop (off mod TMPFS_CHUNK) b) | None \<Rightarrow> replicate c 0) =
    map (byte_at cs) [off..<off + c]"
proof (rule nth_equalityI)
  fix i
  assume "i < length (case (if off div TMPFS_CHUNK < length cs then cs ! (off div TMPFS_CHUNK) else None) of
      Some b \<Rightarrow> take c (drop (off mod TMPFS_CHUNK) b) | None \<Rightarrow> replicate c 0)"
  then have "i < c" by (auto split: option.splits)
  with assms chunk_offset [of off i]
  show "(case (if off div TMPFS_CHUNK < length cs then cs ! (off div TMPFS_CHUNK) else None) of
      Some b \<Rightarrow> take c (drop (off mod TMPFS_CHUNK) b) | None \<Rightarrow> replicate c 0) ! i =
    map (byte_at cs) [off..<off + c] ! i"
    by (auto simp: byte_at_def split: option.splits dest: chunks_okD)
qed (use assms in \<open>auto split: option.splits dest: chunks_okD\<close>)

lemma copy_out_eq:
  "chunks_ok (n_chunks n) \<Longrightarrow> d \<le> sz \<Longrightarrow>
   copy_out n pos sz d = map (byte_at (n_chunks n)) [pos + d..<pos + sz]"
proof (induction n pos sz d rule: copy_out.induct)
  case (1 n pos sz d)
  show ?case
  proof (cases "d < sz")
    case True
    let ?off = "pos + d"
    let ?c = "min (TMPFS_CHUNK - ?off mod TMPFS_CHUNK) (sz - d)"
    have c: "?off mod TMPFS_CHUNK + ?c \<le> TMPFS_CHUNK" "d + ?c \<le> sz"
      using True mod_less_divisor [OF chunk_pos, of ?off] by linarith+
    have "copy_out n pos sz d = map (byte_at (n_chunks n)) [?off..<?off + ?c] @ copy_out n pos sz (d + ?c)"
      using True chunk_piece [OF "1.prems"(1) c(1)] by (simp add: copy_out.simps [of n pos sz d] Let_def)
    also have "copy_out n pos sz (d + ?c) = map (byte_at (n_chunks n)) [?off + ?c..<pos + sz]"
      using "1.IH" [OF True refl refl refl refl refl "1.prems"(1) c(2)] by (simp add: add.assoc)
    finally show ?thesis
      using c(2) upt_add_eq_append [of ?off "?off + ?c" "sz - d - ?c"] by simp
  qed (use "1.prems" in \<open>simp add: copy_out.simps\<close>)
qed

section \<open>Growing, shrinking and writing\<close>

text \<open>
  A routine that only changes the chunks of an inode, and books in \<^verbatim>\<open>tmpfs_used_bytes\<close> the chunks it adds
  or drops.
\<close>

definition accounted :: "tinode \<Rightarrow> ('a) space_scheme \<Rightarrow> tinode \<Rightarrow> ('a) space_scheme \<Rightarrow> bool" where
  "accounted n s n' s' \<longleftrightarrow>
    n' = n\<lparr>n_chunks := n_chunks n'\<rparr> \<and>
    s' = s\<lparr>tmpfs_used_bytes := tmpfs_used_bytes s', requests := requests s'\<rparr> \<and>
    tmpfs_used_bytes s' + TMPFS_CHUNK * chunk_count (n_chunks n) =
      tmpfs_used_bytes s + TMPFS_CHUNK * chunk_count (n_chunks n')"

lemma accounted_refl: "accounted n s n (s\<lparr>requests := r\<rparr>)"
  by (simp add: accounted_def)

lemma accounted_trans: "accounted n s n1 s1 \<Longrightarrow> accounted n1 s1 n2 s2 \<Longrightarrow> accounted n s n2 s2"
  by (cases n; cases n1; cases n2; cases s; cases s1; cases s2) (simp add: accounted_def)

lemma chunk_count_simps [simp]:
  "chunk_count [] = 0" "chunk_count (xs @ ys) = chunk_count xs + chunk_count ys"
  "chunk_count (replicate m None) = 0"
  by (simp_all add: chunk_count_def)

lemma chunk_count_update:
  "i < length cs \<Longrightarrow> chunk_count (cs[i := Some b]) = (if cs ! i = None then Suc (chunk_count cs) else chunk_count cs)"
  by (induction cs arbitrary: i) (auto simp: chunk_count_def nth_Cons' split: nat.splits list.splits)

lemma chunk_count_same: "map (\<lambda>c. c = None) xs = map (\<lambda>c. c = None) ys \<Longrightarrow> chunk_count xs = chunk_count ys"
  by (induction xs ys rule: list_induct2') (auto simp: chunk_count_def)

lemma chunk_count_take_drop: "chunk_count (take k cs) + chunk_count (drop k cs) = chunk_count cs"
  by (metis append_take_drop_id chunk_count_simps(2))

lemma grow_slots_enough: "0 < ns \<Longrightarrow> want \<le> grow_slots ns want \<and> ns \<le> grow_slots ns want"
proof (induction ns want rule: grow_slots.induct)
  case (1 ns want)
  then show ?case by (cases "ns < want") (auto simp: grow_slots.simps [of ns want])
qed

text \<open>The number of chunks of a file of \<open>len\<close> bytes.\<close>

lemma ceil_eq: "(len + TMPFS_CHUNK - 1) div TMPFS_CHUNK = len div TMPFS_CHUNK + (if len mod TMPFS_CHUNK = 0 then 0 else 1)"
proof -
  let ?C = TMPFS_CHUNK
  have l: "len = len mod ?C + len div ?C * ?C" by simp
  have "len + ?C - 1 = (len mod ?C + ?C - 1) + len div ?C * ?C"
    using l chunk_pos by linarith
  then have "(len + ?C - 1) div ?C = len div ?C + (len mod ?C + ?C - 1) div ?C"
    by (metis chunk_pos div_mult_self1 less_not_refl)
  moreover have "(len mod ?C + ?C - 1) div ?C = (if len mod ?C = 0 then 0 else 1)"
  proof (cases "len mod ?C = 0")
    case False
    then have "len mod ?C + ?C - 1 = (len mod ?C - 1) + 1 * ?C" by linarith
    then have "(len mod ?C + ?C - 1) div ?C = 1 + (len mod ?C - 1) div ?C"
      by (metis chunk_pos div_mult_self1 less_not_refl)
    moreover have "len mod ?C - 1 < ?C" using mod_less_divisor [OF chunk_pos, of len] by linarith
    ultimately show ?thesis using False by simp
  qed (simp add: div_less)
  ultimately show ?thesis by simp
qed

lemma ceil_chunk: "need \<le> (need + TMPFS_CHUNK - 1) div TMPFS_CHUNK * TMPFS_CHUNK"
proof -
  have "need \<le> Suc (need div TMPFS_CHUNK) * TMPFS_CHUNK"
    using div_mult_mod_eq [of need TMPFS_CHUNK] mod_less_divisor [OF chunk_pos, of need] unfolding mult_Suc by linarith
  then show ?thesis unfolding ceil_eq using div_mult_mod_eq [of need TMPFS_CHUNK] by auto
qed

lemma tmpfs_slots_spec:
  assumes "tmpfs_slots e need n s = (r, n', s')"
  shows "accounted n s n' s'" "byte_at (n_chunks n') = byte_at (n_chunks n)"
    "chunks_ok (n_chunks n) \<Longrightarrow> chunks_ok (n_chunks n')"
    "r = Inr () \<Longrightarrow> need \<le> length (n_chunks n') * TMPFS_CHUNK \<and> need < 2 ^ 32 \<and> need \<le> tmpfs_limit_bytes s"
    "r = Inr () \<or> r = Inl ENOSPC"
proof -
  let ?want = "(need + TMPFS_CHUNK - 1) div TMPFS_CHUNK"
  let ?ns = "grow_slots (if length (n_chunks n) \<noteq> 0 then length (n_chunks n) else 4) ?want"
  have ns: "?want \<le> ?ns" "length (n_chunks n) \<le> ?ns"
    using grow_slots_enough [of "if length (n_chunks n) \<noteq> 0 then length (n_chunks n) else 4" ?want] by auto
  have l: "need \<le> m * TMPFS_CHUNK" if "?want \<le> m" for m
    using ceil_chunk [of need] that by (meson le_trans mult_le_mono1)
  show "accounted n s n' s'" "byte_at (n_chunks n') = byte_at (n_chunks n)"
    "chunks_ok (n_chunks n) \<Longrightarrow> chunks_ok (n_chunks n')" "r = Inr () \<or> r = Inl ENOSPC"
    using assms by (auto simp: tmpfs_slots_def tmpfs_kalloc_def Let_def accounted_def chunks_ok_def fun_eq_iff split: if_splits)
  show "r = Inr () \<Longrightarrow> need \<le> length (n_chunks n') * TMPFS_CHUNK \<and> need < 2 ^ 32 \<and> need \<le> tmpfs_limit_bytes s"
    using assms l [of "length (n_chunks n)"] l [OF ns(1)] ns(2)
    by (simp add: tmpfs_slots_def tmpfs_kalloc_def Let_def split: if_splits) auto
qed

lemma byte_at_hole: "i < length cs \<Longrightarrow> cs ! i = None \<Longrightarrow> byte_at (cs[i := Some (replicate TMPFS_CHUNK 0)]) k = byte_at cs k"
  by (auto simp: byte_at_def nth_list_update)

lemma tmpfs_chunk_spec:
  assumes "tmpfs_chunk e ci n s = (ok, n', s')" and "chunks_ok (n_chunks n)"
  shows "accounted n s n' s'" "byte_at (n_chunks n') = byte_at (n_chunks n)" "chunks_ok (n_chunks n')"
    "length (n_chunks n') = length (n_chunks n)"
    "ok \<Longrightarrow> ci < length (n_chunks n) \<and> (\<exists>b. n_chunks n' ! ci = Some b)"
  using assms
  by (auto simp: tmpfs_chunk_def tmpfs_kalloc_def Let_def accounted_def chunk_count_update chunks_ok_update byte_at_hole
      fun_eq_iff not_le split: if_splits)

lemma byte_at_blit:
  assumes "chunks_ok cs" and "off div TMPFS_CHUNK < length cs" and "cs ! (off div TMPFS_CHUNK) = Some b"
    and "off mod TMPFS_CHUNK + length x \<le> TMPFS_CHUNK" and "x \<noteq> []"
  shows "byte_at (cs[off div TMPFS_CHUNK := Some (blit b (off mod TMPFS_CHUNK) x)]) k =
    (if off \<le> k \<and> k < off + length x then x ! (k - off) else byte_at cs k)"
proof -
  have lb: "length b = TMPFS_CHUNK" using assms(1-3) by (rule chunks_okD)
  have i: "k mod TMPFS_CHUNK - off mod TMPFS_CHUNK = k - off"
    if "k div TMPFS_CHUNK = off div TMPFS_CHUNK" "off mod TMPFS_CHUNK \<le> k mod TMPFS_CHUNK"
    using that by (metis add_diff_cancel_left div_mult_mod_eq)
  have "off \<le> k \<and> k < off + length x \<longleftrightarrow> k div TMPFS_CHUNK = off div TMPFS_CHUNK \<and>
      off mod TMPFS_CHUNK \<le> k mod TMPFS_CHUNK \<and> k mod TMPFS_CHUNK < off mod TMPFS_CHUNK + length x"
    using assms(4,5) by (intro same_chunk_iff) auto
  with assms i lb show ?thesis
    by (simp add: byte_at_update nth_blit) (auto simp: byte_at_def)
qed

lemma chunk_step:
  assumes "tmpfs_chunk e ((pos + d) div TMPFS_CHUNK) n s = (True, n1, s1)" and "chunks_ok (n_chunks n)"
    and "d < length buffer"
    and "c = min (TMPFS_CHUNK - (pos + d) mod TMPFS_CHUNK) (length buffer - d)"
    and "ci = (pos + d) div TMPFS_CHUNK" and "co = (pos + d) mod TMPFS_CHUNK"
    and "cs = (n_chunks n1)[ci := map_option (\<lambda>b. blit b co (take c (drop d buffer))) (n_chunks n1 ! ci)]"
  shows "accounted n s (n1\<lparr>n_chunks := cs\<rparr>) s1" "chunks_ok cs" "d + c \<le> length buffer"
    "byte_at cs k = (if pos + d \<le> k \<and> k < pos + (d + c) then buffer ! (k - pos) else byte_at (n_chunks n) k)"
proof -
  have c: "co + c \<le> TMPFS_CHUNK" "d + c \<le> length buffer" "c \<noteq> 0"
    using assms(3,4,6) mod_less_divisor [OF chunk_pos, of "pos + d"] by linarith+
  note sp = tmpfs_chunk_spec [OF assms(1,2)]
  obtain b where ci: "ci < length (n_chunks n1)" and b: "n_chunks n1 ! ci = Some b" using sp(4,5) assms(5) by auto
  define x where "x = take c (drop d buffer)"
  have x: "length x = c" "x \<noteq> []" and nx: "i < c \<Longrightarrow> x ! i = buffer ! (d + i)" for i
    using c by (auto simp: x_def)
  have cs: "cs = (n_chunks n1)[ci := Some (blit b co x)]" using assms(7) b by (simp add: x_def)
  have "length b = TMPFS_CHUNK" using sp(3) ci b by (rule chunks_okD)
  then show "chunks_ok cs" using c x sp(3) by (simp add: cs chunks_ok_update length_blit)
  have "accounted n1 s1 (n1\<lparr>n_chunks := cs\<rparr>) s1" using ci b by (simp add: accounted_def chunk_count_update cs)
  with sp(1) show "accounted n s (n1\<lparr>n_chunks := cs\<rparr>) s1" by (rule accounted_trans)
  show "d + c \<le> length buffer" by fact
  have "byte_at cs k = (if pos + d \<le> k \<and> k < pos + d + length x then x ! (k - (pos + d)) else byte_at (n_chunks n) k)"
    using byte_at_blit [OF sp(3), of "pos + d" b x k] ci b c x sp(2) assms(5,6) by (simp add: cs)
  then show "byte_at cs k = (if pos + d \<le> k \<and> k < pos + (d + c) then buffer ! (k - pos) else byte_at (n_chunks n) k)"
    using nx [of "k - (pos + d)"] x(1) by (auto simp: add.assoc)
qed

lemma copy_in_spec:
  assumes "copy_in e pos buffer d n s = (d', n', s')" and "chunks_ok (n_chunks n)" and "d \<le> length buffer"
  shows "accounted n s n' s' \<and> chunks_ok (n_chunks n') \<and> d \<le> d' \<and> d' \<le> length buffer \<and>
    (\<forall>k. byte_at (n_chunks n') k = (if pos + d \<le> k \<and> k < pos + d' then buffer ! (k - pos) else byte_at (n_chunks n) k))"
  using assms
proof (induction e pos buffer d n s rule: copy_in.induct)
  case (1 e pos buffer d n s)
  show ?case
  proof (cases "d < length buffer")
    case True
    obtain ok n1 s1 where ch: "tmpfs_chunk e ((pos + d) div TMPFS_CHUNK) n s = (ok, n1, s1)"
      by (cases "tmpfs_chunk e ((pos + d) div TMPFS_CHUNK) n s") auto
    show ?thesis
    proof (cases ok)
      case False
      then show ?thesis
        using "1.prems"(1) True ch tmpfs_chunk_spec [OF ch "1.prems"(2)]
        by (auto simp: copy_in.simps [of e pos buffer d n s] Let_def)
    next
      case ok: True
      define c ci co where "c = min (TMPFS_CHUNK - (pos + d) mod TMPFS_CHUNK) (length buffer - d)"
        and "ci = (pos + d) div TMPFS_CHUNK" and "co = (pos + d) mod TMPFS_CHUNK"
      define cs where "cs = (n_chunks n1)[ci := map_option (\<lambda>b. blit b co (take c (drop d buffer))) (n_chunks n1 ! ci)]"
      note st = chunk_step [OF ch [unfolded ok [THEN eqTrueI]] "1.prems"(2) True c_def ci_def co_def cs_def]
      have cp: "copy_in e pos buffer (d + c) (n1\<lparr>n_chunks := cs\<rparr>) s1 = (d', n', s')"
        using "1.prems"(1) True ch ok
        by (simp add: copy_in.simps [of e pos buffer d n s] Let_def c_def ci_def co_def cs_def)
      have "accounted (n1\<lparr>n_chunks := cs\<rparr>) s1 n' s' \<and> chunks_ok (n_chunks n') \<and> d + c \<le> d' \<and> d' \<le> length buffer \<and>
          (\<forall>k. byte_at (n_chunks n') k = (if pos + (d + c) \<le> k \<and> k < pos + d' then buffer ! (k - pos) else byte_at cs k))"
        using "1.IH" [OF True refl refl refl refl ch [symmetric] _ refl] ok cp st(2,3)
        by (simp add: c_def ci_def co_def cs_def)
      with st(1,4) accounted_trans [OF st(1)] show ?thesis by auto
    qed
  qed (use "1.prems" accounted_refl [of n s "requests s"] in \<open>auto simp: copy_in.simps\<close>)
qed

text \<open>
  When every request is granted and the limit leaves room for the first \<open>want\<close> chunks, a copy into them is
  complete.
\<close>

definition grants :: "tenv \<Rightarrow> bool" where
  "grants e \<longleftrightarrow> (\<forall>r m. e_kalloc e r m) \<and> (\<forall>r. TMPFS_RESERVE + TMPFS_CHUNK \<le> e_pages e r * TMPFS_PAGE)"

definition room :: "nat \<Rightarrow> u8 list option list \<Rightarrow> ('a) space_scheme \<Rightarrow> bool" where
  "room want cs s \<longleftrightarrow> want \<le> length cs \<and>
    tmpfs_used_bytes s + TMPFS_CHUNK * want \<le> tmpfs_limit_bytes s + TMPFS_CHUNK * chunk_count (take want cs)"

lemma chunk_count_hole: "i < length cs \<Longrightarrow> cs ! i = None \<Longrightarrow> chunk_count cs < length cs"
  unfolding chunk_count_def by (rule length_filter_less) (auto simp: in_set_conv_nth)

lemma tmpfs_chunk_room:
  assumes "grants e" and "room want (n_chunks n) s" and "ci < want"
  obtains n1 s1 where "tmpfs_chunk e ci n s = (True, n1, s1)" "room want (n_chunks n1) s1"
proof (cases "n_chunks n ! ci = None")
  case True
  let ?cs = "n_chunks n"
  have ci: "ci < length ?cs" using assms(2,3) by (simp add: room_def)
  have lt: "chunk_count (take want ?cs) < want"
    using chunk_count_hole [of ci "take want ?cs"] assms(2,3) True by (simp add: room_def min_absorb2)
  then have le: "TMPFS_CHUNK * chunk_count (take want ?cs) + TMPFS_CHUNK \<le> TMPFS_CHUNK * want"
    by (metis Suc_leI add.commute mult_Suc_right mult_le_mono2)
  have "tmpfs_chunk e ci n s = (True, n\<lparr>n_chunks := ?cs[ci := Some (replicate TMPFS_CHUNK 0)]\<rparr>,
      s\<lparr>requests := Suc (requests s), tmpfs_used_bytes := tmpfs_used_bytes s + TMPFS_CHUNK\<rparr>)"
    using assms(1,2) ci True le by (auto simp: tmpfs_chunk_def tmpfs_kalloc_def grants_def room_def not_less)
  moreover have "room want (?cs[ci := Some (replicate TMPFS_CHUNK 0)])
      (s\<lparr>requests := Suc (requests s), tmpfs_used_bytes := tmpfs_used_bytes s + TMPFS_CHUNK\<rparr>)"
    using assms(2,3) ci True by (simp add: room_def take_update_swap chunk_count_update)
  ultimately show thesis using that by simp
next
  case False
  then have "tmpfs_chunk e ci n s = (True, n, s)" using assms(2,3) by (simp add: tmpfs_chunk_def room_def)
  then show thesis using that assms(2) by blast
qed

lemma copy_in_full:
  assumes "grants e" and "room want (n_chunks n) s" and "pos + length buffer \<le> want * TMPFS_CHUNK" and "d \<le> length buffer"
  shows "fst (copy_in e pos buffer d n s) = length buffer"
  using assms
proof (induction e pos buffer d n s rule: copy_in.induct)
  case (1 e pos buffer d n s)
  show ?case
  proof (cases "d < length buffer")
    case True
    define c ci co where "c = min (TMPFS_CHUNK - (pos + d) mod TMPFS_CHUNK) (length buffer - d)"
      and "ci = (pos + d) div TMPFS_CHUNK" and "co = (pos + d) mod TMPFS_CHUNK"
    have ci: "ci < want" using True "1.prems"(3) unfolding ci_def by (intro less_mult_imp_div_less) linarith
    obtain n1 s1 where ch: "tmpfs_chunk e ci n s = (True, n1, s1)" and rm: "room want (n_chunks n1) s1"
      using tmpfs_chunk_room [OF "1.prems"(1,2) ci] by blast
    define cs where "cs = (n_chunks n1)[ci := map_option (\<lambda>b. blit b co (take c (drop d buffer))) (n_chunks n1 ! ci)]"
    have "map (\<lambda>c. c = None) cs = map (\<lambda>c. c = None) (n_chunks n1)"
      using rm ci by (intro nth_equalityI) (auto simp: cs_def nth_list_update room_def)
    then have "room want cs s1"
      using rm chunk_count_same [of "take want cs" "take want (n_chunks n1)"] by (simp add: room_def take_map [symmetric] cs_def)
    moreover have "copy_in e pos buffer d n s = copy_in e pos buffer (d + c) (n1\<lparr>n_chunks := cs\<rparr>) s1"
      using True ch by (simp add: copy_in.simps [of e pos buffer d n s] Let_def c_def ci_def co_def cs_def)
    moreover have "d + c \<le> length buffer" using True unfolding c_def by linarith
    ultimately show ?thesis
      using "1.IH" [OF True refl refl refl refl ch [unfolded ci_def, symmetric] refl refl] "1.prems"
      by (simp add: c_def ci_def co_def cs_def)
  qed (use "1.prems" in \<open>simp add: copy_in.simps\<close>)
qed

lemma shrink_keep:
  assumes "len < 2 ^ 32"
  shows "(len + TMPFS_CHUNK - 1) mod 2 ^ 32 div TMPFS_CHUNK =
    (if len + TMPFS_CHUNK \<le> 2 ^ 32 then (len + TMPFS_CHUNK - 1) div TMPFS_CHUNK else 0)"
proof (cases "len + TMPFS_CHUNK \<le> 2 ^ 32")
  case True
  then show ?thesis by (simp add: mod_less TMPFS_CHUNK_def)
next
  case False
  then have "(len + TMPFS_CHUNK - 1) mod 2 ^ 32 = len + TMPFS_CHUNK - 1 - 2 ^ 32"
    using assms by (subst le_mod_geq) (auto simp: TMPFS_CHUNK_def mod_less)
  with False assms show ?thesis by (simp add: div_less)
qed

text \<open>The table after \<^verbatim>\<open>tmpfs_shrink\<close> when it keeps \<open>keep\<close> chunks and zeroes the last of them from \<open>r\<close> on.\<close>

lemma byte_at_kept:
  "byte_at (take keep cs @ replicate (length cs - keep) None) k =
    (if k div TMPFS_CHUNK < keep then byte_at cs k else 0)"
  by (auto simp: byte_at_def nth_append)

lemma tmpfs_shrink_eq:
  assumes "tmpfs_shrink len n s = (n', s')" and "chunks_ok (n_chunks n)"
    and "keep = (len + TMPFS_CHUNK - 1) mod 2 ^ 32 div TMPFS_CHUNK"
  shows "chunks_ok (n_chunks n')" "chunk_count (n_chunks n') = chunk_count (take keep (n_chunks n))"
    "n' = n\<lparr>n_chunks := n_chunks n'\<rparr>"
    "s' = s\<lparr>tmpfs_used_bytes := tmpfs_used_bytes s - TMPFS_CHUNK * chunk_count (drop keep (n_chunks n))\<rparr>"
    "byte_at (n_chunks n') k =
      (if keep \<le> k div TMPFS_CHUNK \<or> k div TMPFS_CHUNK = keep - 1 \<and> len mod TMPFS_CHUNK \<noteq> 0 \<and> len mod TMPFS_CHUNK \<le> k mod TMPFS_CHUNK
       then 0 else byte_at (n_chunks n) k)"
proof -
  define r where "r = len mod TMPFS_CHUNK"
  define kept where "kept = take keep (n_chunks n) @ replicate (length (n_chunks n) - keep) None"
  have r: "r < TMPFS_CHUNK" by (simp add: r_def)
  have ok: "chunks_ok kept" using assms(2) by (auto simp: chunks_ok_def kept_def dest: in_set_takeD)
  have cnt: "chunk_count kept = chunk_count (take keep (n_chunks n))" by (simp add: kept_def)
  note by1 = byte_at_kept [of keep "n_chunks n" k, folded kept_def]
  let ?s1 = "s\<lparr>tmpfs_used_bytes := tmpfs_used_bytes s - TMPFS_CHUNK * chunk_count (drop keep (n_chunks n))\<rparr>"
  have "chunks_ok (n_chunks n') \<and> chunk_count (n_chunks n') = chunk_count (take keep (n_chunks n)) \<and>
    n' = n\<lparr>n_chunks := n_chunks n'\<rparr> \<and> s' = ?s1 \<and> byte_at (n_chunks n') k =
      (if keep \<le> k div TMPFS_CHUNK \<or> k div TMPFS_CHUNK = keep - 1 \<and> r \<noteq> 0 \<and> r \<le> k mod TMPFS_CHUNK
       then 0 else byte_at (n_chunks n) k)"
  proof (cases "r \<noteq> 0 \<and> keep \<noteq> 0 \<and> keep \<le> length (n_chunks n) \<and> kept ! (keep - 1) \<noteq> None")
    case True
    then obtain b where b: "kept ! (keep - 1) = Some b" by blast
    have lt: "keep - 1 < length kept" using True by (auto simp: kept_def)
    have lb: "length b = TMPFS_CHUNK" using ok lt b by (rule chunks_okD)
    have n': "n' = n\<lparr>n_chunks := kept[keep - 1 := Some (blit b r (replicate (TMPFS_CHUNK - r) 0))]\<rparr>" "s' = ?s1"
      using assms(1,3) True b by (simp_all add: tmpfs_shrink_def Let_def r_def kept_def)
    have "k mod TMPFS_CHUNK - r < TMPFS_CHUNK - r" if "r \<le> k mod TMPFS_CHUNK"
      using that mod_less_divisor [OF chunk_pos, of k] by linarith
    then have "byte_at (n_chunks n') k = (if k div TMPFS_CHUNK = keep - 1 then if r \<le> k mod TMPFS_CHUNK then 0 else b ! (k mod TMPFS_CHUNK) else byte_at kept k)"
      using r lb lt by (simp add: n' byte_at_update nth_blit)
    moreover have "byte_at kept k = b ! (k mod TMPFS_CHUNK)" if "k div TMPFS_CHUNK = keep - 1"
      using b lt that by (simp add: byte_at_def)
    ultimately show ?thesis
      using True b lt lb r by1 ok by (auto simp: n' cnt chunks_ok_update length_blit chunk_count_update)
  next
    case False
    then have n': "n' = n\<lparr>n_chunks := kept\<rparr>" "s' = ?s1"
      using assms(1,3) by (auto simp: tmpfs_shrink_def Let_def r_def kept_def split: if_splits option.splits)
    have "byte_at kept k = 0" if "k div TMPFS_CHUNK = keep - 1" "r \<noteq> 0" "keep \<noteq> 0"
      using False that by (auto simp: byte_at_def kept_def)
    then show ?thesis using by1 ok cnt by (auto simp: n')
  qed
  then show "chunks_ok (n_chunks n')" "chunk_count (n_chunks n') = chunk_count (take keep (n_chunks n))"
    "n' = n\<lparr>n_chunks := n_chunks n'\<rparr>" "s' = ?s1"
    "byte_at (n_chunks n') k =
      (if keep \<le> k div TMPFS_CHUNK \<or> k div TMPFS_CHUNK = keep - 1 \<and> len mod TMPFS_CHUNK \<noteq> 0 \<and> len mod TMPFS_CHUNK \<le> k mod TMPFS_CHUNK
       then 0 else byte_at (n_chunks n) k)"
    unfolding r_def by blast+
qed

lemma tmpfs_shrink_spec:
  assumes "tmpfs_shrink len n s = (n', s')" and "data_ok n" and "len \<le> n_size n"
    and "TMPFS_CHUNK * chunk_count (n_chunks n) \<le> tmpfs_used_bytes s"
  shows "accounted n s n' s'" "chunks_ok (n_chunks n')" "k \<ge> len \<Longrightarrow> byte_at (n_chunks n') k = 0"
    "len + TMPFS_CHUNK \<le> 2 ^ 32 \<Longrightarrow> k < len \<Longrightarrow> byte_at (n_chunks n') k = byte_at (n_chunks n) k"
proof -
  define keep where "keep = (len + TMPFS_CHUNK - 1) mod 2 ^ 32 div TMPFS_CHUNK"
  have "chunks_ok (n_chunks n)" "len < 2 ^ 32" using assms(2,3) by (auto simp: data_ok_def)
  note eq = tmpfs_shrink_eq [OF assms(1) this(1) keep_def] and kp = shrink_keep [OF this(2), folded keep_def]
  show "chunks_ok (n_chunks n')" by (rule eq(1))
  have "chunk_count (n_chunks n') + chunk_count (drop keep (n_chunks n)) = chunk_count (n_chunks n)"
    using eq(2) chunk_count_take_drop by simp
  then have "TMPFS_CHUNK * chunk_count (n_chunks n') + TMPFS_CHUNK * chunk_count (drop keep (n_chunks n)) =
      TMPFS_CHUNK * chunk_count (n_chunks n)" by (metis add_mult_distrib2)
  with eq(3,4) assms(4) show "accounted n s n' s'" by (simp add: accounted_def)
  show "byte_at (n_chunks n') k = 0" if "k \<ge> len"
  proof (cases "keep \<le> k div TMPFS_CHUNK")
    case False
    then have k: "keep = (len + TMPFS_CHUNK - 1) div TMPFS_CHUNK" using kp by (auto split: if_splits)
    from that have "len div TMPFS_CHUNK \<le> k div TMPFS_CHUNK" by (rule div_le_mono)
    with False k have d: "len mod TMPFS_CHUNK \<noteq> 0" "k div TMPFS_CHUNK = len div TMPFS_CHUNK" "k div TMPFS_CHUNK = keep - 1"
      unfolding ceil_eq by (auto split: if_splits)
    then have "len mod TMPFS_CHUNK \<le> k mod TMPFS_CHUNK"
      using that by (metis add_le_cancel_left div_mult_mod_eq)
    with d eq(5) show ?thesis by simp
  qed (simp add: eq(5))
  show "byte_at (n_chunks n') k = byte_at (n_chunks n) k" if l: "len + TMPFS_CHUNK \<le> 2 ^ 32" and "k < len"
  proof -
    have k: "keep = (len + TMPFS_CHUNK - 1) div TMPFS_CHUNK" using kp l by simp
    have le: "k div TMPFS_CHUNK \<le> len div TMPFS_CHUNK" using \<open>k < len\<close> by (simp add: div_le_mono)
    have m: "k mod TMPFS_CHUNK < len mod TMPFS_CHUNK" if "k div TMPFS_CHUNK = len div TMPFS_CHUNK"
      using that \<open>k < len\<close> by (metis div_mult_mod_eq nat_add_left_cancel_less)
    show ?thesis using k le m unfolding eq(5) ceil_eq by (auto split: if_splits)
  qed
qed

section \<open>A file as a sequence of bytes\<close>

text \<open>Writing and resizing a sequence of bytes: a gap is filled with zeros.\<close>

definition file_write :: "u8 list \<Rightarrow> nat \<Rightarrow> u8 list \<Rightarrow> u8 list" where
  "file_write f pos d = take pos (f @ replicate (pos - length f) 0) @ d @ drop (pos + length d) f"

definition file_resize :: "u8 list \<Rightarrow> nat \<Rightarrow> u8 list" where
  "file_resize f len = take len f @ replicate (len - length f) 0"

lemma length_file_write: "length (file_write f pos d) = max (length f) (pos + length d)"
  by (simp add: file_write_def max_def min_def)

lemma nth_file_write:
  "i < max (length f) (pos + length d) \<Longrightarrow>
   file_write f pos d ! i = (if pos \<le> i \<and> i < pos + length d then d ! (i - pos) else if i < length f then f ! i else 0)"
  by (auto simp: file_write_def nth_append min_def)

lemma nth_file_resize: "i < len \<Longrightarrow> file_resize f len ! i = (if i < length f then f ! i else 0)"
  by (auto simp: file_resize_def nth_append min_def)

locale byte_file =
  fixes bytes :: "'f \<Rightarrow> u8 list"
    and fok :: "'f \<Rightarrow> bool"
    and get :: "'f \<Rightarrow> nat \<Rightarrow> nat \<Rightarrow> u8 list"
    and put :: "nat \<Rightarrow> u8 list \<Rightarrow> 'f \<Rightarrow> 'f \<Rightarrow> bool"
    and resize :: "nat \<Rightarrow> 'f \<Rightarrow> 'f \<Rightarrow> bool"
  assumes get_eq: "fok f \<Longrightarrow> get f pos m = take m (drop pos (bytes f))"
    and put_ok: "fok f \<Longrightarrow> put pos d f f' \<Longrightarrow> fok f'"
    and put_bytes: "fok f \<Longrightarrow> put pos d f f' \<Longrightarrow> bytes f' = file_write (bytes f) pos d"
    and resize_ok: "fok f \<Longrightarrow> resize len f f' \<Longrightarrow> fok f'"
    and resize_bytes: "fok f \<Longrightarrow> resize len f f' \<Longrightarrow> bytes f' = file_resize (bytes f) len"
begin

lemma get_put: "fok f \<Longrightarrow> put pos d f f' \<Longrightarrow> get f' pos (length d) = d"
  by (simp add: get_eq put_ok put_bytes file_write_def)

lemma get_put_before:
  assumes "fok f" and "put pos d f f'" and "q + m \<le> pos" and "q + m \<le> length (bytes f)"
  shows "get f' q m = get f q m"
  using assms by (simp add: get_eq put_ok put_bytes file_write_def take_drop min_def)

lemma get_put_behind:
  assumes "fok f" and "put pos d f f'" and "pos + length d \<le> q"
  shows "get f' q m = get f q m"
  using assms
  by (simp add: get_eq put_ok put_bytes file_write_def drop_append min_def split: if_splits)

lemma get_resize:
  assumes "fok f" and "resize len f f'" and "q + m \<le> len" and "q + m \<le> length (bytes f)"
  shows "get f' q m = get f q m"
  using assms by (simp add: get_eq resize_ok resize_bytes file_resize_def take_drop)

end

section \<open>The inode is a file\<close>

lemma length_content [simp]: "length (content n) = n_size n"
  by (simp add: content_def)

lemma content_eqI:
  assumes "length f = n_size n" and "\<And>i. i < n_size n \<Longrightarrow> f ! i = byte_at (n_chunks n) i"
  shows "content n = f"
  using assms by (intro nth_equalityI) (simp_all add: content_def)

lemma nth_content: "data_ok n \<Longrightarrow> byte_at (n_chunks n) i = (if i < length (content n) then content n ! i else 0)"
  by (simp add: content_def data_ok_def)

lemma read_inode_eq:
  assumes "data_ok n"
  shows "read_inode n pos m = take m (drop pos (content n))"
proof (cases "pos < n_size n")
  case True
  let ?m = "min m (n_size n - pos)"
  have "read_inode n pos m = map (byte_at (n_chunks n)) [pos..<pos + ?m]"
    using True assms by (simp add: read_inode_def Let_def copy_out_eq data_ok_def min_def)
  also have "[pos..<pos + ?m] = take m (drop pos [0..<n_size n])"
    using True by (simp add: take_upt drop_upt min_def)
  finally show ?thesis by (simp add: content_def take_map drop_map)
qed (simp add: read_inode_def)

definition booked :: "tinode \<Rightarrow> ('a) space_scheme \<Rightarrow> bool" where
  "booked n s \<longleftrightarrow> TMPFS_CHUNK * chunk_count (n_chunks n) \<le> tmpfs_used_bytes s"

lemma accounted_booked: "accounted n s n' s' \<Longrightarrow> booked n s \<Longrightarrow> booked n' s'"
  unfolding accounted_def booked_def by linarith

text \<open>The fields of an inode that no data routine changes, and its accounting up to the clock.\<close>

definition data_step :: "tinode \<Rightarrow> ('a) space_scheme \<Rightarrow> tinode \<Rightarrow> ('a) space_scheme \<Rightarrow> bool" where
  "data_step n s n' s' \<longleftrightarrow>
    n' = n\<lparr>n_chunks := n_chunks n', n_size := n_size n', n_mtime := n_mtime n', n_ctime := n_ctime n'\<rparr> \<and>
    s' = s\<lparr>tmpfs_used_bytes := tmpfs_used_bytes s', requests := requests s'\<rparr> \<and>
    tmpfs_used_bytes s' + TMPFS_CHUNK * chunk_count (n_chunks n) =
      tmpfs_used_bytes s + TMPFS_CHUNK * chunk_count (n_chunks n')"

lemma accounted_step:
  "accounted n s n' s' \<Longrightarrow> data_step n s n' s'"
  "accounted n s n1 s1 \<Longrightarrow> data_step n s (n1\<lparr>n_size := z, n_mtime := a, n_ctime := b\<rparr>) (s1\<lparr>requests := r\<rparr>)"
  by (cases n; cases n'; cases n1; cases s; cases s'; cases s1; simp add: accounted_def data_step_def)+

lemma data_step_booked: "data_step n s n' s' \<Longrightarrow> booked n s \<Longrightarrow> booked n' s'"
  unfolding data_step_def booked_def by linarith

lemma same_bytes:
  assumes "accounted n s n' s'" and "byte_at (n_chunks n') = byte_at (n_chunks n)" and "chunks_ok (n_chunks n')" and "data_ok n"
  shows "data_step n s n' s' \<and> data_ok n' \<and> content n' = content n"
proof -
  have "n_size n' = n_size n"
    using assms(1) unfolding accounted_def by (metis tinode.select_convs(8) tinode.surjective tinode.update_convs(7))
  with assms accounted_step(1) [OF assms(1)] show ?thesis by (simp add: content_def data_ok_def)
qed

lemma write_inode_spec:
  assumes "write_inode e pos buffer n s = (r, n', s')" and "data_ok n"
  shows "data_step n s n' s' \<and> data_ok n' \<and>
    (case r of
       Inl err \<Rightarrow> err = ENOSPC \<and> content n' = content n
     | Inr d \<Rightarrow> d \<le> length buffer \<and> (d = 0 \<longleftrightarrow> buffer = []) \<and> (d \<noteq> 0 \<longrightarrow> pos + d < 2 ^ 32) \<and>
         content n' = (if buffer = [] then content n else file_write (content n) pos (take d buffer)))"
proof (cases "buffer = []")
  case True
  with assms show ?thesis by (auto simp: write_inode_def data_step_def)
next
  case False
  obtain r1 n1 s1 where sl: "tmpfs_slots e (pos + length buffer) n s = (r1, n1, s1)"
    by (cases "tmpfs_slots e (pos + length buffer) n s") auto
  note sp = tmpfs_slots_spec [OF sl]
  have ok: "chunks_ok (n_chunks n)" using assms(2) by (simp add: data_ok_def)
  note s1 = same_bytes [OF sp(1) sp(2) sp(3) [OF ok] assms(2)]
  show ?thesis
  proof (cases r1)
    case (Inl err)
    then have "r = Inl err" "n' = n1" "s' = s1" using assms(1) False sl by (auto simp: write_inode_def)
    with s1 sp(5) Inl show ?thesis by auto
  next
    case (Inr u)
    obtain d n2 s2 where ci: "copy_in e pos buffer 0 n1 s1 = (d, n2, s2)" by (cases "copy_in e pos buffer 0 n1 s1") auto
    note cs = copy_in_spec [OF ci sp(3) [OF ok], simplified]
    have ac: "accounted n s n2 s2" using accounted_trans [OF sp(1)] cs by blast
    then have sz: "n_size n2 = n_size n" unfolding accounted_def by (metis tinode.select_convs(8) tinode.surjective tinode.update_convs(7))
    show ?thesis
    proof (cases "d = 0")
      case True
      then have "r = Inl ENOSPC" "n' = n2" "s' = s2" using assms(1) False sl Inr ci by (auto simp: write_inode_def)
      moreover have "byte_at (n_chunks n2) = byte_at (n_chunks n)" using cs True sp(2) by (auto simp: fun_eq_iff)
      ultimately show ?thesis using same_bytes [OF ac _ _ assms(2)] cs by auto
    next
      case d: False
      let ?n3 = "n2\<lparr>n_size := (if pos + d > n_size n2 then pos + d else n_size n2), n_mtime := e_clock e (requests s2), n_ctime := e_clock e (requests s2)\<rparr>"
      have r: "r = Inr d" "n' = ?n3" "s' = s2\<lparr>requests := Suc (requests s2)\<rparr>"
        using assms(1) False sl Inr ci d by (auto simp: write_inode_def tmpfs_now_def Let_def)
      have lt: "pos + d < 2 ^ 32" using cs sp(4) Inr by auto
      have by2: "byte_at (n_chunks n') k = (if pos \<le> k \<and> k < pos + d then take d buffer ! (k - pos) else byte_at (n_chunks n) k)" for k
        using cs sp(2) r by auto
      have len: "n_size n' = max (n_size n) (pos + d)" using r sz by auto
      have "content n' = file_write (content n) pos (take d buffer)"
        using cs by (intro content_eqI) (auto simp: length_file_write len min_def nth_file_write by2 nth_content [OF assms(2)])
      moreover have "data_ok n'"
        using assms(2) cs lt len r sp(2) by (auto simp: data_ok_def by2)
      moreover have "data_step n s n' s'" unfolding r by (rule accounted_step(2) [OF ac])
      ultimately show ?thesis using r cs lt d False by simp
    qed
  qed
qed

lemma write_inode_full:
  assumes "grants e" and "pos + length buffer < 2 ^ 32"
    and "tmpfs_used_bytes s + TMPFS_CHUNK * ((pos + length buffer + TMPFS_CHUNK - 1) div TMPFS_CHUNK) \<le> tmpfs_limit_bytes s"
  shows "fst (write_inode e pos buffer n s) = Inr (length buffer)"
proof (cases "buffer = []")
  case False
  let ?want = "(pos + length buffer + TMPFS_CHUNK - 1) div TMPFS_CHUNK"
  let ?ns = "grow_slots (if length (n_chunks n) \<noteq> 0 then length (n_chunks n) else 4) ?want"
  have need: "pos + length buffer \<le> ?want * TMPFS_CHUNK" by (rule ceil_chunk)
  have lim: "\<not> pos + length buffer > tmpfs_limit_bytes s" "\<not> pos + length buffer > 0xFFFFFFFF"
    using need assms(2,3) by (auto simp: mult.commute)
  have ns: "?want \<le> ?ns" "length (n_chunks n) \<le> ?ns"
    using grow_slots_enough [of "if length (n_chunks n) \<noteq> 0 then length (n_chunks n) else 4" ?want] by auto
  obtain n1 s1 where sl: "tmpfs_slots e (pos + length buffer) n s = (Inr (), n1, s1)" and rm: "room ?want (n_chunks n1) s1"
  proof (cases "?want \<le> length (n_chunks n)")
    case True
    then show thesis using that [of n s] lim assms(3) by (simp add: tmpfs_slots_def Let_def room_def)
  next
    case f: False
    have "tmpfs_slots e (pos + length buffer) n s =
        (Inr (), n\<lparr>n_chunks := n_chunks n @ replicate (?ns - length (n_chunks n)) None\<rparr>, s\<lparr>requests := Suc (requests s)\<rparr>)"
      using lim f assms(1) unfolding tmpfs_slots_def tmpfs_kalloc_def grants_def by (simp add: Let_def)
    moreover have "room ?want (n_chunks n @ replicate (?ns - length (n_chunks n)) None) (s\<lparr>requests := Suc (requests s)\<rparr>)"
      using assms(3) ns by (simp add: room_def)
    ultimately show thesis using that by simp
  qed
  have "fst (copy_in e pos buffer 0 n1 s1) = length buffer" by (rule copy_in_full [OF assms(1) rm need]) simp
  with sl False show ?thesis
    by (cases "copy_in e pos buffer 0 n1 s1") (simp add: write_inode_def tmpfs_now_def)
qed (simp add: write_inode_def)

lemma set_len_spec:
  assumes "tmpfs_set_len e len n s = (r, n', s')" and "data_ok n" and "booked n s"
  shows "data_step n s n' s' \<and> data_ok n' \<and>
    (case r of
       Inl err \<Rightarrow> err = ENOSPC \<and> content n' = content n
     | Inr _ \<Rightarrow> n_size n' = len \<and> (len + TMPFS_CHUNK \<le> 2 ^ 32 \<or> n_size n < len \<longrightarrow> content n' = file_resize (content n) len))"
proof -
  obtain r1 n1 s1 where st: "(if len > n_size n then tmpfs_slots e len n s
      else case tmpfs_shrink len n s of (n1, s1) \<Rightarrow> (Inr (), n1, s1)) = (r1, n1, s1)"
    by (metis prod_cases3)
  have ok: "chunks_ok (n_chunks n)" using assms(2) by (simp add: data_ok_def)
  have *: "accounted n s n1 s1 \<and> chunks_ok (n_chunks n1) \<and>
    (case r1 of Inl err \<Rightarrow> err = ENOSPC \<and> byte_at (n_chunks n1) = byte_at (n_chunks n)
     | Inr _ \<Rightarrow> len < 2 ^ 32 \<and> (\<forall>k \<ge> len. byte_at (n_chunks n1) k = 0) \<and>
        (len + TMPFS_CHUNK \<le> 2 ^ 32 \<or> n_size n < len \<longrightarrow> (\<forall>k < len. byte_at (n_chunks n1) k = byte_at (n_chunks n) k)))"
  proof (cases "n_size n < len")
    case True
    with st have "tmpfs_slots e len n s = (r1, n1, s1)" by simp
    from tmpfs_slots_spec [OF this] ok assms(2) True show ?thesis
      by (auto simp: data_ok_def split: sum.splits)
  next
    case False
    with st have sh: "tmpfs_shrink len n s = (n1, s1)" and r1: "r1 = Inr ()" by (auto split: prod.splits)
    have "len \<le> n_size n" "TMPFS_CHUNK * chunk_count (n_chunks n) \<le> tmpfs_used_bytes s"
      using False assms(3) by (auto simp: booked_def)
    note spec = tmpfs_shrink_spec [OF sh assms(2) this]
    have "len < 2 ^ 32" using False assms(2) by (auto simp: data_ok_def)
    with spec r1 False show ?thesis by auto
  qed
  show ?thesis
  proof (cases r1)
    case (Inl err)
    then have "r = Inl err" "n' = n1" "s' = s1" using assms(1) st by (auto simp: tmpfs_set_len_def)
    with same_bytes [OF _ _ _ assms(2)] * Inl show ?thesis by auto
  next
    case (Inr u)
    let ?now = "e_clock e (requests s1)"
    have r: "r = Inr ()" "n' = n1\<lparr>n_size := len, n_mtime := ?now, n_ctime := ?now\<rparr>" "s' = s1\<lparr>requests := Suc (requests s1)\<rparr>"
      using assms(1) st Inr by (auto simp: tmpfs_set_len_def tmpfs_now_def)
    have "data_step n s n' s'" unfolding r using * by (intro accounted_step(2)) simp
    moreover have "data_ok n'" using * Inr r by (simp add: data_ok_def)
    moreover have "content n' = file_resize (content n) len" if "len + TMPFS_CHUNK \<le> 2 ^ 32 \<or> n_size n < len"
      using * Inr r that
      by (intro content_eqI) (auto simp: nth_file_resize nth_content [OF assms(2)], auto simp: file_resize_def)
    ultimately show ?thesis using r by simp
  qed
qed

interpretation inode: byte_file "\<lambda>(n, s). content n" "\<lambda>(n, s). data_ok n \<and> booked n s" "\<lambda>(n, s). read_inode n"
  "\<lambda>pos d (n, s) (n', s'). \<exists>e buffer r. write_inode e pos buffer n s = (Inr r, n', s') \<and> r \<noteq> 0 \<and> d = take r buffer"
  "\<lambda>len (n, s) (n', s'). len + TMPFS_CHUNK \<le> 2 ^ 32 \<and> (\<exists>e. tmpfs_set_len e len n s = (Inr (), n', s'))"
  by unfold_locales
    (auto simp: read_inode_eq dest!: write_inode_spec set_len_spec intro: data_step_booked split: if_splits)

end
