(* ===== verification/Tmpfs.thy ===== *)
theory Tmpfs
  imports Tmpdata
begin

text \<open>
  The memory file system of \<^verbatim>\<open>src/src/tmpfs.c\<close>: a table of 1024 directory entries (nodes), a table of
  1024 inodes, and the operations that the virtual file system calls. A node names an inode and
  has a parent node; node 0 is the root, whose parent \<open>-1\<close> is \<open>None\<close> here. Several nodes may name
  one inode (hard links), and an inode without a name lives on while a handle is open on it.

  Names and paths are character lists without their terminator, so that \<^verbatim>\<open>kstrcmp\<close> is equality and
  \<^verbatim>\<open>kstrncpy\<close> into a buffer of \<open>n\<close> bytes keeps the first \<open>n - 1\<close> characters (both shown in
  \<^verbatim>\<open>Kstring\<close>); a null pointer is \<open>None\<close>. A handle is passed and returned by value. Errors are the
  values of \<open>errno\<close>.
\<close>

unbundle bit_operations_syntax

section \<open>State\<close>

definition TMPFS_MAX_NODES :: nat where
  "TMPFS_MAX_NODES = 1024"

definition TMPFS_MAX_NAME :: nat where
  "TMPFS_MAX_NAME = 64"

definition TMPFS_LINK_MAX :: nat where
  "TMPFS_LINK_MAX = 1023"

record tnode =
  tn_used :: bool
  tn_parent :: "nat option"
  tn_ino :: nat
  tn_name :: string

record thandle =
  h_ino :: nat
  h_pos :: nat
  h_flags :: u32

record tmpfs = space +
  nodes :: "tnode list"
  inodes :: "tinode list"
  tmpfs_ready :: bool

abbreviation T_IFMT :: u32 where "T_IFMT \<equiv> 0xF000"
abbreviation T_IFDIR :: u32 where "T_IFDIR \<equiv> 0x4000"
abbreviation T_IFREG :: u32 where "T_IFREG \<equiv> 0x8000"
abbreviation T_IFLNK :: u32 where "T_IFLNK \<equiv> 0xA000"

abbreviation VFS_O_WRITE :: u32 where "VFS_O_WRITE \<equiv> 0x02"
abbreviation VFS_O_CREATE :: u32 where "VFS_O_CREATE \<equiv> 0x04"
abbreviation VFS_O_TRUNC :: u32 where "VFS_O_TRUNC \<equiv> 0x08"
abbreviation VFS_O_APPEND :: u32 where "VFS_O_APPEND \<equiv> 0x10"

definition no_node :: tnode where
  "no_node = \<lparr>tn_used = False, tn_parent = Some 0, tn_ino = 0, tn_name = []\<rparr>"

definition no_inode :: tinode where
  "no_inode = \<lparr>n_used = False, n_mode = 0, n_uid = 0, n_gid = 0, n_nlink = 0, n_opens = 0, n_chunks = [],
     n_size = 0, n_target = None, n_mtime = 0, n_ctime = 0\<rparr>"

definition NI :: "tmpfs \<Rightarrow> nat \<Rightarrow> tinode" where
  "NI s i = inodes s ! tn_ino (nodes s ! i)"

definition tmpfs_isdir :: "tmpfs \<Rightarrow> nat \<Rightarrow> bool" where
  "tmpfs_isdir s i \<longleftrightarrow> n_mode (NI s i) AND T_IFMT = T_IFDIR"

definition tmpfs_islnk :: "tmpfs \<Rightarrow> nat \<Rightarrow> bool" where
  "tmpfs_islnk s i \<longleftrightarrow> n_mode (NI s i) AND T_IFMT = T_IFLNK"

definition set_node :: "nat \<Rightarrow> tnode \<Rightarrow> tmpfs \<Rightarrow> tmpfs" where
  "set_node i d s = s\<lparr>nodes := (nodes s)[i := d]\<rparr>"

definition set_inode :: "nat \<Rightarrow> tinode \<Rightarrow> tmpfs \<Rightarrow> tmpfs" where
  "set_inode i n s = s\<lparr>inodes := (inodes s)[i := n]\<rparr>"

text \<open>\<^verbatim>\<open>inodes[i].mtime = tmpfs_now()\<close> and \<^verbatim>\<open>inodes[i].ctime = tmpfs_now()\<close>.\<close>

definition touch_m :: "tenv \<Rightarrow> nat \<Rightarrow> tmpfs \<Rightarrow> tmpfs" where
  "touch_m e i s = (let (now, s1) = tmpfs_now e s in set_inode i ((inodes s1 ! i)\<lparr>n_mtime := now\<rparr>) s1)"

definition touch_c :: "tenv \<Rightarrow> nat \<Rightarrow> tmpfs \<Rightarrow> tmpfs" where
  "touch_c e i s = (let (now, s1) = tmpfs_now e s in set_inode i ((inodes s1 ! i)\<lparr>n_ctime := now\<rparr>) s1)"

definition tmpfs_init_root :: "tmpfs \<Rightarrow> tmpfs" where
  "tmpfs_init_root s =
    s\<lparr>nodes := (replicate TMPFS_MAX_NODES no_node)[0 := \<lparr>tn_used = True, tn_parent = None, tn_ino = 0, tn_name = []\<rparr>],
      inodes := (replicate TMPFS_MAX_NODES no_inode)[0 := no_inode\<lparr>n_used := True, n_mode := T_IFDIR OR 0x3FF, n_nlink := 1\<rparr>],
      tmpfs_ready := True\<rparr>"

section \<open>Directory entries and inodes\<close>

definition tmpfs_find_child :: "tmpfs \<Rightarrow> nat \<Rightarrow> string \<Rightarrow> nat option" where
  "tmpfs_find_child s parent name =
    scan (\<lambda>i. tn_used (nodes s ! i) \<and> tn_parent (nodes s ! i) = Some parent \<and> tn_name (nodes s ! i) = name) 1 TMPFS_MAX_NODES"

definition tmpfs_has_children :: "tmpfs \<Rightarrow> nat \<Rightarrow> bool" where
  "tmpfs_has_children s dir \<longleftrightarrow>
    scan (\<lambda>i. tn_used (nodes s ! i) \<and> tn_parent (nodes s ! i) = Some dir) 1 TMPFS_MAX_NODES \<noteq> None"

definition tmpfs_alloc_node :: "tmpfs \<Rightarrow> nat option" where
  "tmpfs_alloc_node s = scan (\<lambda>i. \<not> tn_used (nodes s ! i)) 1 TMPFS_MAX_NODES"

definition tmpfs_alloc_inode :: "tenv \<Rightarrow> u32 \<Rightarrow> tmpfs \<Rightarrow> nat option \<times> tmpfs" where
  "tmpfs_alloc_inode e mode s =
    (case scan (\<lambda>i. \<not> n_used (inodes s ! i)) 1 TMPFS_MAX_NODES of
       None \<Rightarrow> (None, s)
     | Some i \<Rightarrow>
         let (now, s1) = tmpfs_now e s
         in (Some i, set_inode i (no_inode\<lparr>n_used := True, n_mode := mode, n_nlink := 1, n_mtime := now, n_ctime := now\<rparr>) s1))"

definition tmpfs_put_inode :: "nat \<Rightarrow> tmpfs \<Rightarrow> tmpfs" where
  "tmpfs_put_inode ino s =
    (let n = inodes s ! ino in
     if ino = 0 \<or> \<not> n_used n \<or> n_nlink n \<noteq> 0 \<or> n_opens n \<noteq> 0 then s
     else let (n1, s1) = tmpfs_free_data n s in set_inode ino no_inode s1)"

definition tmpfs_add_node :: "tenv \<Rightarrow> nat \<Rightarrow> string \<Rightarrow> nat \<Rightarrow> tmpfs \<Rightarrow> nat res \<times> tmpfs" where
  "tmpfs_add_node e parent name ino s =
    (case tmpfs_alloc_node s of
       None \<Rightarrow> (Inl ENOSPC, s)
     | Some i \<Rightarrow>
         let s1 = set_node i \<lparr>tn_used = True, tn_parent = Some parent, tn_ino = ino, tn_name = take (TMPFS_MAX_NAME - 1) name\<rparr> s
         in (Inr i, touch_m e (tn_ino (nodes s1 ! parent)) s1))"

definition tmpfs_drop_node :: "tenv \<Rightarrow> nat \<Rightarrow> tmpfs \<Rightarrow> tmpfs" where
  "tmpfs_drop_node e i s =
    (let ino = tn_ino (nodes s ! i);
         s1 = (case tn_parent (nodes s ! i) of
                 Some p \<Rightarrow> touch_m e (tn_ino (nodes s ! p)) s
               | None \<Rightarrow> s);
         s2 = set_node i no_node s1;
         n = inodes s2 ! ino;
         s3 = (if n_nlink n \<noteq> 0 then set_inode ino (n\<lparr>n_nlink := n_nlink n - 1\<rparr>) s2 else s2)
     in tmpfs_put_inode ino (touch_c e ino s3))"

section \<open>Paths\<close>

text \<open>A new inode and its entry; the inode is given back when the table of nodes is full.\<close>

definition make_entry :: "tenv \<Rightarrow> u32 \<Rightarrow> nat \<Rightarrow> string \<Rightarrow> tmpfs \<Rightarrow> nat res \<times> tmpfs" where
  "make_entry e mode parent name s =
    (case tmpfs_alloc_inode e mode s of
       (None, s1) \<Rightarrow> (Inl ENOSPC, s1)
     | (Some ino, s1) \<Rightarrow>
         (case tmpfs_add_node e parent name ino s1 of
            (Inr i, s2) \<Rightarrow> (Inr i, s2)
          | (Inl err, s2) \<Rightarrow>
              (Inl err, tmpfs_put_inode ino (set_inode ino ((inodes s2 ! ino)\<lparr>n_nlink := 0\<rparr>) s2))))"

datatype lookup_step = Found nat | Leave "nat res"

text \<open>The entry of one component of a path: found or made, or the value the walk returns at once.\<close>

definition lookup_child :: "tenv \<Rightarrow> bool \<Rightarrow> bool \<Rightarrow> bool \<Rightarrow> nat \<Rightarrow> string \<Rightarrow> bool \<Rightarrow> tmpfs \<Rightarrow> lookup_step \<times> tmpfs" where
  "lookup_child e create_dirs create_file want_dir cur part is_last s =
    (case tmpfs_find_child s cur part of
       Some child \<Rightarrow> (Found child, s)
     | None \<Rightarrow>
         if is_last \<and> create_file \<and> \<not> want_dir then
           (case make_entry e (T_IFREG OR 0x1A4) cur part s of (r, s1) \<Rightarrow> (Leave r, s1))
         else if \<not> is_last \<and> create_dirs \<or> is_last \<and> create_dirs \<and> want_dir then
           (case make_entry e (T_IFDIR OR 0x1ED) cur part s of
              (Inl err, s1) \<Rightarrow> (Leave (Inl err), s1)
            | (Inr i, s1) \<Rightarrow> (if is_last then Leave (Inr i) else Found i, s1))
         else (Leave (Inl ENOENT), s))"

abbreviation slash :: char where
  "slash \<equiv> CHR ''/''"

abbreviation skip_slashes :: "string \<Rightarrow> string" where
  "skip_slashes p \<equiv> dropWhile (\<lambda>c. c = slash) p"

function lookup_from :: "tenv \<Rightarrow> bool \<Rightarrow> bool \<Rightarrow> bool \<Rightarrow> nat \<Rightarrow> string \<Rightarrow> tmpfs \<Rightarrow> nat res \<times> tmpfs" where
  "lookup_from e create_dirs create_file want_dir cur p s =
    (let part = takeWhile (\<lambda>c. c \<noteq> slash) p;
         rest = dropWhile (\<lambda>c. c \<noteq> slash) p;
         is_last = (rest = [])
     in if part = [] then (Inl EINVAL, s)
        else if length part \<ge> TMPFS_MAX_NAME then (Inl ENAMETOOLONG, s)
        else case lookup_child e create_dirs create_file want_dir cur part is_last s of
            (Leave r, s1) \<Rightarrow> (r, s1)
          | (Found child, s1) \<Rightarrow>
              if is_last then
                if want_dir \<and> \<not> tmpfs_isdir s1 child then (Inl ENOTDIR, s1)
                else if \<not> want_dir \<and> tmpfs_isdir s1 child \<and> create_file then (Inl EISDIR, s1)
                else (Inr child, s1)
              else if \<not> tmpfs_isdir s1 child then (Inl ENOTDIR, s1)
              else
                let p1 = skip_slashes (tl rest)
                in if p1 = [] then (if want_dir then Inr child else Inl ENOENT, s1)
                   else lookup_from e create_dirs create_file want_dir child p1 s1)"
  by pat_completeness auto
termination
proof (relation "measure (\<lambda>(e, cd, cf, wd, cur, p, s). length p)", goal_cases)
  case (2 e cd cf wd cur p s part rest is_last)
  then have "rest \<noteq> []" by simp
  then have "length (skip_slashes (tl rest)) < length rest"
    using length_dropWhile_le [of "\<lambda>c. c = slash" "tl rest"] by (cases rest) auto
  also have "\<dots> \<le> length p" using 2 by (simp add: length_dropWhile_le)
  finally show ?case using 2 by simp
qed simp

declare lookup_from.simps [simp del]

definition tmpfs_lookup :: "tenv \<Rightarrow> string option \<Rightarrow> bool \<Rightarrow> bool \<Rightarrow> bool \<Rightarrow> tmpfs \<Rightarrow> nat res \<times> tmpfs" where
  "tmpfs_lookup e rel_path create_dirs create_file want_dir s =
    (let s0 = (if tmpfs_ready s then s else tmpfs_init_root s);
         p = skip_slashes (case rel_path of None \<Rightarrow> [] | Some p \<Rightarrow> p)
     in if p = [] then (if want_dir then Inr 0 else Inl ENOENT, s0)
        else lookup_from e create_dirs create_file want_dir 0 p s0)"

definition tmpfs_lookup_any :: "tenv \<Rightarrow> string option \<Rightarrow> tmpfs \<Rightarrow> nat res \<times> tmpfs" where
  "tmpfs_lookup_any e rel s =
    (if rel = None \<or> rel = Some [] then (Inr 0, s)
     else case tmpfs_lookup e rel False False False s of
         (Inr i, s1) \<Rightarrow> (Inr i, s1)
       | (Inl err, s1) \<Rightarrow>
           if err \<noteq> ENOTDIR \<and> err \<noteq> ENAMETOOLONG then
             (case tmpfs_lookup e rel False False True s1 of
                (Inr j, s2) \<Rightarrow> (Inr j, s2)
              | (Inl _, s2) \<Rightarrow> (Inl err, s2))
           else (Inl err, s1))"

text \<open>The parent directory of a path and its last component, with the path cut at 511 characters.\<close>

definition tmpfs_parent :: "tenv \<Rightarrow> string option \<Rightarrow> tmpfs \<Rightarrow> (nat \<times> string) res \<times> tmpfs" where
  "tmpfs_parent e rel s =
    (let tmp = take 511 (case rel of None \<Rightarrow> [] | Some p \<Rightarrow> p);
         t = rev (skip_slashes (rev (skip_slashes tmp)));
         nm = rev (takeWhile (\<lambda>c. c \<noteq> slash) (rev t))
     in if t = [] then (Inl EEXIST, s)
        else if length nm \<ge> TMPFS_MAX_NAME then (Inl ENAMETOOLONG, s)
        else if slash \<notin> set t then (Inr (0, nm), if tmpfs_ready s then s else tmpfs_init_root s)
        else case tmpfs_lookup e (Some (take (length t - length nm - 1) t)) False False True s of
            (Inl err, s1) \<Rightarrow> (Inl err, s1)
          | (Inr i, s1) \<Rightarrow> (Inr (i, nm), s1))"

section \<open>Operations on open files\<close>

text \<open>The conversion of a 32-bit value to \<^verbatim>\<open>int\<close>.\<close>

definition c_int :: "nat \<Rightarrow> int" where
  "c_int n = (let m = int n mod 2 ^ 32 in if m < 2 ^ 31 then m else m - 2 ^ 32)"

text \<open>The effect of \<^verbatim>\<open>VFS_O_TRUNC\<close> in \<^verbatim>\<open>tmpfs_open\<close>.\<close>

definition empty_inode :: "tenv \<Rightarrow> nat \<Rightarrow> tmpfs \<Rightarrow> tmpfs" where
  "empty_inode e ino s =
    (let (n1, s1) = tmpfs_free_data (inodes s ! ino) s;
         (now, s2) = tmpfs_now e s1
     in set_inode ino (n1\<lparr>n_size := 0, n_mtime := now, n_ctime := now\<rparr>) s2)"

definition tmpfs_open :: "tenv \<Rightarrow> string option \<Rightarrow> u32 \<Rightarrow> tmpfs \<Rightarrow> thandle option \<times> tmpfs" where
  "tmpfs_open e rel_path flags s =
    (let (r, s1) = (case tmpfs_lookup e rel_path False False False s of
           (Inr i, s1) \<Rightarrow> (Inr i, s1)
         | (Inl err, s1) \<Rightarrow>
             if flags AND VFS_O_CREATE \<noteq> 0 then tmpfs_lookup e rel_path True True False s1 else (Inl err, s1))
     in case r of
          Inl _ \<Rightarrow> (None, s1)
        | Inr idx \<Rightarrow>
            if tmpfs_isdir s1 idx \<or> tmpfs_islnk s1 idx then (None, s1)
            else
              let ino = tn_ino (nodes s1 ! idx);
                  s2 = (if flags AND VFS_O_TRUNC \<noteq> 0 then empty_inode e ino s1 else s1);
                  (ok, s3) = tmpfs_kalloc e 12 s2;
                  n = inodes s3 ! ino
              in if \<not> ok then (None, s3)
                 else (Some \<lparr>h_ino = ino, h_pos = (if flags AND VFS_O_APPEND \<noteq> 0 then n_size n else 0), h_flags = flags\<rparr>,
                       set_inode ino (n\<lparr>n_opens := n_opens n + 1\<rparr>) s3))"

definition tmpfs_hin :: "tmpfs \<Rightarrow> thandle option \<Rightarrow> nat option" where
  "tmpfs_hin s handle =
    (case handle of
       None \<Rightarrow> None
     | Some h \<Rightarrow>
         if h_ino h = 0 \<or> h_ino h \<ge> TMPFS_MAX_NODES \<or> \<not> n_used (inodes s ! h_ino h) then None else Some (h_ino h))"

definition tmpfs_close :: "thandle option \<Rightarrow> tmpfs \<Rightarrow> tmpfs" where
  "tmpfs_close handle s =
    (case tmpfs_hin s handle of
       None \<Rightarrow> s
     | Some ino \<Rightarrow>
         let n = inodes s ! ino
         in tmpfs_put_inode ino (if n_opens n > 0 then set_inode ino (n\<lparr>n_opens := n_opens n - 1\<rparr>) s else s))"

definition tmpfs_read :: "thandle option \<Rightarrow> nat \<Rightarrow> tmpfs \<Rightarrow> int \<times> u8 list \<times> thandle option" where
  "tmpfs_read handle sz s =
    (case tmpfs_hin s handle of
       None \<Rightarrow> (- errno_code EBADF, [], handle)
     | Some ino \<Rightarrow>
         let h = the handle;
             out = read_inode (inodes s ! ino) (h_pos h) sz
         in (c_int (length out), out, Some (h\<lparr>h_pos := h_pos h + length out\<rparr>)))"

definition tmpfs_write :: "tenv \<Rightarrow> thandle option \<Rightarrow> u8 list \<Rightarrow> tmpfs \<Rightarrow> int \<times> thandle option \<times> tmpfs" where
  "tmpfs_write e handle buffer s =
    (case tmpfs_hin s handle of
       None \<Rightarrow> (- errno_code EBADF, handle, s)
     | Some ino \<Rightarrow>
         let h = the handle in
         if h_flags h AND VFS_O_WRITE = 0 then (- errno_code EBADF, handle, s)
         else
           let h1 = (if h_flags h AND VFS_O_APPEND \<noteq> 0 then h\<lparr>h_pos := n_size (inodes s ! ino)\<rparr> else h)
           in case write_inode e (h_pos h1) buffer (inodes s ! ino) s of
                (Inl err, n1, s1) \<Rightarrow> (- errno_code err, Some h1, set_inode ino n1 s1)
              | (Inr d, n1, s1) \<Rightarrow> (c_int d, Some (h1\<lparr>h_pos := h_pos h1 + d\<rparr>), set_inode ino n1 s1))"

definition tmpfs_seek :: "thandle option \<Rightarrow> int \<Rightarrow> int \<Rightarrow> tmpfs \<Rightarrow> int \<times> thandle option" where
  "tmpfs_seek handle offset whence s =
    (case tmpfs_hin s handle of
       None \<Rightarrow> (- errno_code EBADF, handle)
     | Some ino \<Rightarrow>
         let h = the handle in
         if whence \<noteq> 0 \<and> whence \<noteq> 1 \<and> whence \<noteq> 2 then (- errno_code EINVAL, handle)
         else
           let np = (if whence = 0 then offset
                     else if whence = 1 then int (h_pos h) + offset
                     else int (n_size (inodes s ! ino)) + offset)
           in if np < 0 then (- errno_code EINVAL, handle)
              else let pos = nat (np mod 2 ^ 32) in (c_int pos, Some (h\<lparr>h_pos := pos\<rparr>)))"

definition tmpfs_get_size :: "thandle option \<Rightarrow> tmpfs \<Rightarrow> int" where
  "tmpfs_get_size handle s =
    (case tmpfs_hin s handle of None \<Rightarrow> - errno_code EBADF | Some ino \<Rightarrow> c_int (n_size (inodes s ! ino)))"

definition tmpfs_ftruncate :: "tenv \<Rightarrow> thandle option \<Rightarrow> nat \<Rightarrow> tmpfs \<Rightarrow> unit res \<times> tmpfs" where
  "tmpfs_ftruncate e handle len s =
    (case tmpfs_hin s handle of
       None \<Rightarrow> (Inl EBADF, s)
     | Some ino \<Rightarrow> (case tmpfs_set_len e len (inodes s ! ino) s of (r, n1, s1) \<Rightarrow> (r, set_inode ino n1 s1)))"

section \<open>Operations on paths\<close>

text \<open>
  The loop of \<^verbatim>\<open>tmpfs_rename\<close> from a directory to the root: is \<open>src\<close> on the way? On a table with a cycle it
  would not end, which is \<open>None\<close>.
\<close>

partial_function (option) on_path :: "tmpfs \<Rightarrow> nat \<Rightarrow> nat \<Rightarrow> bool option" where
  "on_path s src a =
    (if a = src then Some True
     else case tn_parent (nodes s ! a) of None \<Rightarrow> Some False | Some p \<Rightarrow> on_path s src p)"

text \<open>The part of \<^verbatim>\<open>tmpfs_rename\<close> that moves the entry.\<close>

definition move_node :: "tenv \<Rightarrow> nat \<Rightarrow> nat \<Rightarrow> string \<Rightarrow> tmpfs \<Rightarrow> tmpfs option" where
  "move_node e src dparent leaf s =
    (case tn_parent (nodes s ! src) of
       None \<Rightarrow> None
     | Some p \<Rightarrow>
         let s1 = touch_m e (tn_ino (nodes s ! p)) s;
             s2 = set_node src ((nodes s1 ! src)\<lparr>tn_parent := Some dparent, tn_name := take (TMPFS_MAX_NAME - 1) leaf\<rparr>) s1;
             s3 = touch_m e (tn_ino (nodes s2 ! dparent)) s2
         in Some (touch_c e (tn_ino (nodes s3 ! src)) s3))"

definition tmpfs_rename :: "tenv \<Rightarrow> string option \<Rightarrow> string option \<Rightarrow> tmpfs \<Rightarrow> (unit res \<times> tmpfs) option" where
  "tmpfs_rename e old_rel new_rel s =
    (case tmpfs_lookup_any e old_rel s of
       (Inl err, s1) \<Rightarrow> Some (Inl err, s1)
     | (Inr src, s1) \<Rightarrow>
         if src = 0 then Some (Inl EBUSY, s1)
         else case tmpfs_parent e new_rel s1 of
             (Inl err, s2) \<Rightarrow> Some (Inl (if err = EEXIST then EBUSY else err), s2)
           | (Inr (dparent, leaf), s2) \<Rightarrow>
               (case on_path s2 src dparent of
                  None \<Rightarrow> None
                | Some True \<Rightarrow> Some (Inl EINVAL, s2)
                | Some False \<Rightarrow>
                    (case tmpfs_find_child s2 dparent leaf of
                       None \<Rightarrow> map_option (Pair (Inr ())) (move_node e src dparent leaf s2)
                     | Some dst \<Rightarrow>
                         if dst = src then Some (Inr (), s2)
                         else if tn_ino (nodes s2 ! dst) = tn_ino (nodes s2 ! src) then Some (Inr (), s2)
                         else if tmpfs_isdir s2 dst \<noteq> tmpfs_isdir s2 src then
                           Some (Inl (if tmpfs_isdir s2 dst then EISDIR else ENOTDIR), s2)
                         else if tmpfs_isdir s2 dst \<and> tmpfs_has_children s2 dst then Some (Inl ENOTEMPTY, s2)
                         else map_option (Pair (Inr ())) (move_node e src dparent leaf (tmpfs_drop_node e dst s2)))))"

definition tmpfs_rmdir :: "tenv \<Rightarrow> string option \<Rightarrow> tmpfs \<Rightarrow> unit res \<times> tmpfs" where
  "tmpfs_rmdir e rel_path s =
    (case tmpfs_lookup e rel_path False False True s of
       (Inl err, s1) \<Rightarrow> (Inl err, s1)
     | (Inr idx, s1) \<Rightarrow>
         if idx = 0 then (Inl EBUSY, s1)
         else if tmpfs_has_children s1 idx then (Inl ENOTEMPTY, s1)
         else (Inr (), tmpfs_drop_node e idx s1))"

definition tmpfs_create :: "tenv \<Rightarrow> string option \<Rightarrow> tmpfs \<Rightarrow> unit res \<times> tmpfs" where
  "tmpfs_create e rel_path s =
    (case tmpfs_lookup e rel_path True True False s of
       (Inl err, s1) \<Rightarrow> (Inl err, s1)
     | (Inr _, s1) \<Rightarrow> (Inr (), s1))"

definition tmpfs_mkdir :: "tenv \<Rightarrow> string option \<Rightarrow> tmpfs \<Rightarrow> unit res \<times> tmpfs" where
  "tmpfs_mkdir e rel_path s =
    (case tmpfs_lookup e rel_path True False True s of
       (Inl err, s1) \<Rightarrow> (Inl err, s1)
     | (Inr _, s1) \<Rightarrow> (Inr (), s1))"

definition tmpfs_unlink :: "tenv \<Rightarrow> string option \<Rightarrow> tmpfs \<Rightarrow> unit res \<times> tmpfs" where
  "tmpfs_unlink e rel_path s =
    (case tmpfs_lookup e rel_path False False False s of
       (Inr idx, s1) \<Rightarrow> if idx = 0 then (Inl EBUSY, s1) else (Inr (), tmpfs_drop_node e idx s1)
     | (Inl _, s1) \<Rightarrow>
         (case tmpfs_lookup e rel_path False False True s1 of
            (Inl err, s2) \<Rightarrow> (Inl err, s2)
          | (Inr idx, s2) \<Rightarrow>
              if tmpfs_has_children s2 idx then (Inl EBUSY, s2)
              else if idx = 0 then (Inl EBUSY, s2)
              else (Inr (), tmpfs_drop_node e idx s2)))"

definition tmpfs_exists :: "tenv \<Rightarrow> string option \<Rightarrow> tmpfs \<Rightarrow> bool \<times> tmpfs" where
  "tmpfs_exists e rel_path s =
    (if rel_path = None \<or> rel_path = Some [] then (True, s)
     else case tmpfs_lookup_any e rel_path s of (r, s1) \<Rightarrow> (case r of Inr _ \<Rightarrow> True | Inl _ \<Rightarrow> False, s1))"

record vfs_dirent =
  de_name :: string
  de_inode :: nat
  de_is_dir :: bool
  de_lnk :: bool
  de_size :: nat

definition tmpfs_readdir :: "tenv \<Rightarrow> string option \<Rightarrow> nat \<Rightarrow> tmpfs \<Rightarrow> vfs_dirent list res \<times> tmpfs" where
  "tmpfs_readdir e rel_path max_entries s =
    (case tmpfs_lookup e rel_path False False True s of
       (Inl err, s1) \<Rightarrow> (Inl err, s1)
     | (Inr idx, s1) \<Rightarrow>
         (Inr (map (\<lambda>i. \<lparr>de_name = take 255 (tn_name (nodes s1 ! i)), de_inode = tn_ino (nodes s1 ! i) + 1,
                         de_is_dir = tmpfs_isdir s1 i, de_lnk = tmpfs_islnk s1 i, de_size = n_size (NI s1 i)\<rparr>)
                (take max_entries
                  (filter (\<lambda>i. tn_used (nodes s1 ! i) \<and> tn_parent (nodes s1 ! i) = Some idx) [1..<TMPFS_MAX_NODES]))),
          s1))"

record vfs_stat =
  st_mode :: u32
  st_uid :: u32
  st_gid :: u32
  st_nlink :: nat
  st_blksize :: nat
  st_size :: nat
  st_ino :: nat
  st_blocks :: nat
  st_atime :: int
  st_mtime :: int
  st_ctime :: int

definition tmpfs_stat :: "tenv \<Rightarrow> string option \<Rightarrow> tmpfs \<Rightarrow> vfs_stat res \<times> tmpfs" where
  "tmpfs_stat e rel_path s =
    (case tmpfs_lookup_any e rel_path s of
       (Inl err, s1) \<Rightarrow> (Inl err, s1)
     | (Inr idx, s1) \<Rightarrow>
         let n = NI s1 idx;
             st = \<lparr>st_mode = n_mode n, st_uid = n_uid n, st_gid = n_gid n, st_nlink = 0, st_blksize = 512, st_size = 0,
                   st_ino = tn_ino (nodes s1 ! idx) + 1, st_blocks = 0, st_atime = n_mtime n, st_mtime = n_mtime n,
                   st_ctime = n_ctime n\<rparr>
         in (Inr (if tmpfs_isdir s1 idx
                  then st\<lparr>st_nlink := 2 + length (filter (\<lambda>i. tn_used (nodes s1 ! i) \<and> tn_parent (nodes s1 ! i) = Some idx \<and>
                                                   tmpfs_isdir s1 i) [1..<TMPFS_MAX_NODES])\<rparr>
                  else st\<lparr>st_nlink := (if n_nlink n \<noteq> 0 then n_nlink n else 1), st_size := n_size n,
                         st_blocks := (if tmpfs_islnk s1 idx then 0 else (n_size n + 511) div 512)\<rparr>), s1))"

definition tmpfs_truncate :: "tenv \<Rightarrow> string option \<Rightarrow> nat \<Rightarrow> tmpfs \<Rightarrow> unit res \<times> tmpfs" where
  "tmpfs_truncate e rel_path len s =
    (case tmpfs_lookup e rel_path False False False s of
       (Inl err, s1) \<Rightarrow> (Inl err, s1)
     | (Inr idx, s1) \<Rightarrow>
         if tmpfs_isdir s1 idx then (Inl EISDIR, s1)
         else if tmpfs_islnk s1 idx then (Inl EINVAL, s1)
         else
           let ino = tn_ino (nodes s1 ! idx)
           in case tmpfs_set_len e len (inodes s1 ! ino) s1 of (r, n1, s2) \<Rightarrow> (r, set_inode ino n1 s2))"

definition tmpfs_readlink :: "tenv \<Rightarrow> string option \<Rightarrow> nat \<Rightarrow> tmpfs \<Rightarrow> string res \<times> tmpfs" where
  "tmpfs_readlink e rel_path cap s =
    (if rel_path = None \<or> rel_path = Some [] then (Inl EINVAL, s)
     else case tmpfs_lookup_any e rel_path s of
         (Inl err, s1) \<Rightarrow> (Inl err, s1)
       | (Inr idx, s1) \<Rightarrow>
           (case n_target (NI s1 idx) of
              None \<Rightarrow> (Inl EINVAL, s1)
            | Some target \<Rightarrow>
                if \<not> tmpfs_islnk s1 idx then (Inl EINVAL, s1)
                else (Inr (take (if n_size (NI s1 idx) > cap then cap else n_size (NI s1 idx)) target), s1)))"

definition tmpfs_symlink :: "tenv \<Rightarrow> string option \<Rightarrow> string \<Rightarrow> tmpfs \<Rightarrow> unit res \<times> tmpfs" where
  "tmpfs_symlink e rel_path target s =
    (if target = [] then (Inl ENOENT, s)
     else if length target > TMPFS_LINK_MAX then (Inl ENAMETOOLONG, s)
     else case tmpfs_parent e rel_path s of
         (Inl err, s1) \<Rightarrow> (Inl err, s1)
       | (Inr (par, leaf), s1) \<Rightarrow>
           if tmpfs_find_child s1 par leaf \<noteq> None then (Inl EEXIST, s1)
           else
             let (ok, s2) = tmpfs_kalloc e (length target + 1) s1 in
             if \<not> ok then (Inl ENOSPC, s2)
             else case tmpfs_alloc_inode e (T_IFLNK OR 0x1FF) s2 of
                 (None, s3) \<Rightarrow> (Inl ENOSPC, s3)
               | (Some ino, s3) \<Rightarrow>
                   let s4 = set_inode ino ((inodes s3 ! ino)\<lparr>n_target := Some target, n_size := length target\<rparr>) s3
                   in case tmpfs_add_node e par leaf ino s4 of
                        (Inr _, s5) \<Rightarrow> (Inr (), s5)
                      | (Inl err, s5) \<Rightarrow>
                          (Inl err, tmpfs_put_inode ino (set_inode ino ((inodes s5 ! ino)\<lparr>n_nlink := 0\<rparr>) s5)))"

definition tmpfs_link :: "tenv \<Rightarrow> string option \<Rightarrow> string option \<Rightarrow> tmpfs \<Rightarrow> unit res \<times> tmpfs" where
  "tmpfs_link e old_rel new_rel s =
    (case tmpfs_lookup_any e old_rel s of
       (Inl err, s1) \<Rightarrow> (Inl err, s1)
     | (Inr src, s1) \<Rightarrow>
         if tmpfs_isdir s1 src then (Inl EPERM, s1)
         else case tmpfs_parent e new_rel s1 of
             (Inl err, s2) \<Rightarrow> (Inl err, s2)
           | (Inr (par, leaf), s2) \<Rightarrow>
               if tmpfs_find_child s2 par leaf \<noteq> None then (Inl EEXIST, s2)
               else case tmpfs_add_node e par leaf (tn_ino (nodes s2 ! src)) s2 of
                   (Inl err, s3) \<Rightarrow> (Inl err, s3)
                 | (Inr _, s3) \<Rightarrow>
                     let ino = tn_ino (nodes s3 ! src);
                         n = inodes s3 ! ino
                     in (Inr (), touch_c e ino (set_inode ino (n\<lparr>n_nlink := n_nlink n + 1\<rparr>) s3)))"

definition tmpfs_setattr ::
  "tenv \<Rightarrow> string option \<Rightarrow> u32 \<Rightarrow> u32 \<Rightarrow> u32 \<Rightarrow> u32 \<Rightarrow> tmpfs \<Rightarrow> unit res \<times> tmpfs" where
  "tmpfs_setattr e rel_path what mode uid gid s =
    (case tmpfs_lookup_any e rel_path s of
       (Inl err, s1) \<Rightarrow> (Inl err, s1)
     | (Inr idx, s1) \<Rightarrow>
         let ino = tn_ino (nodes s1 ! idx);
             n0 = inodes s1 ! ino;
             n1 = (if what AND 1 \<noteq> 0 \<and> \<not> tmpfs_islnk s1 idx
                   then n0\<lparr>n_mode := (n_mode n0 AND T_IFMT) OR (mode AND 0xFFF)\<rparr> else n0);
             n2 = (if what AND 2 \<noteq> 0
                   then n1\<lparr>n_uid := (if uid \<noteq> - 1 then uid else n_uid n1), n_gid := (if gid \<noteq> - 1 then gid else n_gid n1),
                           n_mode := (if \<not> tmpfs_islnk s1 idx \<and> \<not> tmpfs_isdir s1 idx then n_mode n1 AND NOT 0xC00 else n_mode n1)\<rparr>
                   else n1)
         in (Inr (), touch_c e ino (set_inode ino n2 s1)))"

text \<open>
  Mounting on \<^verbatim>\<open>/tmp\<close>: whether the root is the read-only install disc and what \<^verbatim>\<open>vfs_mount\<close> returns (\<open>None\<close> for 0)
  come from other parts of the kernel.
\<close>

definition tmpfs_mount_tmp :: "tenv \<Rightarrow> bool \<Rightarrow> errno option \<Rightarrow> tmpfs \<Rightarrow> unit res \<times> tmpfs" where
  "tmpfs_mount_tmp e optical vfs_mount s =
    (if \<not> optical then (Inr (), s)
     else
       let s1 = tmpfs_size_from_ram e (if tmpfs_ready s then s else tmpfs_init_root s)
       in (case vfs_mount of
             None \<Rightarrow> Inr ()
           | Some err \<Rightarrow> if err = EBUSY then Inr () else Inl err, s1))"

end
