(* ===== verification/Tmptree.thy ===== *)
theory Tmptree
  imports Tmpfs
begin

text \<open>
  The tree of the memory file system: the typing of nodes and inodes that every operation of
  \<^verbatim>\<open>src/src/tmpfs.c\<close> keeps. The entries form a tree of directories below the root, names are unique in a
  directory, the link count of an inode is the number of its entries and its open count the number
  of handles on it, a directory has one name, the three kinds of inode have the data that belongs to
  them, and the booked space is that of the chunks in use.
\<close>

section \<open>Well-formed file systems\<close>

definition name_ok :: "string \<Rightarrow> bool" where
  "name_ok nm \<longleftrightarrow> nm \<noteq> [] \<and> length nm < TMPFS_MAX_NAME \<and> slash \<notin> set nm"

abbreviation is_dir :: "tinode \<Rightarrow> bool" where
  "is_dir n \<equiv> n_mode n AND T_IFMT = T_IFDIR"

definition kind_ok :: "tinode \<Rightarrow> bool" where
  "kind_ok n \<longleftrightarrow>
    n_mode n AND T_IFMT = T_IFDIR \<and> n_chunks n = [] \<and> n_size n = 0 \<and> n_target n = None \<or>
    n_mode n AND T_IFMT = T_IFREG \<and> n_target n = None \<or>
    n_mode n AND T_IFMT = T_IFLNK \<and> n_chunks n = [] \<and>
      (\<exists>t. n_target n = Some t \<and> n_size n = length t \<and> 0 < length t \<and> length t \<le> TMPFS_LINK_MAX)"

definition links :: "tmpfs \<Rightarrow> (nat \<times> nat) set" where
  "links s = {(p, i). i < TMPFS_MAX_NODES \<and> tn_used (nodes s ! i) \<and> tn_parent (nodes s ! i) = Some p}"

definition live_node :: "tmpfs \<Rightarrow> nat \<Rightarrow> bool" where
  "live_node s i \<longleftrightarrow> i < TMPFS_MAX_NODES \<and> tn_used (nodes s ! i)"

definition live_dir :: "tmpfs \<Rightarrow> nat \<Rightarrow> bool" where
  "live_dir s i \<longleftrightarrow> live_node s i \<and> tmpfs_isdir s i"

definition tnode_ok :: "tmpfs \<Rightarrow> nat \<Rightarrow> bool" where
  "tnode_ok s i \<longleftrightarrow>
    tn_ino (nodes s ! i) < TMPFS_MAX_NODES \<and> n_used (NI s i) \<and> (0, i) \<in> (links s)\<^sup>* \<and>
    (i \<noteq> 0 \<longrightarrow> tn_ino (nodes s ! i) \<noteq> 0 \<and> name_ok (tn_name (nodes s ! i)) \<and>
      (\<exists>p. tn_parent (nodes s ! i) = Some p \<and> live_dir s p))"

definition ttree_ok :: "tmpfs \<Rightarrow> bool" where
  "ttree_ok s \<longleftrightarrow>
    length (nodes s) = TMPFS_MAX_NODES \<and> length (inodes s) = TMPFS_MAX_NODES \<and>
    live_dir s 0 \<and> tn_parent (nodes s ! 0) = None \<and> tn_ino (nodes s ! 0) = 0 \<and>
    (\<forall>i. live_node s i \<longrightarrow> tnode_ok s i) \<and>
    (\<forall>i j. live_node s i \<longrightarrow> live_node s j \<longrightarrow> i \<noteq> 0 \<longrightarrow> tn_parent (nodes s ! i) = tn_parent (nodes s ! j) \<longrightarrow>
       tn_name (nodes s ! i) = tn_name (nodes s ! j) \<longrightarrow> i = j)"

text \<open>The entries that name an inode, and the handles open on it.\<close>

definition named_by :: "tmpfs \<Rightarrow> nat \<Rightarrow> nat set" where
  "named_by s k = {i. live_node s i \<and> tn_ino (nodes s ! i) = k}"

definition opened :: "thandle list \<Rightarrow> nat \<Rightarrow> nat" where
  "opened hs k = length (filter (\<lambda>h. h_ino h = k) hs)"

text \<open>
  The inode \<open>k\<close>, with a link count that is \<open>x k\<close> above the number of its entries; it may be without a name and
  a handle when \<open>k\<close> is in \<open>X\<close>. Between operations \<open>x\<close> is zero and \<open>X\<close> is empty.
\<close>

definition inode_ok :: "(nat \<Rightarrow> int) \<Rightarrow> nat set \<Rightarrow> tmpfs \<Rightarrow> thandle list \<Rightarrow> nat \<Rightarrow> bool" where
  "inode_ok x X s hs k \<longleftrightarrow>
    (let n = inodes s ! k in
     n_opens n = opened hs k \<and>
     (if n_used n
      then data_ok n \<and> kind_ok n \<and>
        (k \<noteq> 0 \<longrightarrow> int (n_nlink n) = int (card (named_by s k)) + x k \<and> (k \<notin> X \<longrightarrow> n_nlink n \<noteq> 0 \<or> n_opens n \<noteq> 0)) \<and>
        (is_dir n \<longrightarrow> card (named_by s k) \<le> 1)
      else n = no_inode))"

definition thandle_ok :: "tmpfs \<Rightarrow> thandle \<Rightarrow> bool" where
  "thandle_ok s h \<longleftrightarrow>
    0 < h_ino h \<and> h_ino h < TMPFS_MAX_NODES \<and> n_used (inodes s ! h_ino h) \<and>
    n_mode (inodes s ! h_ino h) AND T_IFMT = T_IFREG \<and> h_pos h < 2 ^ 32"

definition chunks_in_use :: "tinode list \<Rightarrow> nat" where
  "chunks_in_use ns = (\<Sum>n \<leftarrow> ns. chunk_count (n_chunks n))"

definition tmpfs_inv :: "(nat \<Rightarrow> int) \<Rightarrow> nat set \<Rightarrow> tmpfs \<Rightarrow> thandle list \<Rightarrow> bool" where
  "tmpfs_inv x X s hs \<longleftrightarrow>
    tmpfs_ready s \<and> ttree_ok s \<and> (\<forall>k < TMPFS_MAX_NODES. inode_ok x X s hs k) \<and> (\<forall>h \<in> set hs. thandle_ok s h) \<and>
    tmpfs_used_bytes s = TMPFS_CHUNK * chunks_in_use (inodes s)"

abbreviation tmpfs_ok :: "tmpfs \<Rightarrow> thandle list \<Rightarrow> bool" where
  "tmpfs_ok s hs \<equiv> tmpfs_inv (\<lambda>_. 0) {} s hs"

section \<open>Changing one inode\<close>

lemma max_pos [simp]: "0 < TMPFS_MAX_NODES"
  by (simp add: TMPFS_MAX_NODES_def)

lemma chunks_in_use_update:
  "k < length ns \<Longrightarrow> chunks_in_use (ns[k := n]) + chunk_count (n_chunks (ns ! k)) = chunks_in_use ns + chunk_count (n_chunks n)"
  by (induction ns arbitrary: k) (auto simp: chunks_in_use_def nth_Cons' split: nat.splits)

lemma chunks_in_use_le: "k < length ns \<Longrightarrow> chunk_count (n_chunks (ns ! k)) \<le> chunks_in_use ns"
  using chunks_in_use_update [of k ns "(ns ! k)\<lparr>n_chunks := []\<rparr>"] by simp

lemma tmpfs_inv_simps:
  assumes "tmpfs_inv x X s hs"
  shows "tmpfs_ready s" "ttree_ok s" "length (nodes s) = TMPFS_MAX_NODES" "length (inodes s) = TMPFS_MAX_NODES"
    "live_dir s 0" "tmpfs_used_bytes s = TMPFS_CHUNK * chunks_in_use (inodes s)"
  using assms by (auto simp: tmpfs_inv_def ttree_ok_def)

text \<open>The same nodes and, for every inode, the same kind: then the tree is the same.\<close>

lemma tree_same:
  assumes "ttree_ok s" and "nodes s' = nodes s" and "length (inodes s') = length (inodes s)"
    and "\<And>k. k < TMPFS_MAX_NODES \<Longrightarrow> named_by s k \<noteq> {} \<Longrightarrow>
      n_used (inodes s' ! k) \<and> n_mode (inodes s' ! k) AND T_IFMT = n_mode (inodes s ! k) AND T_IFMT"
  shows "ttree_ok s'"
proof -
  have l: "live_node s' = live_node s" "links s' = links s" using assms(2) by (auto simp: live_node_def links_def fun_eq_iff)
  have k: "n_used (NI s' i) \<and> n_mode (NI s' i) AND T_IFMT = n_mode (NI s i) AND T_IFMT" if "live_node s i" for i
  proof -
    have "tn_ino (nodes s ! i) < TMPFS_MAX_NODES" using that assms(1) by (auto simp: ttree_ok_def tnode_ok_def)
    moreover have "named_by s (tn_ino (nodes s ! i)) \<noteq> {}" using that by (auto simp: named_by_def)
    ultimately show ?thesis using assms(4) by (auto simp: NI_def assms(2))
  qed
  have d: "live_dir s' i \<longleftrightarrow> live_dir s i" for i
    using k [of i] l by (auto simp: live_dir_def tmpfs_isdir_def)
  have "tnode_ok s' i" if "live_node s i" "tnode_ok s i" for i
    using that k [of i] unfolding tnode_ok_def l(2) d assms(2) by simp
  then show ?thesis using assms(1,3) unfolding ttree_ok_def d l assms(2) by simp
qed

lemma named_used: "ttree_ok s \<Longrightarrow> named_by s k \<noteq> {} \<Longrightarrow> k < TMPFS_MAX_NODES \<and> n_used (inodes s ! k)"
  by (auto simp: ttree_ok_def named_by_def tnode_ok_def NI_def)

lemma inode_change:
  assumes "tmpfs_inv x X s hs" and "k < TMPFS_MAX_NODES" and "nodes s' = nodes s"
    and "inodes s' = (inodes s)[k := n']" and "tmpfs_ready s'"
    and "tmpfs_used_bytes s' + TMPFS_CHUNK * chunk_count (n_chunks (inodes s ! k)) =
      tmpfs_used_bytes s + TMPFS_CHUNK * chunk_count (n_chunks n')"
    and "named_by s k \<noteq> {} \<Longrightarrow> n_used n' \<and> n_mode n' AND T_IFMT = n_mode (inodes s ! k) AND T_IFMT"
    and "inode_ok x' X' s' hs' k"
    and "\<And>j. j < TMPFS_MAX_NODES \<Longrightarrow> j \<noteq> k \<Longrightarrow> opened hs' j = opened hs j \<and> x' j = x j \<and> (j \<in> X' \<longleftrightarrow> j \<in> X)"
    and "\<And>h. h \<in> set hs' \<Longrightarrow> thandle_ok s' h"
  shows "tmpfs_inv x' X' s' hs'"
proof -
  note inv = tmpfs_inv_simps [OF assms(1)]
  have nth: "inodes s' ! j = (if j = k then n' else inodes s ! j)" if "j < TMPFS_MAX_NODES" for j
    using that assms(2,4) inv(4) by (simp add: nth_list_update)
  have "n_used (inodes s' ! j) \<and> n_mode (inodes s' ! j) AND T_IFMT = n_mode (inodes s ! j) AND T_IFMT"
    if "j < TMPFS_MAX_NODES" "named_by s j \<noteq> {}" for j
    using that assms(7) named_used [OF inv(2)] nth by auto
  then have "ttree_ok s'" using inv(4) assms(3,4) by (intro tree_same [OF inv(2)]) auto
  moreover have "inode_ok x' X' s' hs' j" if "j < TMPFS_MAX_NODES" for j
  proof (cases "j = k")
    case False
    have "named_by s' j = named_by s j" by (auto simp: named_by_def live_node_def assms(3))
    moreover have "inode_ok x X s hs j" using assms(1) that by (simp add: tmpfs_inv_def)
    ultimately show ?thesis
      using False nth [OF that] assms(9) [OF that False] by (auto simp: inode_ok_def Let_def split: if_splits)
  qed (use assms(8) in simp)
  moreover have "tmpfs_used_bytes s' = TMPFS_CHUNK * chunks_in_use (inodes s')"
  proof -
    have "TMPFS_CHUNK * chunks_in_use (inodes s') + TMPFS_CHUNK * chunk_count (n_chunks (inodes s ! k)) =
        TMPFS_CHUNK * chunks_in_use (inodes s) + TMPFS_CHUNK * chunk_count (n_chunks n')"
      using chunks_in_use_update [of k "inodes s" n'] assms(2,4) inv(4) by (metis add_mult_distrib2)
    with assms(6) inv(6) show ?thesis by simp
  qed
  ultimately show ?thesis using assms(5,10) by (simp add: tmpfs_inv_def)
qed

lemma inv_inode: "tmpfs_inv x X s hs \<Longrightarrow> k < TMPFS_MAX_NODES \<Longrightarrow> inode_ok x X s hs k"
  by (simp add: tmpfs_inv_def)

lemma inv_handle: "tmpfs_inv x X s hs \<Longrightarrow> h \<in> set hs \<Longrightarrow> thandle_ok s h"
  by (simp add: tmpfs_inv_def)

text \<open>A change of the data or of the attributes of an inode.\<close>

lemma inode_data:
  assumes "tmpfs_inv x X s hs" and "k < TMPFS_MAX_NODES" and "nodes s' = nodes s"
    and "inodes s' = (inodes s)[k := n']" and "tmpfs_ready s'"
    and "tmpfs_used_bytes s' + TMPFS_CHUNK * chunk_count (n_chunks (inodes s ! k)) =
      tmpfs_used_bytes s + TMPFS_CHUNK * chunk_count (n_chunks n')"
    and "n_used n' = n_used (inodes s ! k)" and "n_mode n' AND T_IFMT = n_mode (inodes s ! k) AND T_IFMT"
    and "n_nlink n' = n_nlink (inodes s ! k)" and "n_opens n' = n_opens (inodes s ! k)"
    and "n_used n' \<Longrightarrow> data_ok n' \<and> kind_ok n'" and "\<not> n_used n' \<Longrightarrow> n' = no_inode"
  shows "tmpfs_inv x X s' hs"
proof (rule inode_change [OF assms(1-6)])
  have l: "inodes s' ! k = n'" using tmpfs_inv_simps(4) [OF assms(1)] assms(2,4) by simp
  have nm: "named_by s' k = named_by s k" by (auto simp: named_by_def live_node_def assms(3))
  show "inode_ok x X s' hs k"
    using inv_inode [OF assms(1,2)] assms(7-12) unfolding inode_ok_def l nm Let_def by (auto split: if_splits)
  show "thandle_ok s' h" if "h \<in> set hs" for h
    using inv_handle [OF assms(1) that] assms(2,4,7,8) tmpfs_inv_simps(4) [OF assms(1)]
    by (auto simp: thandle_ok_def nth_list_update)
  show "named_by s k \<noteq> {} \<Longrightarrow> n_used n' \<and> n_mode n' AND T_IFMT = n_mode (inodes s ! k) AND T_IFMT"
    using named_used [OF tmpfs_inv_simps(2) [OF assms(1)]] assms(7,8) by auto
qed auto

text \<open>What the clock is written into does not matter.\<close>

lemma touch_simps [simp]:
  "nodes (touch_m e k s) = nodes s" "nodes (touch_c e k s) = nodes s"
  "inodes (touch_m e k s) = (inodes s)[k := (inodes s ! k)\<lparr>n_mtime := e_clock e (requests s)\<rparr>]"
  "inodes (touch_c e k s) = (inodes s)[k := (inodes s ! k)\<lparr>n_ctime := e_clock e (requests s)\<rparr>]"
  "tmpfs_ready (touch_m e k s) = tmpfs_ready s" "tmpfs_ready (touch_c e k s) = tmpfs_ready s"
  "tmpfs_used_bytes (touch_m e k s) = tmpfs_used_bytes s" "tmpfs_used_bytes (touch_c e k s) = tmpfs_used_bytes s"
  by (simp_all add: touch_m_def touch_c_def tmpfs_now_def set_inode_def)

lemma times_ok [simp]:
  "data_ok (n\<lparr>n_mtime := a\<rparr>) = data_ok n" "data_ok (n\<lparr>n_ctime := a\<rparr>) = data_ok n"
  "kind_ok (n\<lparr>n_mtime := a\<rparr>) = kind_ok n" "kind_ok (n\<lparr>n_ctime := a\<rparr>) = kind_ok n"
  by (simp_all add: data_ok_def kind_ok_def)

lemma touch_ok:
  assumes "tmpfs_inv x X s hs" and "k < TMPFS_MAX_NODES" and "n_used (inodes s ! k)"
  shows "tmpfs_inv x X (touch_m e k s) hs" "tmpfs_inv x X (touch_c e k s) hs"
proof -
  have "data_ok (inodes s ! k)" "kind_ok (inodes s ! k)"
    using inv_inode [OF assms(1,2)] assms(3) by (simp_all add: inode_ok_def Let_def)
  then show "tmpfs_inv x X (touch_m e k s) hs" "tmpfs_inv x X (touch_c e k s) hs"
    using assms(3) tmpfs_inv_simps(1) [OF assms(1)] by (auto intro: inode_data [OF assms(1,2)])
qed

lemma requests_ok [simp]: "tmpfs_inv x X (s\<lparr>requests := r\<rparr>) hs = tmpfs_inv x X s hs"
proof -
  have "nodes (s\<lparr>requests := r\<rparr>) = nodes s" "inodes (s\<lparr>requests := r\<rparr>) = inodes s" by simp_all
  then show ?thesis
    by (simp add: tmpfs_inv_def ttree_ok_def inode_ok_def tnode_ok_def named_by_def thandle_ok_def live_dir_def live_node_def
        tmpfs_isdir_def NI_def links_def)
qed

section \<open>Changing one node\<close>

lemma nodeD:
  assumes "ttree_ok s" and "live_node s i"
  shows "i < TMPFS_MAX_NODES" "tn_ino (nodes s ! i) < TMPFS_MAX_NODES" "n_used (inodes s ! tn_ino (nodes s ! i))"
    "(0, i) \<in> (links s)\<^sup>*" "i \<noteq> 0 \<Longrightarrow> tn_ino (nodes s ! i) \<noteq> 0" "i \<noteq> 0 \<Longrightarrow> name_ok (tn_name (nodes s ! i))"
    "i \<noteq> 0 \<Longrightarrow> \<exists>p. tn_parent (nodes s ! i) = Some p \<and> live_dir s p"
  using assms by (auto simp: ttree_ok_def tnode_ok_def NI_def live_node_def)

lemma parentD: "ttree_ok s \<Longrightarrow> live_node s i \<Longrightarrow> tn_parent (nodes s ! i) = Some p \<Longrightarrow> i \<noteq> 0 \<and> live_dir s p"
  using nodeD(7) [of s i] by (cases "i = 0") (auto simp: ttree_ok_def)

lemma names_unique:
  "ttree_ok s \<Longrightarrow> live_node s i \<Longrightarrow> live_node s j \<Longrightarrow> tn_parent (nodes s ! i) = Some p \<Longrightarrow>
   tn_parent (nodes s ! j) = Some p \<Longrightarrow> tn_name (nodes s ! i) = tn_name (nodes s ! j) \<Longrightarrow> i = j"
  using parentD [of s i p] by (auto simp: ttree_ok_def)

lemma tree_node:
  assumes "ttree_ok s" and i: "i < TMPFS_MAX_NODES" "i \<noteq> 0" and s': "nodes s' = (nodes s)[i := d]" "inodes s' = inodes s"
    and reach: "\<And>j. live_node s' j \<Longrightarrow> (0, j) \<in> (links s')\<^sup>*"
    and d: "tn_used d \<Longrightarrow> tn_ino d < TMPFS_MAX_NODES \<and> tn_ino d \<noteq> 0 \<and> n_used (inodes s ! tn_ino d) \<and> name_ok (tn_name d) \<and>
      (\<exists>p. tn_parent d = Some p \<and> p \<noteq> i \<and> live_dir s p)"
    and kids: "\<And>j. live_node s j \<Longrightarrow> tn_parent (nodes s ! j) = Some i \<Longrightarrow> tn_used d \<and> is_dir (inodes s ! tn_ino d)"
    and uniq: "\<And>j. tn_used d \<Longrightarrow> live_node s j \<Longrightarrow> j \<noteq> i \<Longrightarrow> tn_parent (nodes s ! j) = tn_parent d \<Longrightarrow> tn_name (nodes s ! j) \<noteq> tn_name d"
  shows "ttree_ok s'"
proof -
  have nth: "nodes s' ! j = (if j = i then d else nodes s ! j)" for j
    using assms(1) i by (auto simp: s' ttree_ok_def)
  have live: "live_node s' j \<longleftrightarrow> (if j = i then tn_used d else live_node s j)" for j
    using i by (auto simp: live_node_def nth)
  have dir: "live_dir s' j \<longleftrightarrow> (if j = i then tn_used d \<and> is_dir (inodes s ! tn_ino d) else live_dir s j)" for j
    by (auto simp: live_dir_def live tmpfs_isdir_def NI_def nth s'(2))
  have ok: "tnode_ok s' j" if "live_node s' j" for j
  proof (cases "j = i")
    case True
    with that d reach [OF that] i show ?thesis by (auto simp: tnode_ok_def nth NI_def s'(2) live dir)
  next
    case False
    then have l: "live_node s j" using that live by simp
    note nodeD [OF assms(1) l]
    moreover have "\<exists>p. tn_parent (nodes s ! j) = Some p \<and> live_dir s' p" if "j \<noteq> 0"
    proof -
      obtain p where p: "tn_parent (nodes s ! j) = Some p" "live_dir s p" using nodeD(7) [OF assms(1) l \<open>j \<noteq> 0\<close>] by blast
      then have "live_dir s' p" using kids [OF l] by (auto simp: dir)
      with p show ?thesis by blast
    qed
    ultimately show ?thesis using False reach [OF that] by (simp add: tnode_ok_def nth NI_def s'(2))
  qed
  have u: "a = b" if "live_node s' a" "live_node s' b" "a \<noteq> 0" "tn_parent (nodes s' ! a) = tn_parent (nodes s' ! b)"
      "tn_name (nodes s' ! a) = tn_name (nodes s' ! b)" for a b
  proof (cases "a = i \<or> b = i")
    case True
    with that uniq [of a] uniq [of b] show ?thesis by (cases "a = i"; cases "b = i") (simp_all add: live nth)
  next
    case False
    with that have "live_node s a" "live_node s b" "tn_parent (nodes s ! a) = tn_parent (nodes s ! b)"
      "tn_name (nodes s ! a) = tn_name (nodes s ! b)" by (simp_all add: live nth)
    with assms(1) \<open>a \<noteq> 0\<close> show ?thesis unfolding ttree_ok_def by blast
  qed
  have "length (nodes s') = TMPFS_MAX_NODES" "length (inodes s') = TMPFS_MAX_NODES" "live_dir s' 0"
    "tn_parent (nodes s' ! 0) = None" "tn_ino (nodes s' ! 0) = 0"
    using assms(1) i(2) by (simp_all add: ttree_ok_def dir nth s')
  with ok u show ?thesis unfolding ttree_ok_def by blast
qed

lemma links_update:
  "i < TMPFS_MAX_NODES \<Longrightarrow> length (nodes s) = TMPFS_MAX_NODES \<Longrightarrow> nodes s' = (nodes s)[i := d] \<Longrightarrow>
   (p, j) \<in> links s' \<longleftrightarrow> (if j = i then tn_used d \<and> tn_parent d = Some p else (p, j) \<in> links s)"
  by (auto simp: links_def)

text \<open>Below the root, a path that does not lead through \<open>i\<close> is not changed with the entry \<open>i\<close>.\<close>

lemma path_kept:
  assumes "(0, j) \<in> (links s)\<^sup>*" and "i < TMPFS_MAX_NODES" and "length (nodes s) = TMPFS_MAX_NODES"
    and "nodes s' = (nodes s)[i := d]" and "(i, j) \<notin> (links s)\<^sup>*"
  shows "(0, j) \<in> (links s')\<^sup>*"
  using assms(1,5)
proof (induction rule: rtrancl_induct)
  case (step p j)
  then have "(i, p) \<notin> (links s)\<^sup>*" "j \<noteq> i" by (auto intro: rtrancl_into_rtrancl)
  moreover have "(p, j) \<in> links s'" using step.hyps \<open>j \<noteq> i\<close> by (simp add: links_update [OF assms(2-4)])
  ultimately show ?case using step.IH by (auto intro: rtrancl_into_rtrancl)
qed simp

lemma finite_named: "finite (named_by s k)"
  by (rule finite_subset [of _ "{..<TMPFS_MAX_NODES}"]) (auto simp: named_by_def live_node_def)

lemma named_update:
  assumes "i < TMPFS_MAX_NODES" and "length (nodes s) = TMPFS_MAX_NODES" and "nodes s' = (nodes s)[i := d]"
  shows "named_by s' k = (if tn_used d \<and> tn_ino d = k then insert i (named_by s k) else named_by s k - {i})"
  using assms by (auto simp: named_by_def live_node_def nth_list_update)

text \<open>A changed node changes the link counts of at most two inodes.\<close>

lemma node_change:
  assumes "tmpfs_inv x X s hs" and i: "i < TMPFS_MAX_NODES"
    and s': "nodes s' = (nodes s)[i := d]" "inodes s' = inodes s" "tmpfs_ready s'" "tmpfs_used_bytes s' = tmpfs_used_bytes s"
    and tree: "ttree_ok s'"
    and x': "\<And>k. k < TMPFS_MAX_NODES \<Longrightarrow> k \<noteq> 0 \<Longrightarrow> int (card (named_by s k)) + x k = int (card (named_by s' k)) + x' k"
    and dir: "\<And>k. k < TMPFS_MAX_NODES \<Longrightarrow> is_dir (inodes s ! k) \<Longrightarrow> card (named_by s k) \<le> 1 \<Longrightarrow> card (named_by s' k) \<le> 1"
  shows "tmpfs_inv x' X s' hs"
proof -
  have "inode_ok x' X s' hs k" if "k < TMPFS_MAX_NODES" for k
    using inv_inode [OF assms(1) that] x' [OF that] dir [OF that] by (auto simp: inode_ok_def s' Let_def split: if_splits)
  moreover have "thandle_ok s' h" if "h \<in> set hs" for h
    using inv_handle [OF assms(1) that] by (simp add: thandle_ok_def s')
  ultimately show ?thesis using assms(1) tree s' by (simp add: tmpfs_inv_def)
qed

section \<open>Entries and inodes come and go\<close>

lemma find_child_None:
  "length (nodes s) = TMPFS_MAX_NODES \<Longrightarrow> tmpfs_find_child s p nm = None \<longleftrightarrow>
   (\<forall>i. i \<noteq> 0 \<longrightarrow> live_node s i \<longrightarrow> tn_parent (nodes s ! i) = Some p \<longrightarrow> tn_name (nodes s ! i) \<noteq> nm)"
  by (auto simp: tmpfs_find_child_def scan_None_iff live_node_def Suc_le_eq)

lemma find_child_SomeD:
  "tmpfs_find_child s p nm = Some i \<Longrightarrow>
   i \<noteq> 0 \<and> live_node s i \<and> tn_parent (nodes s ! i) = Some p \<and> tn_name (nodes s ! i) = nm"
  by (auto simp: tmpfs_find_child_def live_node_def dest!: scan_SomeD)

lemma has_children_iff:
  "ttree_ok s \<Longrightarrow> tmpfs_has_children s i \<longleftrightarrow> (\<exists>j. live_node s j \<and> tn_parent (nodes s ! j) = Some i)"
  using parentD [of s _ i] by (auto simp: tmpfs_has_children_def scan_None_iff live_node_def Suc_le_eq)

lemma put_ok:
  assumes "tmpfs_inv x X s hs" and "k < TMPFS_MAX_NODES" and "k \<noteq> 0" and "x k = 0"
  shows "tmpfs_inv x (X - {k}) (tmpfs_put_inode k s) hs"
proof -
  let ?n = "inodes s ! k"
  note inv = tmpfs_inv_simps [OF assms(1)] and io = inv_inode [OF assms(1,2)]
  show ?thesis
  proof (cases "\<not> n_used ?n \<or> n_nlink ?n \<noteq> 0 \<or> n_opens ?n \<noteq> 0")
    case True
    then have "tmpfs_put_inode k s = s" by (simp add: tmpfs_put_inode_def Let_def)
    moreover have "inode_ok x (X - {k}) s hs j" if "j < TMPFS_MAX_NODES" for j
      using inv_inode [OF assms(1) that] True by (auto simp: inode_ok_def Let_def split: if_splits)
    ultimately show ?thesis using assms(1) by (simp add: tmpfs_inv_def)
  next
    case False
    with io assms(3,4) finite_named have nm: "named_by s k = {}" by (simp add: inode_ok_def Let_def)
    have cnt: "TMPFS_CHUNK * chunk_count (n_chunks ?n) \<le> tmpfs_used_bytes s"
      using chunks_in_use_le [of k "inodes s"] assms(2) inv(4,6) by simp
    have eq: "tmpfs_put_inode k s =
        s\<lparr>tmpfs_used_bytes := tmpfs_used_bytes s - TMPFS_CHUNK * chunk_count (n_chunks ?n), inodes := (inodes s)[k := no_inode]\<rparr>"
      using False assms(3) by (simp add: tmpfs_put_inode_def tmpfs_free_data_def set_inode_def Let_def)
    have op: "opened hs k = 0" using io False by (simp add: inode_ok_def Let_def)
    then have nh: "h_ino h \<noteq> k" if "h \<in> set hs" for h
      using that by (auto simp: opened_def filter_empty_conv)
    show ?thesis
    proof (rule inode_change [OF assms(1,2), where n' = no_inode])
      show "inode_ok x (X - {k}) (tmpfs_put_inode k s) hs k"
        using assms(2) inv(4) op by (simp add: inode_ok_def eq no_inode_def)
      show "thandle_ok (tmpfs_put_inode k s) h" if "h \<in> set hs" for h
        using inv_handle [OF assms(1) that] nh [OF that] by (simp add: thandle_ok_def eq)
    qed (use cnt inv nm in \<open>auto simp: eq no_inode_def\<close>)
  qed
qed

text \<open>A free inode becomes one of a kind, with a link count of one and no name yet.\<close>

lemma inode_fresh:
  assumes "tmpfs_ok s hs" and "0 < k" and "k < TMPFS_MAX_NODES" and "\<not> n_used (inodes s ! k)"
    and "nodes s' = nodes s" and "inodes s' = (inodes s)[k := n']" and "tmpfs_ready s'" and "tmpfs_used_bytes s' = tmpfs_used_bytes s"
    and "n_used n'" and "data_ok n'" and "kind_ok n'" and "n_nlink n' = 1" and "n_opens n' = 0" and "n_chunks n' = []"
  shows "tmpfs_inv ((\<lambda>_. 0)(k := 1)) {} s' hs" "named_by s' k = {}"
proof -
  note inv = tmpfs_inv_simps [OF assms(1)] and io = inv_inode [OF assms(1,3)]
  have free: "inodes s ! k = no_inode" using io assms(4) by (simp add: inode_ok_def Let_def)
  then have op: "opened hs k = 0" using io by (simp add: inode_ok_def Let_def no_inode_def)
  have nm: "named_by s k = {}" using named_used [OF inv(2), of k] assms(4) by auto
  then show nm': "named_by s' k = {}" by (simp add: named_by_def live_node_def assms(5))
  have nh: "h_ino h \<noteq> k" if "h \<in> set hs" for h
    using inv_handle [OF assms(1) that] assms(4) by (auto simp: thandle_ok_def)
  show "tmpfs_inv ((\<lambda>_. 0)(k := 1)) {} s' hs"
  proof (rule inode_change [OF assms(1,3,5,6,7)])
    show "inode_ok ((\<lambda>_. 0)(k := 1)) {} s' hs k"
      using assms(3,6,9-13) inv(4) nm' op by (simp add: inode_ok_def)
    show "thandle_ok s' h" if "h \<in> set hs" for h
      using inv_handle [OF assms(1) that] nh [OF that] by (simp add: thandle_ok_def assms(6))
  qed (use assms(8,14) free nm in \<open>auto simp: no_inode_def\<close>)
qed

lemma alloc_inode_eq:
  assumes "tmpfs_alloc_inode e mode s = (Some k, s')"
  shows "0 < k \<and> k < TMPFS_MAX_NODES \<and> \<not> n_used (inodes s ! k) \<and>
    s' = set_inode k (no_inode\<lparr>n_used := True, n_mode := mode, n_nlink := 1, n_mtime := e_clock e (requests s), n_ctime := e_clock e (requests s)\<rparr>)
      (s\<lparr>requests := Suc (requests s)\<rparr>)"
  using assms by (auto simp: tmpfs_alloc_inode_def tmpfs_now_def Let_def split: option.splits dest!: scan_SomeD)

lemma fresh_inode_ok:
  assumes "mode AND T_IFMT = T_IFDIR \<or> mode AND T_IFMT = T_IFREG"
  shows "data_ok (no_inode\<lparr>n_used := True, n_mode := mode, n_nlink := 1, n_mtime := a, n_ctime := a\<rparr>)"
    "kind_ok (no_inode\<lparr>n_used := True, n_mode := mode, n_nlink := 1, n_mtime := a, n_ctime := a\<rparr>)"
  using assms by (auto simp: data_ok_def kind_ok_def no_inode_def chunks_ok_def)

lemma linksD: "(p, j) \<in> links s \<longleftrightarrow> live_node s j \<and> tn_parent (nodes s ! j) = Some p"
  by (auto simp: links_def live_node_def)

text \<open>Changing an entry without children does not cut off another.\<close>

lemma leaf_path:
  assumes "ttree_ok s" and "\<And>j. live_node s j \<Longrightarrow> tn_parent (nodes s ! j) \<noteq> Some i" and "i < TMPFS_MAX_NODES"
    and "nodes s' = (nodes s)[i := d]" and "live_node s j" and "j \<noteq> i"
  shows "(0, j) \<in> (links s')\<^sup>*"
proof (rule path_kept [OF nodeD(4) [OF assms(1,5)] assms(3) _ assms(4)])
  show "length (nodes s) = TMPFS_MAX_NODES" using assms(1) by (simp add: ttree_ok_def)
  show "(i, j) \<notin> (links s)\<^sup>*"
  proof
    assume "(i, j) \<in> (links s)\<^sup>*"
    then show False by (cases rule: converse_rtranclE) (use assms(2,6) in \<open>auto simp: linksD\<close>)
  qed
qed

lemma add_node_ok:
  assumes "tmpfs_inv x X s hs" and "tmpfs_add_node e p nm k s = (Inr i, s')" and "live_dir s p" and "name_ok nm"
    and "tmpfs_find_child s p nm = None" and "0 < k" and "k < TMPFS_MAX_NODES" and "n_used (inodes s ! k)"
    and "is_dir (inodes s ! k) \<Longrightarrow> named_by s k = {}"
  shows "tmpfs_inv (x(k := x k - 1)) X s' hs" "i \<noteq> 0" "i < TMPFS_MAX_NODES" "\<not> live_node s i"
    "nodes s' = (nodes s)[i := \<lparr>tn_used = True, tn_parent = Some p, tn_ino = k, tn_name = nm\<rparr>]"
    "inodes s' = (inodes s)[tn_ino (nodes s ! p) := (inodes s ! tn_ino (nodes s ! p))\<lparr>n_mtime := e_clock e (requests s)\<rparr>]"
proof -
  note inv = tmpfs_inv_simps [OF assms(1)]
  let ?d = "\<lparr>tn_used = True, tn_parent = Some p, tn_ino = k, tn_name = nm\<rparr>"
  let ?s1 = "set_node i ?d s"
  have "take (TMPFS_MAX_NAME - 1) nm = nm" using assms(4) by (simp add: name_ok_def TMPFS_MAX_NAME_def)
  with assms(2) have al: "tmpfs_alloc_node s = Some i" and s': "s' = touch_m e (tn_ino (nodes ?s1 ! p)) ?s1"
    by (auto simp: tmpfs_add_node_def Let_def split: option.splits)
  from al show i: "i \<noteq> 0" "i < TMPFS_MAX_NODES" "\<not> live_node s i"
    by (auto simp: tmpfs_alloc_node_def live_node_def dest!: scan_SomeD)
  have p: "p \<noteq> i" "live_node s p" using assms(3) i(3) by (auto simp: live_dir_def)
  have par: "nodes ?s1 ! p = nodes s ! p" using p by (simp add: set_node_def)
  show "nodes s' = (nodes s)[i := ?d]" by (simp add: s' set_node_def)
  show "inodes s' = (inodes s)[tn_ino (nodes s ! p) := (inodes s ! tn_ino (nodes s ! p))\<lparr>n_mtime := e_clock e (requests s)\<rparr>]"
    by (simp add: s' par) (simp add: set_node_def)
  have kids: "tn_parent (nodes s ! j) \<noteq> Some i" if "live_node s j" for j
    using parentD [OF inv(2) that] i(3) by (auto simp: live_dir_def)
  have pp: "(0, p) \<in> (links ?s1)\<^sup>*"
    by (rule leaf_path [OF inv(2) kids i(2) _ p(2) p(1)]) (auto simp: set_node_def)
  have reach: "(0, j) \<in> (links ?s1)\<^sup>*" if "live_node ?s1 j" for j
  proof (cases "j = i")
    case True
    then have "(p, j) \<in> links ?s1" using i(2) inv(3) by (simp add: linksD live_node_def set_node_def)
    with pp show ?thesis by (rule rtrancl_into_rtrancl)
  next
    case False
    then have "live_node s j" using that by (simp add: live_node_def set_node_def)
    then show ?thesis using False by (intro leaf_path [OF inv(2) kids i(2)]) (auto simp: set_node_def)
  qed
  have ns: "nodes ?s1 = (nodes s)[i := ?d]" "inodes ?s1 = inodes s" by (simp_all add: set_node_def)
  have tree: "ttree_ok ?s1"
  proof (rule tree_node [OF inv(2) i(2,1) ns reach])
    show "tn_ino ?d < TMPFS_MAX_NODES \<and> tn_ino ?d \<noteq> 0 \<and> n_used (inodes s ! tn_ino ?d) \<and> name_ok (tn_name ?d) \<and>
        (\<exists>q. tn_parent ?d = Some q \<and> q \<noteq> i \<and> live_dir s q)"
      using assms(3,4,6-8) p by simp
    show "tn_name (nodes s ! j) \<noteq> tn_name ?d" if "live_node s j" "tn_parent (nodes s ! j) = tn_parent ?d" for j
      using that assms(5) find_child_None [OF inv(3)] parentD [OF inv(2) that(1)] by auto
  qed (use kids in auto)
  have ni: "i \<notin> named_by s j" for j using i(3) by (simp add: named_by_def)
  then have nb: "named_by ?s1 j = (if j = k then insert i (named_by s j) else named_by s j)" for j
    by (auto simp: named_update [OF i(2) inv(3) ns(1)])
  have "tmpfs_inv (x(k := x k - 1)) X ?s1 hs"
  proof (rule node_change [OF assms(1) i(2) ns _ _ tree])
    show "card (named_by ?s1 j) \<le> 1" if "is_dir (inodes s ! j)" "card (named_by s j) \<le> 1" for j
      using that assms(9) by (auto simp: nb)
    show "int (card (named_by s j)) + x j = int (card (named_by ?s1 j)) + (x(k := x k - 1)) j" for j
      using finite_named ni by (simp add: nb)
    show "tmpfs_ready ?s1" "tmpfs_used_bytes ?s1 = tmpfs_used_bytes s" using inv(1) by (simp_all add: set_node_def)
  qed
  then show "tmpfs_inv (x(k := x k - 1)) X s' hs"
    unfolding s' par using nodeD(2,3) [OF inv(2) p(2)] by (intro touch_ok(1)) (auto simp: set_node_def)
qed

lemma touched_mode:
  "n_mode (xs[a := (xs ! a)\<lparr>n_mtime := t\<rparr>] ! b) = n_mode (xs ! b)"
  "n_mode (xs[a := (xs ! a)\<lparr>n_ctime := t\<rparr>] ! b) = n_mode (xs ! b)"
  "n_mode (xs[a := (xs ! a)\<lparr>n_nlink := l\<rparr>] ! b) = n_mode (xs ! b)"
  by (cases "a < length xs"; cases "a = b"; auto simp: list_update_beyond)+

lemma touched_used:
  "n_used (xs[a := (xs ! a)\<lparr>n_mtime := t\<rparr>] ! b) = n_used (xs ! b)"
  "n_used (xs[a := (xs ! a)\<lparr>n_ctime := t\<rparr>] ! b) = n_used (xs ! b)"
  by (cases "a < length xs"; cases "a = b"; auto simp: list_update_beyond)+

lemma put_inode_other: "m \<noteq> k \<Longrightarrow> inodes (tmpfs_put_inode k s) ! m = inodes s ! m"
  by (simp add: tmpfs_put_inode_def tmpfs_free_data_def set_inode_def Let_def)

lemma put_inode_mode:
  "n_used (inodes (tmpfs_put_inode k s) ! j) \<Longrightarrow> n_mode (inodes (tmpfs_put_inode k s) ! j) = n_mode (inodes s ! j)"
  by (cases "k < length (inodes s)"; cases "j = k")
    (auto simp: tmpfs_put_inode_def tmpfs_free_data_def set_inode_def Let_def no_inode_def list_update_beyond split: if_splits)

lemma put_inode_nodes [simp]: "nodes (tmpfs_put_inode k s) = nodes s"
  by (simp add: tmpfs_put_inode_def tmpfs_free_data_def set_inode_def Let_def)

lemma set_inode_tree [simp]: "named_by (set_inode k n s) j = named_by s j" "live_node (set_inode k n s) i = live_node s i"
  "nodes (set_inode k n s) = nodes s"
  by (simp_all add: named_by_def live_node_def set_inode_def)

text \<open>One link count less for an inode that has one too many: it may now be without a name.\<close>

lemma unname_ok:
  assumes "tmpfs_inv ((\<lambda>_. 0)(k := 1)) {} s hs" and "0 < k" and "k < TMPFS_MAX_NODES" and "n_used (inodes s ! k)"
  shows "tmpfs_inv (\<lambda>_. 0) {k} (set_inode k ((inodes s ! k)\<lparr>n_nlink := n_nlink (inodes s ! k) - 1\<rparr>) s) hs" "n_nlink (inodes s ! k) \<noteq> 0"
proof -
  let ?n = "(inodes s ! k)\<lparr>n_nlink := n_nlink (inodes s ! k) - 1\<rparr>"
  note inv = tmpfs_inv_simps [OF assms(1)] and io = inv_inode [OF assms(1,3)]
  have nl: "int (n_nlink (inodes s ! k)) = int (card (named_by s k)) + 1" "data_ok (inodes s ! k)" "kind_ok (inodes s ! k)"
    using io assms(2,4) by (auto simp: inode_ok_def Let_def)
  then show "n_nlink (inodes s ! k) \<noteq> 0" by auto
  have dk: "data_ok ?n" "kind_ok ?n" using nl by (simp_all add: data_ok_def kind_ok_def)
  show "tmpfs_inv (\<lambda>_. 0) {k} (set_inode k ?n s) hs"
  proof (rule inode_change [OF assms(1,3), where n' = ?n])
    have "inodes (set_inode k ?n s) ! k = ?n" using assms(3) inv(4) by (simp add: set_inode_def)
    then show "inode_ok (\<lambda>_. 0) {k} (set_inode k ?n s) hs k"
      using io nl dk assms(2,4) by (auto simp: inode_ok_def Let_def)
    show "thandle_ok (set_inode k ?n s) h" if "h \<in> set hs" for h
      using inv_handle [OF assms(1) that] assms(3) inv(4) by (auto simp: thandle_ok_def set_inode_def nth_list_update)
  qed (use inv(1) assms(4) in \<open>auto simp: set_inode_def\<close>)
qed

lemma drop_node_ok:
  assumes "tmpfs_ok s hs" and "live_node s i" and "i \<noteq> 0" and "\<And>j. live_node s j \<Longrightarrow> tn_parent (nodes s ! j) \<noteq> Some i"
  shows "tmpfs_ok (tmpfs_drop_node e i s) hs" "nodes (tmpfs_drop_node e i s) = (nodes s)[i := no_node]"
    "n_used (inodes (tmpfs_drop_node e i s) ! j) \<Longrightarrow> n_mode (inodes (tmpfs_drop_node e i s) ! j) = n_mode (inodes s ! j)"
proof -
  note inv = tmpfs_inv_simps [OF assms(1)] and nd = nodeD [OF inv(2) assms(2)]
  define k where "k = tn_ino (nodes s ! i)"
  have k: "0 < k" "k < TMPFS_MAX_NODES" "n_used (inodes s ! k)" using nd assms(3) by (auto simp: k_def)
  obtain p where p: "tn_parent (nodes s ! i) = Some p" "live_dir s p" using nd(7) assms(3) by blast
  then have pi: "tn_ino (nodes s ! p) < TMPFS_MAX_NODES" "n_used (inodes s ! tn_ino (nodes s ! p))" "p \<noteq> i"
    using nodeD [OF inv(2)] assms(2,4) by (auto simp: live_dir_def)
  define s1 where "s1 = touch_m e (tn_ino (nodes s ! p)) s"
  define s2 where "s2 = set_node i no_node s1"
  have ok1: "tmpfs_ok s1 hs" unfolding s1_def by (rule touch_ok(1) [OF assms(1) pi(1,2)])
  note inv1 = tmpfs_inv_simps [OF ok1]
  have n1: "nodes s1 = nodes s" by (simp add: s1_def)
  have ns: "nodes s2 = (nodes s1)[i := no_node]" "inodes s2 = inodes s1" by (simp_all add: s2_def set_node_def)
  have live1: "live_node s1 j = live_node s j" for j by (simp add: live_node_def n1)
  have kids: "tn_parent (nodes s1 ! j) \<noteq> Some i" if "live_node s1 j" for j using assms(4) that by (simp add: live1 n1)
  have "(0, j) \<in> (links s2)\<^sup>*" if "live_node s2 j" for j
    using that nd(1) inv1(3) by (intro leaf_path [OF inv1(2) kids nd(1) ns(1)])
      (auto simp: live_node_def ns nth_list_update no_node_def split: if_splits)
  then have tree: "ttree_ok s2"
    using kids by (intro tree_node [OF inv1(2) nd(1) assms(3) ns]) (auto simp: no_node_def)
  have nb: "named_by s2 j = named_by s1 j - {i}" for j
    using named_update [OF nd(1) inv1(3) ns(1), of j] by (simp add: no_node_def)
  have im: "i \<in> named_by s1 j \<longleftrightarrow> j = k" for j using assms(2) by (auto simp: named_by_def live1 n1 k_def)
  have "tmpfs_inv ((\<lambda>_. 0)(k := 1)) {} s2 hs"
  proof (rule node_change [OF ok1 nd(1) ns _ _ tree])
    show "int (card (named_by s1 j)) + 0 = int (card (named_by s2 j)) + ((\<lambda>_. 0)(k := 1)) j" for j
      using im [of j] card_Suc_Diff1 [OF finite_named, of i s1 j] by (auto simp: nb)
    show "card (named_by s2 j) \<le> 1" if "card (named_by s1 j) \<le> 1" for j
      using that card_Diff1_le [of "named_by s1 j" i] by (simp add: nb)
    show "tmpfs_ready s2" "tmpfs_used_bytes s2 = tmpfs_used_bytes s1" using inv1(1) by (simp_all add: s2_def set_node_def)
  qed
  moreover have u2: "n_used (inodes s2 ! k)" using k pi inv(4) by (simp add: ns(2) s1_def nth_list_update)
  ultimately have un: "tmpfs_inv (\<lambda>_. 0) {k} (set_inode k ((inodes s2 ! k)\<lparr>n_nlink := n_nlink (inodes s2 ! k) - 1\<rparr>) s2) hs"
    and nz: "n_nlink (inodes s2 ! k) \<noteq> 0"
    using unname_ok k by blast+
  let ?s3 = "set_inode k ((inodes s2 ! k)\<lparr>n_nlink := n_nlink (inodes s2 ! k) - 1\<rparr>) s2"
  have us: "n_used (inodes ?s3 ! k)" using u2 k inv1(4) by (simp add: set_inode_def ns(2))
  have "tmpfs_inv (\<lambda>_. 0) ({k} - {k}) (tmpfs_put_inode k (touch_c e k ?s3)) hs"
    using un us k by (intro put_ok touch_ok) auto
  moreover have eq: "tmpfs_drop_node e i s = tmpfs_put_inode k (touch_c e k ?s3)"
    using nz by (simp add: tmpfs_drop_node_def Let_def p(1) k_def s1_def s2_def)
  ultimately show "tmpfs_ok (tmpfs_drop_node e i s) hs" by simp
  show "nodes (tmpfs_drop_node e i s) = (nodes s)[i := no_node]" by (simp add: eq set_inode_def ns n1)
  have "n_mode (inodes s1 ! j) = n_mode (inodes s ! j)" by (simp add: s1_def touched_mode)
  moreover have "n_mode (inodes ?s3 ! j) = n_mode (inodes s2 ! j)" by (simp add: set_inode_def touched_mode)
  ultimately have "n_mode (inodes (touch_c e k ?s3) ! j) = n_mode (inodes s ! j)" by (simp only: touch_simps touched_mode ns(2))
  then show "n_mode (inodes (tmpfs_drop_node e i s) ! j) = n_mode (inodes s ! j)" if "n_used (inodes (tmpfs_drop_node e i s) ! j)"
    using that put_inode_mode [of k "touch_c e k ?s3" j] by (simp add: eq)
qed

section \<open>Walking paths\<close>

text \<open>No entry is lost, renamed or given another inode, and no inode changes its kind.\<close>

definition grows :: "tmpfs \<Rightarrow> tmpfs \<Rightarrow> bool" where
  "grows s s' \<longleftrightarrow>
    (\<forall>j. live_node s j \<longrightarrow> live_node s' j \<and> nodes s' ! j = nodes s ! j \<and> n_mode (NI s' j) AND T_IFMT = n_mode (NI s j) AND T_IFMT)"

lemma grows_refl: "grows s s"
  by (simp add: grows_def)

lemma grows_trans: "grows s s1 \<Longrightarrow> grows s1 s2 \<Longrightarrow> grows s s2"
  by (simp add: grows_def)

lemma grows_dir: "grows s s' \<Longrightarrow> live_dir s i \<Longrightarrow> live_dir s' i"
  by (simp add: grows_def live_dir_def tmpfs_isdir_def)

lemma find_child_iff:
  assumes "ttree_ok s"
  shows "tmpfs_find_child s p nm = Some i \<longleftrightarrow> live_node s i \<and> tn_parent (nodes s ! i) = Some p \<and> tn_name (nodes s ! i) = nm"
proof
  assume i: "live_node s i \<and> tn_parent (nodes s ! i) = Some p \<and> tn_name (nodes s ! i) = nm"
  then have "tmpfs_find_child s p nm \<noteq> None"
    using assms parentD [OF assms, of i p] by (auto simp: find_child_None ttree_ok_def)
  then obtain j where j: "tmpfs_find_child s p nm = Some j" by blast
  then have "j = i" using find_child_SomeD [OF j] names_unique [OF assms, of j i p] i by simp
  with j show "tmpfs_find_child s p nm = Some i" by simp
qed (auto dest: find_child_SomeD)

lemma grows_child: "grows s s' \<Longrightarrow> ttree_ok s \<Longrightarrow> ttree_ok s' \<Longrightarrow> tmpfs_find_child s p nm = Some i \<Longrightarrow> tmpfs_find_child s' p nm = Some i"
  by (auto simp: find_child_iff grows_def)

lemma find_child_cong: "nodes s' = nodes s \<Longrightarrow> tmpfs_find_child s' p nm = tmpfs_find_child s p nm"
  by (simp add: tmpfs_find_child_def)

lemma upd_zero [simp]: "(\<lambda>_. 0 :: int)(k := 0) = (\<lambda>_. 0)"
  by auto

lemma alloc_inode_ok:
  assumes "tmpfs_ok s hs" and "tmpfs_alloc_inode e mode s = (Some k, s')"
    and "mode AND T_IFMT = T_IFDIR \<or> mode AND T_IFMT = T_IFREG"
  shows "tmpfs_inv ((\<lambda>_. 0)(k := 1)) {} s' hs" "0 < k" "k < TMPFS_MAX_NODES" "nodes s' = nodes s" "n_used (inodes s' ! k)"
    "n_mode (inodes s' ! k) = mode" "n_nlink (inodes s' ! k) = 1" "named_by s' k = {}"
    "live_node s j \<Longrightarrow> NI s' j = NI s j"
proof -
  let ?n = "no_inode\<lparr>n_used := True, n_mode := mode, n_nlink := 1, n_mtime := e_clock e (requests s), n_ctime := e_clock e (requests s)\<rparr>"
  note inv = tmpfs_inv_simps [OF assms(1)]
  have k: "0 < k" "k < TMPFS_MAX_NODES" "\<not> n_used (inodes s ! k)" and s': "s' = set_inode k ?n (s\<lparr>requests := Suc (requests s)\<rparr>)"
    using alloc_inode_eq [OF assms(2)] by blast+
  have i': "nodes s' = nodes s" "inodes s' = (inodes s)[k := ?n]" "tmpfs_ready s'" "tmpfs_used_bytes s' = tmpfs_used_bytes s"
    using inv(1) by (simp_all add: s' set_inode_def)
  show "0 < k" "k < TMPFS_MAX_NODES" "nodes s' = nodes s" by fact+
  have n: "inodes s' ! k = ?n" using k inv(4) by (simp add: i')
  show "n_used (inodes s' ! k)" "n_mode (inodes s' ! k) = mode" "n_nlink (inodes s' ! k) = 1" unfolding n by simp_all
  show "tmpfs_inv ((\<lambda>_. 0)(k := 1)) {} s' hs" "named_by s' k = {}"
    using inode_fresh [OF assms(1) k i'] fresh_inode_ok [OF assms(3)] by (simp_all add: no_inode_def)
  show "NI s' j = NI s j" if "live_node s j"
    using nodeD(3) [OF inv(2) that] k(3) by (cases "tn_ino (nodes s ! j) = k") (auto simp: NI_def i')
qed

text \<open>Naming a fresh inode, or giving it back when there is no free node.\<close>

lemma name_inode_ok:
  assumes "tmpfs_inv ((\<lambda>_. 0)(k := 1)) {} s hs" and "0 < k" and "k < TMPFS_MAX_NODES" and "n_used (inodes s ! k)"
    and "n_nlink (inodes s ! k) = 1" and "named_by s k = {}" and "live_dir s p" and "name_ok nm" and "tmpfs_find_child s p nm = None"
    and "tmpfs_add_node e p nm k s = (r, s1)"
  shows "case r of
      Inr i \<Rightarrow> tmpfs_ok s1 hs \<and> grows s s1 \<and> live_node s1 i \<and> tmpfs_find_child s1 p nm = Some i \<and> n_mode (NI s1 i) = n_mode (inodes s ! k)
    | Inl err \<Rightarrow> err = ENOSPC \<and>
        (let s2 = tmpfs_put_inode k (set_inode k ((inodes s1 ! k)\<lparr>n_nlink := 0\<rparr>) s1)
         in tmpfs_ok s2 hs \<and> grows s s2 \<and> nodes s2 = nodes s)"
proof (cases r)
  case (Inr i)
  note b = add_node_ok [OF assms(1) assms(10) [unfolded Inr] assms(7-9,2-4) assms(6)]
  have ok: "tmpfs_ok s1 hs" using b(1) by simp
  have nth: "nodes s1 ! j = (if j = i then \<lparr>tn_used = True, tn_parent = Some p, tn_ino = k, tn_name = nm\<rparr> else nodes s ! j)" for j
    using b(3) tmpfs_inv_simps(3) [OF assms(1)] by (simp add: b(5))
  have li: "live_node s1 i" using b(3) by (simp add: live_node_def nth)
  have "grows s s1" using b(4) by (auto simp: grows_def live_node_def nth NI_def b(6) touched_mode)
  moreover have "n_mode (NI s1 i) = n_mode (inodes s ! k)" by (simp add: NI_def nth b(6) touched_mode)
  moreover have "tmpfs_find_child s1 p nm = Some i" using li by (simp add: find_child_iff [OF tmpfs_inv_simps(2) [OF ok]] nth)
  ultimately show ?thesis using Inr ok li by simp
next
  case (Inl err)
  then have e: "s1 = s" "err = ENOSPC" using assms(10) by (auto simp: tmpfs_add_node_def Let_def split: option.splits)
  let ?s2 = "tmpfs_put_inode k (set_inode k ((inodes s ! k)\<lparr>n_nlink := 0\<rparr>) s)"
  have un: "tmpfs_inv (\<lambda>_. 0) {k} (set_inode k ((inodes s ! k)\<lparr>n_nlink := 0\<rparr>) s) hs"
    using unname_ok(1) [OF assms(1-4)] assms(5) by simp
  have "tmpfs_inv (\<lambda>_. 0) ({k} - {k}) ?s2 hs" using assms(2,3) by (intro put_ok [OF un]) auto
  moreover have "grows s ?s2"
    using assms(6) by (auto simp: grows_def live_node_def NI_def named_by_def put_inode_other set_inode_def)
  ultimately show ?thesis using Inl e by simp
qed

lemma make_entry_ok:
  assumes "tmpfs_ok s hs" and "make_entry e mode p nm s = (r, s')" and "live_dir s p" and "name_ok nm"
    and "tmpfs_find_child s p nm = None" and "mode AND T_IFMT = T_IFDIR \<or> mode AND T_IFMT = T_IFREG"
  shows "tmpfs_ok s' hs \<and> grows s s' \<and>
    (case r of
       Inl err \<Rightarrow> err = ENOSPC \<and> nodes s' = nodes s
     | Inr i \<Rightarrow> live_node s' i \<and> tmpfs_find_child s' p nm = Some i \<and> n_mode (NI s' i) AND T_IFMT = mode AND T_IFMT)"
proof -
  obtain ko s1 where al: "tmpfs_alloc_inode e mode s = (ko, s1)" by (cases "tmpfs_alloc_inode e mode s") auto
  show ?thesis
  proof (cases ko)
    case None
    with al assms(1,2) have "r = Inl ENOSPC" "s' = s"
      by (auto simp: make_entry_def tmpfs_alloc_inode_def Let_def tmpfs_now_def split: option.splits)
    with assms(1) show ?thesis by (simp add: grows_refl)
  next
    case (Some k)
    note a = alloc_inode_ok [OF assms(1) al [unfolded Some] assms(6)]
    have g: "grows s s1" using a(4,9) by (simp add: grows_def live_node_def)
    have fc: "tmpfs_find_child s1 p nm = None" using assms(5) find_child_cong [OF a(4)] by simp
    obtain r' s2 where ad: "tmpfs_add_node e p nm k s1 = (r', s2)" by (cases "tmpfs_add_node e p nm k s1") auto
    note n = name_inode_ok [OF a(1-3,5,7,8) grows_dir [OF g assms(3)] assms(4) fc ad]
    show ?thesis
      using n assms(2) al Some ad a(4,6) grows_trans [OF g] by (auto simp: make_entry_def Let_def split: sum.splits)
  qed
qed

lemma lookup_child_ok:
  assumes "tmpfs_ok s hs" and "lookup_child e cd cf wd cur nm l s = (r, s')" and "live_dir s cur" and "name_ok nm"
  shows "tmpfs_ok s' hs" "grows s s'"
    "r = Found i \<or> r = Leave (Inr i) \<Longrightarrow> live_node s' i \<and> tmpfs_find_child s' cur nm = Some i"
    "r = Leave (Inr i) \<Longrightarrow> l \<and> (wd \<longrightarrow> live_dir s' i)" "\<not> cd \<Longrightarrow> \<not> cf \<Longrightarrow> s' = s"
proof -
  have "tmpfs_ok s' hs \<and> grows s s' \<and> (r = Found i \<or> r = Leave (Inr i) \<longrightarrow> live_node s' i \<and> tmpfs_find_child s' cur nm = Some i) \<and>
    (r = Leave (Inr i) \<longrightarrow> l \<and> (wd \<longrightarrow> live_dir s' i)) \<and> (\<not> cd \<longrightarrow> \<not> cf \<longrightarrow> s' = s)"
  proof (cases "tmpfs_find_child s cur nm")
    case (Some c)
    with assms show ?thesis using find_child_SomeD [OF Some] by (auto simp: lookup_child_def grows_refl)
  next
    case None
    have m: "(T_IFREG OR 0x1A4) AND T_IFMT = T_IFREG" "(T_IFDIR OR 0x1ED) AND T_IFMT = T_IFDIR" by simp_all
    show ?thesis
    proof (cases "l \<and> cf \<and> \<not> wd")
      case True
      obtain q s1 where me: "make_entry e (T_IFREG OR 0x1A4) cur nm s = (q, s1)" by (cases "make_entry e (T_IFREG OR 0x1A4) cur nm s") auto
      then have "r = Leave q" "s' = s1" using assms(2) None True by (auto simp: lookup_child_def)
      with make_entry_ok [OF assms(1) me assms(3,4) None] m True show ?thesis by (auto split: sum.splits)
    next
      case f: False
      show ?thesis
      proof (cases "cd \<and> (l \<longrightarrow> wd)")
        case True
        obtain q s1 where me: "make_entry e (T_IFDIR OR 0x1ED) cur nm s = (q, s1)" by (cases "make_entry e (T_IFDIR OR 0x1ED) cur nm s") auto
        then have "s' = s1" "r = (case q of Inl err \<Rightarrow> Leave (Inl err) | Inr i \<Rightarrow> if l then Leave (Inr i) else Found i)"
          using assms(2) None True f by (auto simp: lookup_child_def split: sum.splits)
        with make_entry_ok [OF assms(1) me assms(3,4) None] m True show ?thesis
          by (auto simp: live_dir_def tmpfs_isdir_def split: sum.splits if_splits)
      next
        case False
        with f None assms show ?thesis by (auto simp: lookup_child_def grows_refl)
      qed
    qed
  qed
  then show "tmpfs_ok s' hs" "grows s s'" "r = Found i \<or> r = Leave (Inr i) \<Longrightarrow> live_node s' i \<and> tmpfs_find_child s' cur nm = Some i"
    "r = Leave (Inr i) \<Longrightarrow> l \<and> (wd \<longrightarrow> live_dir s' i)" "\<not> cd \<Longrightarrow> \<not> cf \<Longrightarrow> s' = s" by blast+
qed

lemma part_name_ok:
  "takeWhile (\<lambda>c. c \<noteq> slash) p \<noteq> [] \<Longrightarrow> length (takeWhile (\<lambda>c. c \<noteq> slash) p) < TMPFS_MAX_NAME \<Longrightarrow>
   name_ok (takeWhile (\<lambda>c. c \<noteq> slash) p)"
  by (auto simp: name_ok_def dest: set_takeWhileD)

text \<open>
  A walk keeps the file system well-formed and every entry in its place, and what it found or made is found again by
  a walk that makes nothing.
\<close>

lemma lookup_from_ok:
  assumes "tmpfs_ok s hs" and "lookup_from e cd cf wd cur p s = (r, s')" and "live_dir s cur"
  shows "tmpfs_ok s' hs \<and> grows s s' \<and> (\<not> cd \<longrightarrow> \<not> cf \<longrightarrow> s' = s) \<and>
    (\<forall>i. r = Inr i \<longrightarrow> live_node s' i \<and> (wd \<longrightarrow> live_dir s' i) \<and> lookup_from e' False False wd cur p s' = (Inr i, s'))"
  using assms
proof (induction e cd cf wd cur p s rule: lookup_from.induct)
  case (1 e cd cf wd cur p s)
  define part rest where "part = takeWhile (\<lambda>c. c \<noteq> slash) p" and "rest = dropWhile (\<lambda>c. c \<noteq> slash) p"
  note eqs = lookup_from.simps [of _ _ _ _ _ p, folded part_def rest_def, unfolded Let_def]
  note eq = eqs [of e cd cf wd cur s] and eq' = eqs [of e' False False wd cur s']
  show ?case
  proof (cases "part = [] \<or> length part \<ge> TMPFS_MAX_NAME")
    case True
    with "1.prems" show ?thesis by (auto simp: eq grows_refl split: if_splits)
  next
    case False
    then have nm: "name_ok part" using part_name_ok [of p] by (simp add: part_def)
    obtain w s1 where lc: "lookup_child e cd cf wd cur part (rest = []) s = (w, s1)"
      by (cases "lookup_child e cd cf wd cur part (rest = []) s") auto
    note ch = lookup_child_ok [OF "1.prems"(1) lc "1.prems"(3) nm]
    show ?thesis
    proof (cases w)
      case (Leave r')
      then show ?thesis using "1.prems"(2) False lc ch
        by (auto simp: eq eq' lookup_child_def [of e'] live_dir_def)
    next
      case (Found child)
      note c = ch(3) [of child, OF disjI1 [OF Found]]
      show ?thesis
      proof (cases "rest = [] \<or> \<not> tmpfs_isdir s1 child \<or> skip_slashes (tl rest) = []")
        case True
        with Found "1.prems"(2) False lc c ch(1,2,5) show ?thesis
          by (auto simp: eq eq' lookup_child_def [of e'] live_dir_def simp del: dropWhile_eq_Nil_conv split: if_splits)
      next
        case rec: False
        with Found "1.prems"(2) False lc have lf: "lookup_from e cd cf wd child (skip_slashes (tl rest)) s1 = (r, s')"
          by (simp add: eq del: dropWhile_eq_Nil_conv)
        have d1: "live_dir s1 child" using Found c rec by (simp add: live_dir_def)
        have ih: "tmpfs_ok s' hs \<and> grows s1 s' \<and> (\<not> cd \<longrightarrow> \<not> cf \<longrightarrow> s' = s1) \<and>
          (\<forall>i. r = Inr i \<longrightarrow> live_node s' i \<and> (wd \<longrightarrow> live_dir s' i) \<and>
            lookup_from e' False False wd child (skip_slashes (tl rest)) s' = (Inr i, s'))"
          by (rule "1.IH" [OF part_def rest_def refl _ _ lc [symmetric] Found _ _ refl _ ch(1) lf d1]) (use False rec in auto)
        then have "tmpfs_find_child s' cur part = Some child"
          using c grows_child tmpfs_inv_simps(2) [OF ch(1)] tmpfs_inv_simps(2) by blast
        moreover have "tmpfs_isdir s' child" using grows_dir [OF _ d1] ih by (simp add: live_dir_def)
        ultimately have "lookup_from e' False False wd cur p s' = lookup_from e' False False wd child (skip_slashes (tl rest)) s'"
          using False rec by (simp add: eq' lookup_child_def del: dropWhile_eq_Nil_conv)
        with ih ch(2,5) grows_trans [OF ch(2)] show ?thesis by auto
      qed
    qed
  qed
qed

lemma lookup_ok:
  assumes "tmpfs_ok s hs" and "tmpfs_lookup e rel cd cf wd s = (r, s')"
  shows "tmpfs_ok s' hs" "grows s s'" "\<not> cd \<Longrightarrow> \<not> cf \<Longrightarrow> s' = s"
    "r = Inr i \<Longrightarrow> live_node s' i \<and> (wd \<longrightarrow> live_dir s' i) \<and> tmpfs_lookup e' rel False False wd s' = (Inr i, s')"
proof -
  note inv = tmpfs_inv_simps [OF assms(1)]
  define p where "p = skip_slashes (case rel of None \<Rightarrow> [] | Some p \<Rightarrow> p)"
  have lk: "tmpfs_lookup e cur cd cf wd t = (if p = [] then (if wd then Inr 0 else Inl ENOENT, t) else lookup_from e cd cf wd 0 p t)"
    if "cur = rel" "tmpfs_ready t" for e cur cd cf wd t
    using that by (simp add: tmpfs_lookup_def Let_def p_def del: dropWhile_eq_Nil_conv)
  have "tmpfs_ok s' hs \<and> grows s s' \<and> (\<not> cd \<longrightarrow> \<not> cf \<longrightarrow> s' = s) \<and>
    (r = Inr i \<longrightarrow> live_node s' i \<and> (wd \<longrightarrow> live_dir s' i) \<and> tmpfs_lookup e' rel False False wd s' = (Inr i, s'))"
  proof (cases "p = []")
    case True
    with assms inv show ?thesis by (auto simp: lk grows_refl live_dir_def split: if_splits)
  next
    case False
    with assms(2) lk [OF refl inv(1)] have "lookup_from e cd cf wd 0 p s = (r, s')" by simp
    note f = lookup_from_ok [OF assms(1) this inv(5), where e' = e']
    then have "tmpfs_ready s'" using tmpfs_inv_simps(1) by blast
    with f False show ?thesis by (simp add: lk)
  qed
  then show "tmpfs_ok s' hs" "grows s s'" "\<not> cd \<Longrightarrow> \<not> cf \<Longrightarrow> s' = s"
    "r = Inr i \<Longrightarrow> live_node s' i \<and> (wd \<longrightarrow> live_dir s' i) \<and> tmpfs_lookup e' rel False False wd s' = (Inr i, s')" by blast+
qed

lemma lookup_any_ok:
  assumes "tmpfs_ok s hs" and "tmpfs_lookup_any e rel s = (r, s')"
  shows "s' = s" "r = Inr i \<Longrightarrow> live_node s i"
proof -
  obtain r1 s1 where l1: "tmpfs_lookup e rel False False False s = (r1, s1)" by (cases "tmpfs_lookup e rel False False False s") auto
  note a = lookup_ok [OF assms(1) l1]
  obtain r2 s2 where l2: "tmpfs_lookup e rel False False True s = (r2, s2)" by (cases "tmpfs_lookup e rel False False True s") auto
  note b = lookup_ok [OF assms(1) l2]
  have "s' = s \<and> (r = Inr i \<longrightarrow> live_node s i)"
    using assms l1 l2 a(3) a(4) [of i] b(3) b(4) [of i] tmpfs_inv_simps(5) [OF assms(1)]
    by (auto simp: tmpfs_lookup_any_def live_dir_def split: if_splits sum.splits)
  then show "s' = s" "r = Inr i \<Longrightarrow> live_node s i" by blast+
qed

lemma parent_ok:
  assumes "tmpfs_ok s hs" and "tmpfs_parent e rel s = (r, s')"
  shows "s' = s" "r = Inr (d, leaf) \<Longrightarrow> live_dir s d \<and> name_ok leaf"
proof -
  define t where "t = rev (skip_slashes (rev (skip_slashes (take 511 (case rel of None \<Rightarrow> [] | Some p \<Rightarrow> p)))))"
  define nm where "nm = rev (takeWhile (\<lambda>c. c \<noteq> slash) (rev t))"
  note eq = tmpfs_parent_def [of e rel s, unfolded Let_def, folded t_def, folded nm_def]
  note inv = tmpfs_inv_simps [OF assms(1)]
  obtain q s1 where l: "tmpfs_lookup e (Some (take (length t - length nm - 1) t)) False False True s = (q, s1)"
    by (cases "tmpfs_lookup e (Some (take (length t - length nm - 1) t)) False False True s") auto
  note lo = lookup_ok [OF assms(1) l]
  have nm: "name_ok nm" if "t \<noteq> []" "length nm < TMPFS_MAX_NAME"
  proof -
    have "hd (rev t) \<noteq> slash" using hd_dropWhile [of "\<lambda>c. c = slash"] that(1) by (auto simp: t_def)
    with that show ?thesis by (cases "rev t") (auto simp: name_ok_def nm_def dest: set_takeWhileD)
  qed
  have "s' = s \<and> (r = Inr (d, leaf) \<longrightarrow> live_dir s d \<and> name_ok leaf)"
    using assms(2) l lo(3) lo(4) [of d] nm inv(1,5) unfolding eq by (auto split: if_splits sum.splits)
  then show "s' = s" "r = Inr (d, leaf) \<Longrightarrow> live_dir s d \<and> name_ok leaf" by blast+
qed

section \<open>Moving an entry\<close>

text \<open>The loop of \<^verbatim>\<open>tmpfs_rename\<close> ends at the root, and finds out whether the directory lies below \<open>src\<close>.\<close>

lemma on_path_spec:
  assumes "ttree_ok s" and "(0, a) \<in> (links s)\<^sup>*"
  shows "on_path s src a = Some ((src, a) \<in> (links s)\<^sup>*)"
  using assms(2)
proof (induction rule: rtrancl_induct)
  case base
  have n0: "tn_parent (nodes s ! 0) = None" using assms(1) by (simp add: ttree_ok_def)
  then have "(src, 0) \<in> (links s)\<^sup>* \<longleftrightarrow> src = 0" by (auto elim: rtranclE simp: linksD)
  with n0 show ?case by (simp add: on_path.simps)
next
  case (step p a)
  then have pa: "tn_parent (nodes s ! a) = Some p" by (simp add: linksD)
  have "(src, a) \<in> (links s)\<^sup>* \<longleftrightarrow> src = a \<or> (src, p) \<in> (links s)\<^sup>*"
    using step.hyps pa by (auto elim: rtranclE simp: linksD intro: rtrancl_into_rtrancl)
  with step.IH pa show ?case by (simp add: on_path.simps [of s src a])
qed

text \<open>Moving an entry to a directory that does not lie below it leaves every entry below the root.\<close>

lemma move_path:
  assumes "ttree_ok s" and "i < TMPFS_MAX_NODES" and "nodes s' = (nodes s)[i := n']" and "tn_used n'" and "tn_parent n' = Some d"
    and "live_node s d" and "(i, d) \<notin> (links s)\<^sup>*" and "live_node s j"
  shows "(0, j) \<in> (links s')\<^sup>*"
proof -
  have len: "length (nodes s) = TMPFS_MAX_NODES" using assms(1) by (simp add: ttree_ok_def)
  note upd = links_update [OF assms(2) len assms(3)]
  have "(0, d) \<in> (links s')\<^sup>*"
    by (rule path_kept [OF nodeD(4) [OF assms(1,6)] assms(2) len assms(3,7)])
  then have i: "(0, i) \<in> (links s')\<^sup>*" using assms(4,5) upd [of d i] by (auto intro: rtrancl_into_rtrancl)
  show ?thesis
    using nodeD(4) [OF assms(1,8)]
  proof (induction rule: rtrancl_induct)
    case (step p j)
    then show ?case using i upd [of p j] by (cases "j = i") (auto intro: rtrancl_into_rtrancl)
  qed simp
qed

lemma move_node_ok:
  assumes "tmpfs_ok s hs" and "live_node s i" and "i \<noteq> 0" and "live_dir s d" and "name_ok leaf"
    and "tmpfs_find_child s d leaf = None" and "(i, d) \<notin> (links s)\<^sup>*"
  shows "\<exists>s'. move_node e i d leaf s = Some s' \<and> tmpfs_ok s' hs \<and>
    nodes s' = (nodes s)[i := (nodes s ! i)\<lparr>tn_parent := Some d, tn_name := leaf\<rparr>] \<and>
    (\<forall>j. n_used (inodes s' ! j) = n_used (inodes s ! j) \<and> n_mode (inodes s' ! j) = n_mode (inodes s ! j))"
proof -
  note inv = tmpfs_inv_simps [OF assms(1)] and nd = nodeD [OF inv(2) assms(2)]
  obtain p where p: "tn_parent (nodes s ! i) = Some p" "live_dir s p" using nd(7) assms(3) by blast
  then have pi: "tn_ino (nodes s ! p) < TMPFS_MAX_NODES" "n_used (inodes s ! tn_ino (nodes s ! p))"
    using nodeD [OF inv(2)] by (auto simp: live_dir_def)
  have di: "d \<noteq> i" "live_node s d" using assms(4,7) by (auto simp: live_dir_def)
  define s1 where "s1 = touch_m e (tn_ino (nodes s ! p)) s"
  let ?n = "(nodes s ! i)\<lparr>tn_parent := Some d, tn_name := leaf\<rparr>"
  define s2 where "s2 = set_node i ?n s1"
  have ok1: "tmpfs_ok s1 hs" unfolding s1_def by (rule touch_ok(1) [OF assms(1) pi])
  have n1: "nodes s1 = nodes s" by (simp add: s1_def)
  note inv1 = tmpfs_inv_simps [OF ok1]
  have ns: "nodes s2 = (nodes s1)[i := ?n]" "inodes s2 = inodes s1" by (simp_all add: s2_def set_node_def)
  have same: "live_node s1 = live_node s" "links s1 = links s" "tmpfs_find_child s1 d leaf = None"
    using assms(6) by (simp_all add: live_node_def links_def n1 find_child_cong [OF n1] fun_eq_iff)
  have "live_dir s1 d" using assms(4) by (simp add: live_dir_def same tmpfs_isdir_def NI_def n1) (simp add: s1_def touched_mode)
  have reach: "(0, j) \<in> (links s2)\<^sup>*" if "live_node s2 j" for j
  proof (rule move_path [OF inv1(2) nd(1) ns(1), where d = d])
    show "live_node s1 j" using that assms(2) inv(3) nd(1) by (auto simp: same live_node_def ns n1 nth_list_update split: if_splits)
  qed (use assms(2,7) di in \<open>auto simp: same live_node_def\<close>)
  have tree: "ttree_ok s2"
  proof (rule tree_node [OF inv1(2) nd(1) assms(3) ns reach])
    show "tn_ino ?n < TMPFS_MAX_NODES \<and> tn_ino ?n \<noteq> 0 \<and> n_used (inodes s1 ! tn_ino ?n) \<and> name_ok (tn_name ?n) \<and>
        (\<exists>q. tn_parent ?n = Some q \<and> q \<noteq> i \<and> live_dir s1 q)"
      using nd assms(2,3,5) di(1) \<open>live_dir s1 d\<close> nodeD(3) [OF inv1(2)] by (simp add: same n1)
    show "tn_used ?n \<and> is_dir (inodes s1 ! tn_ino ?n)" if "live_node s1 j" "tn_parent (nodes s1 ! j) = Some i" for j
      using parentD [OF inv1(2) that] assms(2) by (simp add: live_dir_def tmpfs_isdir_def NI_def n1 live_node_def)
    show "tn_name (nodes s1 ! j) \<noteq> tn_name ?n" if "live_node s1 j" "tn_parent (nodes s1 ! j) = tn_parent ?n" for j
      using that same(3) find_child_None [OF inv1(3)] parentD [OF inv1(2) that(1)] by auto
  qed
  have nth: "nodes s2 ! x = (if x = i then ?n else nodes s ! x)" for x using nd(1) inv(3) by (simp add: ns n1)
  have nb: "named_by s2 k = named_by s1 k" for k
    using assms(2) by (auto simp: named_by_def live_node_def nth n1 split: if_splits)
  have ok2: "tmpfs_ok s2 hs"
    by (rule node_change [OF ok1 nd(1) ns _ _ tree]) (use inv1(1) in \<open>auto simp: nb, auto simp: s2_def set_node_def\<close>)
  note inv2 = tmpfs_inv_simps [OF ok2]
  define s3 where "s3 = touch_m e (tn_ino (nodes s2 ! d)) s2"
  define s4 where "s4 = touch_c e (tn_ino (nodes s3 ! i)) s3"
  have l2: "live_node s2 d" "live_node s2 i" using di assms(2) nd(1) inv(3) by (auto simp: live_node_def ns n1)
  have ok3: "tmpfs_ok s3 hs" unfolding s3_def using nodeD(2,3) [OF inv2(2) l2(1)] by (intro touch_ok(1) [OF ok2])
  have n3: "nodes s3 = nodes s2" by (simp add: s3_def)
  then have "live_node s3 i" using l2(2) by (simp add: live_node_def)
  note i3 = nodeD(2,3) [OF tmpfs_inv_simps(2) [OF ok3] this]
  have "tmpfs_ok s4 hs" unfolding s4_def using i3 by (intro touch_ok(2) [OF ok3])
  moreover have "move_node e i d leaf s = Some s4"
    using assms(5) p(1) by (simp add: move_node_def Let_def name_ok_def TMPFS_MAX_NAME_def s4_def s3_def s2_def s1_def)
  moreover have "nodes s4 = (nodes s)[i := ?n]" by (simp add: s4_def n3 ns n1)
  moreover have "n_used (inodes s4 ! j) = n_used (inodes s ! j) \<and> n_mode (inodes s4 ! j) = n_mode (inodes s ! j)" for j
    unfolding s4_def s3_def touch_simps touched_mode touched_used ns(2) s1_def by simp
  ultimately show ?thesis by blast
qed

end
