(* ===== verification/Tmpops.thy ===== *)
theory Tmpops
  imports Tmptree
begin

text \<open>
  The operations of the memory file system keep it well-formed, and what they do: every operation of
  \<^verbatim>\<open>src/src/tmpfs.c\<close> as a step on the file system and the list of open handles, the bytes that reading, writing
  and truncating work on, the entries that creating and renaming make, and the one step that breaks the tree.
\<close>

section \<open>Operations on handles\<close>

lemma opened_simps [simp]:
  "opened [] k = 0" "opened (xs @ ys) k = opened xs k + opened ys k"
  "opened (h # hs) k = (if h_ino h = k then Suc (opened hs k) else opened hs k)"
  by (simp_all add: opened_def)

lemma handle_update_ok:
  assumes "tmpfs_ok s (xs @ h # ys)" and "h_ino h' = h_ino h" and "h_pos h' < 2 ^ 32"
  shows "tmpfs_ok s (xs @ h' # ys)"
  using assms by (auto simp: tmpfs_inv_def inode_ok_def thandle_ok_def)

lemma hin_eq: "tmpfs_ok s (xs @ h # ys) \<Longrightarrow> tmpfs_hin s (Some h) = Some (h_ino h)"
  using inv_handle [of "\<lambda>_. 0" "{}" s "xs @ h # ys" h] by (simp add: tmpfs_hin_def thandle_ok_def)

lemma data_step_frame:
  assumes "data_step n s n' s'"
  shows "nodes s' = nodes s" "inodes s' = inodes s" "tmpfs_ready s' = tmpfs_ready s"
proof -
  have s': "s' = s\<lparr>tmpfs_used_bytes := tmpfs_used_bytes s', requests := requests s'\<rparr>" using assms by (simp add: data_step_def)
  show "nodes s' = nodes s" using arg_cong [OF s', of nodes] by simp
  show "inodes s' = inodes s" using arg_cong [OF s', of inodes] by simp
  show "tmpfs_ready s' = tmpfs_ready s" using arg_cong [OF s', of tmpfs_ready] by simp
qed

lemma data_step_inode:
  assumes "data_step n s n' s'"
  shows "n_used n' = n_used n" "n_mode n' = n_mode n" "n_nlink n' = n_nlink n" "n_opens n' = n_opens n" "n_target n' = n_target n"
proof -
  have n': "n' = n\<lparr>n_chunks := n_chunks n', n_size := n_size n', n_mtime := n_mtime n', n_ctime := n_ctime n'\<rparr>"
    using assms by (simp add: data_step_def)
  show "n_used n' = n_used n" using arg_cong [OF n', of n_used] by simp
  show "n_mode n' = n_mode n" using arg_cong [OF n', of n_mode] by simp
  show "n_nlink n' = n_nlink n" using arg_cong [OF n', of n_nlink] by simp
  show "n_opens n' = n_opens n" using arg_cong [OF n', of n_opens] by simp
  show "n_target n' = n_target n" using arg_cong [OF n', of n_target] by simp
qed

lemma regular_inode:
  assumes "tmpfs_ok s hs" and "k < TMPFS_MAX_NODES" and "n_used (inodes s ! k)" and "n_mode (inodes s ! k) AND T_IFMT = T_IFREG"
  shows "data_ok (inodes s ! k)" "n_target (inodes s ! k) = None" "booked (inodes s ! k) s"
  using inv_inode [OF assms(1,2)] assms(3,4) tmpfs_inv_simps(4,6) [OF assms(1)] chunks_in_use_le [of k "inodes s"] assms(2)
  by (auto simp: inode_ok_def Let_def kind_ok_def booked_def)

lemma data_change_ok:
  assumes "tmpfs_ok s hs" and "k < TMPFS_MAX_NODES" and "n_used (inodes s ! k)" and "n_mode (inodes s ! k) AND T_IFMT = T_IFREG"
    and "data_step (inodes s ! k) s n' s1" and "data_ok n'"
  shows "tmpfs_ok (set_inode k n' s1) hs"
proof (rule inode_data [OF assms(1,2)])
  note fr = data_step_frame [OF assms(5)] and inn = data_step_inode [OF assms(5)]
  show "inodes (set_inode k n' s1) = (inodes s)[k := n']" "nodes (set_inode k n' s1) = nodes s" "tmpfs_ready (set_inode k n' s1)"
    using tmpfs_inv_simps(1) [OF assms(1)] by (simp_all add: set_inode_def fr)
  show "tmpfs_used_bytes (set_inode k n' s1) + TMPFS_CHUNK * chunk_count (n_chunks (inodes s ! k)) =
      tmpfs_used_bytes s + TMPFS_CHUNK * chunk_count (n_chunks n')"
    using assms(5) by (simp add: data_step_def set_inode_def)
  show "data_ok n' \<and> kind_ok n'"
    using assms(4,6) regular_inode(2) [OF assms(1-4)] inn by (simp add: kind_ok_def)
qed (use assms(3) data_step_inode [OF assms(5)] in auto)

lemma read_ok:
  assumes "tmpfs_ok s (xs @ h # ys)" and "tmpfs_read (Some h) sz s = (r, out, h')"
  shows "\<exists>h1. h' = Some h1 \<and> h_ino h1 = h_ino h \<and> h_pos h1 < 2 ^ 32 \<and>
    out = take sz (drop (h_pos h) (content (inodes s ! h_ino h))) \<and> r = c_int (length out) \<and> h1 = h\<lparr>h_pos := h_pos h + length out\<rparr>"
proof -
  have h: "thandle_ok s h" using inv_handle [OF assms(1)] by simp
  then have "data_ok (inodes s ! h_ino h)" using regular_inode(1) [OF assms(1), of "h_ino h"] by (simp add: thandle_ok_def)
  then have sz: "n_size (inodes s ! h_ino h) < 2 ^ 32" and out: "out = take sz (drop (h_pos h) (content (inodes s ! h_ino h)))"
    using assms(2) hin_eq [OF assms(1)] by (auto simp: data_ok_def tmpfs_read_def Let_def read_inode_eq)
  have "h_pos h + length out < 2 ^ 32" using h sz by (auto simp: out thandle_ok_def min_def)
  then show ?thesis using assms(2) hin_eq [OF assms(1)] out by (auto simp: tmpfs_read_def Let_def)
qed

text \<open>Where the next write goes.\<close>

definition write_pos :: "thandle \<Rightarrow> tmpfs \<Rightarrow> nat" where
  "write_pos h s = (if h_flags h AND VFS_O_APPEND \<noteq> 0 then n_size (inodes s ! h_ino h) else h_pos h)"

lemma write_ok:
  assumes "tmpfs_ok s (xs @ h # ys)" and "tmpfs_write e (Some h) buffer s = (r, h', s')" and "h_flags h AND VFS_O_WRITE \<noteq> 0"
  shows "\<exists>h1. h' = Some h1 \<and> h_ino h1 = h_ino h \<and> h_flags h1 = h_flags h \<and> tmpfs_ok s' (xs @ h1 # ys) \<and>
    nodes s' = nodes s \<and> (\<forall>j. j \<noteq> h_ino h \<longrightarrow> inodes s' ! j = inodes s ! j) \<and>
    (r = - errno_code ENOSPC \<and> buffer \<noteq> [] \<and> content (inodes s' ! h_ino h) = content (inodes s ! h_ino h) \<and> h_pos h1 = write_pos h s \<and>
       fst (write_inode e (write_pos h s) buffer (inodes s ! h_ino h) s) = Inl ENOSPC \<or>
     (\<exists>d \<le> length buffer. (\<exists>s1. write_inode e (write_pos h s) buffer (inodes s ! h_ino h) s = (Inr d, inodes s' ! h_ino h, s1)) \<and> r = c_int d \<and> h_pos h1 = write_pos h s + d \<and> (d = 0 \<longleftrightarrow> buffer = []) \<and>
       content (inodes s' ! h_ino h) =
         (if buffer = [] then content (inodes s ! h_ino h) else file_write (content (inodes s ! h_ino h)) (write_pos h s) (take d buffer))))"
proof -
  let ?k = "h_ino h"
  let ?h1 = "if h_flags h AND VFS_O_APPEND \<noteq> 0 then h\<lparr>h_pos := n_size (inodes s ! ?k)\<rparr> else h"
  have h: "thandle_ok s h" using inv_handle [OF assms(1)] by simp
  then have k: "?k < TMPFS_MAX_NODES" "n_used (inodes s ! ?k)" "n_mode (inodes s ! ?k) AND T_IFMT = T_IFREG" by (simp_all add: thandle_ok_def)
  note reg = regular_inode [OF assms(1) k]
  have wp: "h_pos ?h1 = write_pos h s" "write_pos h s < 2 ^ 32" and ih: "h_ino ?h1 = ?k" "h_flags ?h1 = h_flags h"
    using reg(1) h by (auto simp: write_pos_def data_ok_def thandle_ok_def)
  obtain q n1 s1 where w: "write_inode e (write_pos h s) buffer (inodes s ! ?k) s = (q, n1, s1)" by (metis prod_cases3)
  note sp = write_inode_spec [OF w reg(1)]
  have eq: "r = (case q of Inl err \<Rightarrow> - errno_code err | Inr d \<Rightarrow> c_int d)" "s' = set_inode ?k n1 s1"
    "h' = Some (case q of Inl _ \<Rightarrow> ?h1 | Inr d \<Rightarrow> ?h1\<lparr>h_pos := h_pos ?h1 + d\<rparr>)"
    using assms(2,3) w hin_eq [OF assms(1)] wp(1) by (auto simp: tmpfs_write_def Let_def split: sum.splits)
  note fr = data_step_frame [OF conjunct1 [OF sp]]
  have ok: "tmpfs_ok s' (xs @ h # ys)" unfolding eq using sp by (intro data_change_ok [OF assms(1) k]) auto
  have i': "inodes s' ! ?k = n1" "j \<noteq> ?k \<Longrightarrow> inodes s' ! j = inodes s ! j" "nodes s' = nodes s" for j
    using k(1) tmpfs_inv_simps(4) [OF assms(1)] by (simp_all add: eq set_inode_def fr)
  show ?thesis
  proof (cases q)
    case (Inl err)
    then have "buffer \<noteq> []" using w by (auto simp: write_inode_def split: if_splits)
    moreover have "tmpfs_ok s' (xs @ ?h1 # ys)" by (rule handle_update_ok [OF ok]) (use wp ih in auto)
    ultimately show ?thesis using Inl eq sp wp(1) ih i' w by (intro exI [of _ ?h1]) simp
  next
    case (Inr d)
    let ?h2 = "?h1\<lparr>h_pos := h_pos ?h1 + d\<rparr>"
    have "write_pos h s + d < 2 ^ 32" using sp Inr wp(2) by (cases "d = 0") auto
    then have "tmpfs_ok s' (xs @ ?h2 # ys)" by (intro handle_update_ok [OF ok]) (use wp ih in auto)
    then show ?thesis using Inr eq sp wp(1) ih i' w by (intro exI [of _ ?h2]) auto
  qed
qed

lemma write_refused:
  "tmpfs_ok s (xs @ h # ys) \<Longrightarrow> h_flags h AND VFS_O_WRITE = 0 \<Longrightarrow> tmpfs_write e (Some h) buffer s = (- errno_code EBADF, Some h, s)"
  by (simp add: tmpfs_write_def hin_eq Let_def)

lemma set_len_ok:
  assumes "tmpfs_ok s hs" and "k < TMPFS_MAX_NODES" and "n_used (inodes s ! k)" and "n_mode (inodes s ! k) AND T_IFMT = T_IFREG"
    and "tmpfs_set_len e len (inodes s ! k) s = (r, n1, s1)"
  shows "tmpfs_ok (set_inode k n1 s1) hs" "inodes (set_inode k n1 s1) ! k = n1" "nodes (set_inode k n1 s1) = nodes s"
    "j \<noteq> k \<Longrightarrow> inodes (set_inode k n1 s1) ! j = inodes s ! j"
    "r = Inl err \<Longrightarrow> err = ENOSPC \<and> content n1 = content (inodes s ! k)"
    "r = Inr () \<Longrightarrow> len + TMPFS_CHUNK \<le> 2 ^ 32 \<Longrightarrow> content n1 = file_resize (content (inodes s ! k)) len"
proof -
  note reg = regular_inode [OF assms(1-4)]
  note sp = set_len_spec [OF assms(5) reg(1,3)] and fr = data_step_frame [OF conjunct1 [OF set_len_spec [OF assms(5) reg(1,3)]]]
  show "tmpfs_ok (set_inode k n1 s1) hs" using sp by (intro data_change_ok [OF assms(1-4)]) auto
  show "inodes (set_inode k n1 s1) ! k = n1" "nodes (set_inode k n1 s1) = nodes s"
    using assms(2) tmpfs_inv_simps(4) [OF assms(1)] by (simp_all add: set_inode_def fr)
  show "j \<noteq> k \<Longrightarrow> inodes (set_inode k n1 s1) ! j = inodes s ! j" by (simp add: set_inode_def fr)
  show "r = Inl err \<Longrightarrow> err = ENOSPC \<and> content n1 = content (inodes s ! k)"
    "r = Inr () \<Longrightarrow> len + TMPFS_CHUNK \<le> 2 ^ 32 \<Longrightarrow> content n1 = file_resize (content (inodes s ! k)) len"
    using sp by auto
qed

lemma seek_ok:
  assumes "tmpfs_ok s (xs @ h # ys)" and "tmpfs_seek (Some h) offset whence s = (r, h')"
  shows "\<exists>h1. h' = Some h1 \<and> tmpfs_ok s (xs @ h1 # ys)"
proof -
  have "\<exists>h1. h' = Some h1 \<and> h_ino h1 = h_ino h \<and> h_pos h1 < 2 ^ 32"
    using assms(2) hin_eq [OF assms(1)] inv_handle [OF assms(1), of h]
    by (auto simp: tmpfs_seek_def Let_def thandle_ok_def nat_less_iff split: if_splits)
  then show ?thesis using handle_update_ok [OF assms(1)] by blast
qed

lemma ftruncate_ok:
  assumes "tmpfs_ok s (xs @ h # ys)" and "tmpfs_ftruncate e (Some h) len s = (r, s')"
  shows "tmpfs_ok s' (xs @ h # ys)"
proof -
  have h: "thandle_ok s h" using inv_handle [OF assms(1)] by simp
  obtain q n1 s1 where l: "tmpfs_set_len e len (inodes s ! h_ino h) s = (q, n1, s1)" by (metis prod_cases3)
  then have "s' = set_inode (h_ino h) n1 s1" using assms(2) hin_eq [OF assms(1)] by (simp add: tmpfs_ftruncate_def)
  with set_len_ok(1) [OF assms(1) _ _ _ l] h show ?thesis by (simp add: thandle_ok_def)
qed

lemma close_ok:
  assumes "tmpfs_ok s (xs @ h # ys)"
  shows "tmpfs_ok (tmpfs_close (Some h) s) (xs @ ys)" "nodes (tmpfs_close (Some h) s) = nodes s"
proof -
  let ?k = "h_ino h"
  let ?n = "(inodes s ! ?k)\<lparr>n_opens := n_opens (inodes s ! ?k) - 1\<rparr>"
  have h: "thandle_ok s h" using inv_handle [OF assms] by simp
  then have k: "0 < ?k" "?k < TMPFS_MAX_NODES" "n_used (inodes s ! ?k)" by (simp_all add: thandle_ok_def)
  note inv = tmpfs_inv_simps [OF assms] and io = inv_inode [OF assms k(2)]
  have op: "n_opens (inodes s ! ?k) = Suc (opened (xs @ ys) ?k)" using io by (simp add: inode_ok_def Let_def)
  then have eq: "tmpfs_close (Some h) s = tmpfs_put_inode ?k (set_inode ?k ?n s)"
    by (simp add: tmpfs_close_def hin_eq [OF assms] Let_def)
  have dk: "data_ok ?n" "kind_ok ?n" using io k(3) by (simp_all add: inode_ok_def Let_def data_ok_def kind_ok_def)
  have "tmpfs_inv (\<lambda>_. 0) {?k} (set_inode ?k ?n s) (xs @ ys)"
  proof (rule inode_change [OF assms k(2), where n' = ?n])
    have "inodes (set_inode ?k ?n s) ! ?k = ?n" using k(2) inv(4) by (simp add: set_inode_def)
    then show "inode_ok (\<lambda>_. 0) {?k} (set_inode ?k ?n s) (xs @ ys) ?k"
      using io op dk k(3) by (auto simp: inode_ok_def Let_def)
    show "thandle_ok (set_inode ?k ?n s) h'" if "h' \<in> set (xs @ ys)" for h'
      using inv_handle [OF assms, of h'] that k(2) inv(4) by (auto simp: thandle_ok_def set_inode_def nth_list_update)
  qed (use inv(1) k(3) in \<open>auto simp: set_inode_def\<close>)
  then have "tmpfs_inv (\<lambda>_. 0) ({?k} - {?k}) (tmpfs_put_inode ?k (set_inode ?k ?n s)) (xs @ ys)"
    using k by (intro put_ok) auto
  then show "tmpfs_ok (tmpfs_close (Some h) s) (xs @ ys)" by (simp add: eq)
  show "nodes (tmpfs_close (Some h) s) = nodes s" by (simp add: eq)
qed

text \<open>A walk that makes nothing, and a walk for any entry.\<close>

lemma plain_lookup:
  assumes "tmpfs_ok s hs"
  obtains q where "tmpfs_lookup e rel False False wd s = (q, s)" "\<And>i. q = Inr i \<Longrightarrow> live_node s i \<and> (wd \<longrightarrow> live_dir s i)"
proof -
  obtain q s1 where l: "tmpfs_lookup e rel False False wd s = (q, s1)" by (metis surj_pair)
  note lo = lookup_ok [OF assms l]
  then have "s1 = s" by simp
  with l lo(4) that show thesis by blast
qed

lemma any_lookup:
  assumes "tmpfs_ok s hs"
  obtains q where "tmpfs_lookup_any e rel s = (q, s)" "\<And>i. q = Inr i \<Longrightarrow> live_node s i"
proof -
  obtain q s1 where l: "tmpfs_lookup_any e rel s = (q, s1)" by (metis surj_pair)
  note lo = lookup_any_ok [OF assms l]
  with l that show thesis by blast
qed

lemma parent_lookup:
  assumes "tmpfs_ok s hs"
  obtains q where "tmpfs_parent e rel s = (q, s)" "\<And>d leaf. q = Inr (d, leaf) \<Longrightarrow> live_dir s d \<and> name_ok leaf"
proof -
  obtain q s1 where l: "tmpfs_parent e rel s = (q, s1)" by (metis surj_pair)
  note lo = parent_ok [OF assms l]
  with l that show thesis by blast
qed

text \<open>An entry that is neither a directory nor a link names a regular file.\<close>

lemma regular_node:
  assumes "tmpfs_ok s hs" and "live_node s i" and "\<not> tmpfs_isdir s i" and "\<not> tmpfs_islnk s i"
  shows "0 < tn_ino (nodes s ! i)" "tn_ino (nodes s ! i) < TMPFS_MAX_NODES" "n_used (inodes s ! tn_ino (nodes s ! i))"
    "n_mode (inodes s ! tn_ino (nodes s ! i)) AND T_IFMT = T_IFREG"
proof -
  note inv = tmpfs_inv_simps [OF assms(1)] and nd = nodeD [OF inv(2) assms(2)]
  have "i \<noteq> 0" using assms(3) inv(5) by (metis live_dir_def)
  then show "0 < tn_ino (nodes s ! i)" "tn_ino (nodes s ! i) < TMPFS_MAX_NODES" "n_used (inodes s ! tn_ino (nodes s ! i))"
    using nd by auto
  have "kind_ok (inodes s ! tn_ino (nodes s ! i))" using inv_inode [OF assms(1) nd(2)] nd(3) by (simp add: inode_ok_def Let_def)
  with assms(3,4) show "n_mode (inodes s ! tn_ino (nodes s ! i)) AND T_IFMT = T_IFREG"
    by (auto simp: kind_ok_def tmpfs_isdir_def tmpfs_islnk_def NI_def)
qed

lemma opens_ok:
  assumes "tmpfs_ok s hs" and "h_ino h = k" and "h_pos h < 2 ^ 32" and "0 < k" and "k < TMPFS_MAX_NODES"
    and "n_used (inodes s ! k)" and "n_mode (inodes s ! k) AND T_IFMT = T_IFREG"
  shows "tmpfs_ok (set_inode k ((inodes s ! k)\<lparr>n_opens := n_opens (inodes s ! k) + 1\<rparr>) s) (hs @ [h])"
proof (rule inode_change [OF assms(1,5), where n' = "(inodes s ! k)\<lparr>n_opens := n_opens (inodes s ! k) + 1\<rparr>"])
  let ?n = "(inodes s ! k)\<lparr>n_opens := n_opens (inodes s ! k) + 1\<rparr>"
  note inv = tmpfs_inv_simps [OF assms(1)] and io = inv_inode [OF assms(1,5)]
  have n: "inodes (set_inode k ?n s) ! k = ?n" using assms(5) inv(4) by (simp add: set_inode_def)
  have "data_ok ?n" "kind_ok ?n" using io assms(6) by (simp_all add: inode_ok_def Let_def data_ok_def kind_ok_def)
  then show "inode_ok (\<lambda>_. 0) {} (set_inode k ?n s) (hs @ [h]) k"
    using io n assms(2,6) by (auto simp: inode_ok_def Let_def)
  show "thandle_ok (set_inode k ?n s) h'" if "h' \<in> set (hs @ [h])" for h'
    using inv_handle [OF assms(1), of h'] that assms(2-7) inv(4) by (auto simp: thandle_ok_def set_inode_def nth_list_update)
qed (use tmpfs_inv_simps(1) [OF assms(1)] assms(2,6) in \<open>auto simp: set_inode_def\<close>)

lemma emptied_ok:
  assumes "tmpfs_ok s hs" and "k < TMPFS_MAX_NODES" and "n_used (inodes s ! k)" and "n_mode (inodes s ! k) AND T_IFMT = T_IFREG"
  shows "tmpfs_ok (empty_inode e k s) hs" "n_used (inodes (empty_inode e k s) ! k)" "n_mode (inodes (empty_inode e k s) ! k) = n_mode (inodes s ! k)"
proof -
  obtain n1 s1 where fd: "tmpfs_free_data (inodes s ! k) s = (n1, s1)" by (metis surj_pair)
  let ?t = "e_clock e (requests s1)" and ?s2 = "s1\<lparr>requests := Suc (requests s1)\<rparr>"
  have eq: "empty_inode e k s = set_inode k (n1\<lparr>n_size := 0, n_mtime := ?t, n_ctime := ?t\<rparr>) ?s2"
    by (simp add: empty_inode_def fd tmpfs_now_def)
  show "tmpfs_ok (empty_inode e k s) hs" unfolding eq
  proof (rule data_change_ok [OF assms])
    show "data_step (inodes s ! k) s (n1\<lparr>n_size := 0, n_mtime := ?t, n_ctime := ?t\<rparr>) ?s2"
      using fd regular_inode(3) [OF assms] by (auto simp: tmpfs_free_data_def data_step_def booked_def)
    show "data_ok (n1\<lparr>n_size := 0, n_mtime := ?t, n_ctime := ?t\<rparr>)"
      using fd by (auto simp: tmpfs_free_data_def data_ok_def chunks_ok_def)
  qed
  have n1: "n1 = (inodes s ! k)\<lparr>n_chunks := []\<rparr>" "inodes s1 = inodes s" using fd by (auto simp: tmpfs_free_data_def)
  then show "n_used (inodes (empty_inode e k s) ! k)" "n_mode (inodes (empty_inode e k s) ! k) = n_mode (inodes s ! k)"
    using assms(2,3) tmpfs_inv_simps(4) [OF assms(1)] by (simp_all add: eq set_inode_def)
qed

lemma limits_ok [simp]: "tmpfs_inv x X (s\<lparr>tmpfs_limit_bytes := l\<rparr>) hs = tmpfs_inv x X s hs"
proof -
  have "nodes (s\<lparr>tmpfs_limit_bytes := l\<rparr>) = nodes s" "inodes (s\<lparr>tmpfs_limit_bytes := l\<rparr>) = inodes s" by simp_all
  then show ?thesis
    by (simp add: tmpfs_inv_def ttree_ok_def inode_ok_def tnode_ok_def named_by_def thandle_ok_def live_dir_def live_node_def
        tmpfs_isdir_def NI_def links_def)
qed

lemma open_ok:
  assumes "tmpfs_ok s hs" and "tmpfs_open e rel flags s = (h, s')"
  shows "tmpfs_ok s' (hs @ (case h of None \<Rightarrow> [] | Some h1 \<Rightarrow> [h1]))"
proof -
  define look where "look = (case tmpfs_lookup e rel False False False s of
      (Inr i, s1) \<Rightarrow> (Inr i, s1)
    | (Inl err, s1) \<Rightarrow> if flags AND VFS_O_CREATE \<noteq> 0 then tmpfs_lookup e rel True True False s1 else (Inl err, s1))"
  obtain q s1 where l: "look = (q, s1)" by (metis surj_pair)
  have s1: "tmpfs_ok s1 hs" "\<And>i. q = Inr i \<Longrightarrow> live_node s1 i"
  proof -
    obtain q0 where l0: "tmpfs_lookup e rel False False False s = (q0, s)" and q0: "\<And>i. q0 = Inr i \<Longrightarrow> live_node s i"
      using plain_lookup [OF assms(1)] by metis
    obtain q1 s2 where l1: "tmpfs_lookup e rel True True False s = (q1, s2)" by (metis surj_pair)
    note lo = lookup_ok [OF assms(1) l1]
    show "tmpfs_ok s1 hs" "\<And>i. q = Inr i \<Longrightarrow> live_node s1 i"
      using l l0 l1 q0 lo(1,4) assms(1) by (auto simp: look_def split: sum.splits if_splits)
  qed
  note eq = assms(2) [unfolded tmpfs_open_def, folded look_def, unfolded l Let_def prod.case]
  show ?thesis
  proof (cases q)
    case (Inr i)
    show ?thesis
    proof (cases "tmpfs_isdir s1 i \<or> tmpfs_islnk s1 i")
      case False
      define k where "k = tn_ino (nodes s1 ! i)"
      note reg = regular_node [OF s1(1) s1(2) [OF Inr], folded k_def]
      have k: "0 < k" "k < TMPFS_MAX_NODES" "n_used (inodes s1 ! k)" "n_mode (inodes s1 ! k) AND T_IFMT = T_IFREG"
        using reg False by auto
      define s2 where "s2 = (if flags AND VFS_O_TRUNC \<noteq> 0 then empty_inode e k s1 else s1)"
      have s2: "tmpfs_ok s2 hs" and k2: "n_used (inodes s2 ! k)" "n_mode (inodes s2 ! k) AND T_IFMT = T_IFREG"
        using s1(1) k emptied_ok [OF s1(1) k(2-4), of e] by (simp_all add: s2_def)
      have sz: "n_size (inodes s2 ! k) < 2 ^ 32" using regular_inode(1) [OF s2 k(2) k2] by (simp add: data_ok_def)
      let ?s3 = "s2\<lparr>requests := Suc (requests s2)\<rparr>"
      show ?thesis
      proof (cases "e_kalloc e (requests s2) 12")
        case True
        let ?h = "\<lparr>h_ino = k, h_pos = (if flags AND VFS_O_APPEND \<noteq> 0 then n_size (inodes ?s3 ! k) else 0), h_flags = flags\<rparr>"
        have e2: "h = Some ?h" "s' = set_inode k ((inodes ?s3 ! k)\<lparr>n_opens := n_opens (inodes ?s3 ! k) + 1\<rparr>) ?s3"
          using eq [unfolded Inr] False True unfolding s2_def k_def by (simp_all add: tmpfs_kalloc_def)
        have "tmpfs_ok s' (hs @ [?h])" unfolding e2 by (rule opens_ok) (use s2 sz k k2 in auto)
        then show ?thesis using e2 by simp
      next
        case f: False
        with eq Inr False have "h = None" "s' = ?s3" unfolding s2_def k_def by (simp_all add: tmpfs_kalloc_def)
        with s2 show ?thesis by simp
      qed
    qed (use eq Inr s1 in auto)
  qed (use eq s1 in auto)
qed

section \<open>Operations on paths\<close>

lemma create_ok:
  assumes "tmpfs_ok s hs" and "tmpfs_create e rel s = (r, s')"
  shows "tmpfs_ok s' hs" "grows s s'"
proof -
  obtain q s1 where l: "tmpfs_lookup e rel True True False s = (q, s1)" by (metis surj_pair)
  then have "s' = s1" using assms(2) by (auto simp: tmpfs_create_def split: sum.splits)
  then show "tmpfs_ok s' hs" "grows s s'" using lookup_ok(1,2) [OF assms(1) l] by simp_all
qed

lemma mkdir_ok:
  assumes "tmpfs_ok s hs" and "tmpfs_mkdir e rel s = (r, s')"
  shows "tmpfs_ok s' hs" "grows s s'"
proof -
  obtain q s1 where l: "tmpfs_lookup e rel True False True s = (q, s1)" by (metis surj_pair)
  then have "s' = s1" using assms(2) by (auto simp: tmpfs_mkdir_def split: sum.splits)
  then show "tmpfs_ok s' hs" "grows s s'" using lookup_ok(1,2) [OF assms(1) l] by simp_all
qed

lemma drop_ok:
  assumes "tmpfs_ok s hs" and "live_node s i" and "i \<noteq> 0" and "\<not> tmpfs_has_children s i"
  shows "tmpfs_ok (tmpfs_drop_node e i s) hs"
  using drop_node_ok(1) [OF assms(1-3)] assms(4) has_children_iff [OF tmpfs_inv_simps(2) [OF assms(1)]] by blast

lemma rmdir_ok:
  assumes "tmpfs_ok s hs" and "tmpfs_rmdir e rel s = (r, s')"
  shows "tmpfs_ok s' hs"
proof -
  obtain q where l: "tmpfs_lookup e rel False False True s = (q, s)" and q: "\<And>i. q = Inr i \<Longrightarrow> live_node s i"
    using plain_lookup [OF assms(1)] by metis
  show ?thesis
  proof (cases q)
    case (Inr i)
    with q have "live_node s i" by simp
    then show ?thesis using assms l Inr drop_ok [OF assms(1), of i e] by (auto simp: tmpfs_rmdir_def split: if_splits)
  qed (use assms l in \<open>auto simp: tmpfs_rmdir_def\<close>)
qed

text \<open>
  Removing a file, with the condition the code does not check: the entry is not a directory with entries
  of its own.
\<close>

definition unlink_safe :: "tenv \<Rightarrow> string option \<Rightarrow> tmpfs \<Rightarrow> bool" where
  "unlink_safe e rel s \<longleftrightarrow>
    (case tmpfs_lookup e rel False False False s of (Inr i, s1) \<Rightarrow> \<not> tmpfs_has_children s1 i | (Inl _, s1) \<Rightarrow> True)"

lemma unlink_ok:
  assumes "tmpfs_ok s hs" and "tmpfs_unlink e rel s = (r, s')" and "unlink_safe e rel s"
  shows "tmpfs_ok s' hs"
proof -
  obtain q where l: "tmpfs_lookup e rel False False False s = (q, s)" and q: "\<And>i. q = Inr i \<Longrightarrow> live_node s i"
    using plain_lookup [OF assms(1)] by metis
  obtain q' where l': "tmpfs_lookup e rel False False True s = (q', s)" and q': "\<And>i. q' = Inr i \<Longrightarrow> live_node s i"
    using plain_lookup [OF assms(1)] by metis
  show ?thesis
  proof (cases q)
    case (Inr i)
    with q have "live_node s i" by simp
    then show ?thesis
      using assms l Inr drop_ok [OF assms(1), of i e] by (auto simp: tmpfs_unlink_def unlink_safe_def split: if_splits)
  next
    case (Inl err)
    show ?thesis
    proof (cases q')
      case (Inr i)
      with q' have "live_node s i" by simp
      then show ?thesis
        using assms(1,2) l l' Inl Inr drop_ok [OF assms(1), of i e] by (auto simp: tmpfs_unlink_def split: if_splits)
    qed (use assms(1,2) l l' Inl in \<open>auto simp: tmpfs_unlink_def\<close>)
  qed
qed

lemma truncate_ok:
  assumes "tmpfs_ok s hs" and "tmpfs_truncate e rel len s = (r, s')"
  shows "tmpfs_ok s' hs"
proof -
  obtain q where l: "tmpfs_lookup e rel False False False s = (q, s)" and q: "\<And>i. q = Inr i \<Longrightarrow> live_node s i"
    using plain_lookup [OF assms(1)] by metis
  show ?thesis
  proof (cases q)
    case (Inr i)
    show ?thesis
    proof (cases "tmpfs_isdir s i \<or> tmpfs_islnk s i")
      case False
      let ?k = "tn_ino (nodes s ! i)"
      obtain q1 n1 s1 where sl: "tmpfs_set_len e len (inodes s ! ?k) s = (q1, n1, s1)" by (metis prod_cases3)
      then have "s' = set_inode ?k n1 s1" using assms(2) l Inr False by (simp add: tmpfs_truncate_def Let_def)
      with set_len_ok(1) [OF assms(1) _ _ _ sl] regular_node [OF assms(1) q [OF Inr]] False show ?thesis by simp
    qed (use assms l Inr in \<open>auto simp: tmpfs_truncate_def split: if_splits\<close>)
  qed (use assms l in \<open>auto simp: tmpfs_truncate_def\<close>)
qed

lemma mode_bits:
  "((a :: u32) AND T_IFMT OR b AND 0xFFF) AND T_IFMT = a AND T_IFMT" "((a :: u32) AND - 0xC01) AND T_IFMT = a AND T_IFMT"
  by (simp_all add: bit.conj_disj_distrib2 and.assoc)

lemma setattr_ok:
  assumes "tmpfs_ok s hs" and "tmpfs_setattr e rel what mode uid gid s = (r, s')"
  shows "tmpfs_ok s' hs"
proof -
  obtain q where l: "tmpfs_lookup_any e rel s = (q, s)" and q: "\<And>i. q = Inr i \<Longrightarrow> live_node s i"
    using any_lookup [OF assms(1)] by metis
  show ?thesis
  proof (cases q)
    case (Inr i)
    define k where "k = tn_ino (nodes s ! i)"
    note inv = tmpfs_inv_simps [OF assms(1)]
    have k: "k < TMPFS_MAX_NODES" "n_used (inodes s ! k)" using nodeD(2,3) [OF inv(2) q [OF Inr]] by (simp_all add: k_def)
    define n1 where "n1 = (if what AND 1 \<noteq> 0 \<and> \<not> tmpfs_islnk s i
      then (inodes s ! k)\<lparr>n_mode := (n_mode (inodes s ! k) AND T_IFMT) OR (mode AND 0xFFF)\<rparr> else inodes s ! k)"
    define n2 where "n2 = (if what AND 2 \<noteq> 0
      then n1\<lparr>n_uid := (if uid \<noteq> - 1 then uid else n_uid n1), n_gid := (if gid \<noteq> - 1 then gid else n_gid n1),
        n_mode := (if \<not> tmpfs_islnk s i \<and> \<not> tmpfs_isdir s i then n_mode n1 AND NOT 0xC00 else n_mode n1)\<rparr> else n1)"
    have s': "s' = touch_c e k (set_inode k n2 s)"
      using assms(2) l Inr unfolding tmpfs_setattr_def k_def n1_def n2_def by (simp add: Let_def)
    have n2: "n_mode n2 AND T_IFMT = n_mode (inodes s ! k) AND T_IFMT" "n_used n2" "n_nlink n2 = n_nlink (inodes s ! k)"
      "n_opens n2 = n_opens (inodes s ! k)" "n_chunks n2 = n_chunks (inodes s ! k)" "n_size n2 = n_size (inodes s ! k)"
      "n_target n2 = n_target (inodes s ! k)"
      using k(2) by (simp_all add: n2_def n1_def mode_bits)
    have "tmpfs_ok (set_inode k n2 s) hs"
    proof (rule inode_data [OF assms(1) k(1), where n' = n2])
      show "data_ok n2 \<and> kind_ok n2"
        using inv_inode [OF assms(1) k(1)] k(2) n2 by (simp add: inode_ok_def Let_def data_ok_def kind_ok_def)
    qed (use inv(1) k n2 in \<open>simp_all add: set_inode_def\<close>)
    moreover have "n_used (inodes (set_inode k n2 s) ! k)" using k inv(4) n2 by (simp add: set_inode_def)
    ultimately show ?thesis unfolding s' using k(1) by (intro touch_ok(2))
  qed (use assms l in \<open>auto simp: tmpfs_setattr_def\<close>)
qed

lemma symlink_ok:
  assumes "tmpfs_ok s hs" and "tmpfs_symlink e rel target s = (r, s')"
  shows "tmpfs_ok s' hs"
proof (cases "target = [] \<or> length target > TMPFS_LINK_MAX")
  case False
  obtain q where l: "tmpfs_parent e rel s = (q, s)" and q: "\<And>d leaf. q = Inr (d, leaf) \<Longrightarrow> live_dir s d \<and> name_ok leaf"
    using parent_lookup [OF assms(1)] by metis
  show ?thesis
  proof (cases q)
    case (Inr dl)
    obtain d leaf where dl: "dl = (d, leaf)" by (cases dl)
    then have d: "live_dir s d" "name_ok leaf" using q Inr by auto
    let ?s2 = "s\<lparr>requests := Suc (requests s)\<rparr>"
    have ok2: "tmpfs_ok ?s2 hs" using assms(1) by simp
    obtain ko s3 where al: "tmpfs_alloc_inode e (T_IFLNK OR 0x1FF) ?s2 = (ko, s3)" by (metis surj_pair)
    show ?thesis
    proof (cases "tmpfs_find_child s d leaf = None \<and> e_kalloc e (requests s) (length target + 1) \<and> ko \<noteq> None")
      case True
      then obtain k where k: "ko = Some k" by blast
      define n' where "n' = no_inode\<lparr>n_used := True, n_mode := T_IFLNK OR 0x1FF, n_nlink := 1, n_target := Some target, n_size := length target,
        n_mtime := e_clock e (requests ?s2), n_ctime := e_clock e (requests ?s2)\<rparr>"
      define s4 where "s4 = set_inode k ((inodes s3 ! k)\<lparr>n_target := Some target, n_size := length target\<rparr>) s3"
      have k0: "0 < k" "k < TMPFS_MAX_NODES" "\<not> n_used (inodes s ! k)" using alloc_inode_eq [OF al [unfolded k]] by simp_all
      have s4: "nodes s4 = nodes s" "inodes s4 = (inodes s)[k := n']" "tmpfs_ready s4" "tmpfs_used_bytes s4 = tmpfs_used_bytes s"
        using alloc_inode_eq [OF al [unfolded k]] k0 tmpfs_inv_simps(1,4) [OF assms(1)]
        by (auto simp: s4_def n'_def set_inode_def no_inode_def)
      have dk: "data_ok n'" "kind_ok n'" "n_used n'" "n_nlink n' = 1" "n_opens n' = 0" "n_chunks n' = []"
        using False by (auto simp: n'_def no_inode_def data_ok_def kind_ok_def chunks_ok_def TMPFS_LINK_MAX_def)
      note f = inode_fresh [OF assms(1) k0 s4 dk(3,1,2,4,5,6)]
      have n4: "inodes s4 ! k = n'" using k0 tmpfs_inv_simps(4) [OF assms(1)] by (simp add: s4)
      have "tn_ino (nodes s ! d) \<noteq> k" using d(1) nodeD(3) [OF tmpfs_inv_simps(2) [OF assms(1)], of d] k0 by (auto simp: live_dir_def)
      then have d4: "live_dir s4 d" using d(1) by (simp add: live_dir_def live_node_def tmpfs_isdir_def NI_def s4)
      obtain q1 s5 where ad: "tmpfs_add_node e d leaf k s4 = (q1, s5)" by (metis surj_pair)
      have "case q1 of Inr i \<Rightarrow> tmpfs_ok s5 hs
          | Inl err \<Rightarrow> tmpfs_ok (tmpfs_put_inode k (set_inode k ((inodes s5 ! k)\<lparr>n_nlink := 0\<rparr>) s5)) hs"
        using name_inode_ok [OF f(1) k0(1,2) _ _ f(2) d4 d(2) _ ad] n4 dk True find_child_cong [OF s4(1)]
        by (auto simp: Let_def split: sum.splits)
      then show ?thesis
        using assms(2) False l Inr dl True al k ad by (auto simp: tmpfs_symlink_def tmpfs_kalloc_def s4_def [symmetric] Let_def split: sum.splits)
    next
      case f: False
      have "s3 = ?s2" if "ko = None"
        using al that by (auto simp: tmpfs_alloc_inode_def Let_def tmpfs_now_def split: option.splits)
      then show ?thesis
        using assms False l Inr dl f al by (auto simp: tmpfs_symlink_def tmpfs_kalloc_def Let_def split: if_splits option.splits)
    qed
  qed (use assms l False in \<open>auto simp: tmpfs_symlink_def\<close>)
qed (use assms in \<open>auto simp: tmpfs_symlink_def split: if_splits\<close>)

lemma count_link_ok:
  assumes "tmpfs_inv ((\<lambda>_. 0)(k := - 1)) {} s hs" and "0 < k" and "k < TMPFS_MAX_NODES" and "n_used (inodes s ! k)"
  shows "tmpfs_ok (set_inode k ((inodes s ! k)\<lparr>n_nlink := n_nlink (inodes s ! k) + 1\<rparr>) s) hs"
proof (rule inode_change [OF assms(1,3), where n' = "(inodes s ! k)\<lparr>n_nlink := n_nlink (inodes s ! k) + 1\<rparr>"])
  let ?n = "(inodes s ! k)\<lparr>n_nlink := n_nlink (inodes s ! k) + 1\<rparr>"
  note inv = tmpfs_inv_simps [OF assms(1)] and io = inv_inode [OF assms(1,3)]
  have "data_ok ?n" "kind_ok ?n" using io assms(4) by (simp_all add: inode_ok_def Let_def data_ok_def kind_ok_def)
  moreover have "inodes (set_inode k ?n s) ! k = ?n" using assms(3) inv(4) by (simp add: set_inode_def)
  ultimately show "inode_ok (\<lambda>_. 0) {} (set_inode k ?n s) hs k"
    using io assms(2,4) by (auto simp: inode_ok_def Let_def)
  show "thandle_ok (set_inode k ?n s) h" if "h \<in> set hs" for h
    using inv_handle [OF assms(1) that] assms(3) inv(4) by (auto simp: thandle_ok_def set_inode_def nth_list_update)
qed (use tmpfs_inv_simps(1) [OF assms(1)] assms(4) in \<open>auto simp: set_inode_def\<close>)

lemma add_node_full: "tmpfs_add_node e d leaf k s = (Inl err, s1) \<Longrightarrow> s1 = s"
  by (auto simp: tmpfs_add_node_def Let_def split: option.splits)

lemma link_ok:
  assumes "tmpfs_ok s hs" and "tmpfs_link e old new s = (r, s')"
  shows "tmpfs_ok s' hs"
proof -
  note inv = tmpfs_inv_simps [OF assms(1)]
  obtain q where l: "tmpfs_lookup_any e old s = (q, s)" and q: "\<And>i. q = Inr i \<Longrightarrow> live_node s i"
    using any_lookup [OF assms(1)] by metis
  obtain q' where l': "tmpfs_parent e new s = (q', s)" and q': "\<And>d leaf. q' = Inr (d, leaf) \<Longrightarrow> live_dir s d \<and> name_ok leaf"
    using parent_lookup [OF assms(1)] by metis
  show ?thesis
  proof (cases "\<exists>src d leaf i s3. q = Inr src \<and> \<not> tmpfs_isdir s src \<and> q' = Inr (d, leaf) \<and> tmpfs_find_child s d leaf = None \<and>
      tmpfs_add_node e d leaf (tn_ino (nodes s ! src)) s = (Inr i, s3)")
    case True
    then obtain src d leaf i s3 where a: "q = Inr src" "\<not> tmpfs_isdir s src" "q' = Inr (d, leaf)" "tmpfs_find_child s d leaf = None"
      and ad: "tmpfs_add_node e d leaf (tn_ino (nodes s ! src)) s = (Inr i, s3)" by blast
    define k where "k = tn_ino (nodes s ! src)"
    have src: "live_node s src" "src \<noteq> 0" using q a inv(5) by (auto simp: live_dir_def intro: ccontr)
    have k: "0 < k" "k < TMPFS_MAX_NODES" "n_used (inodes s ! k)" "\<not> is_dir (inodes s ! k)"
      using nodeD [OF inv(2) src(1)] src(2) a(2) by (auto simp: k_def tmpfs_isdir_def NI_def)
    have dl: "live_dir s d" "name_ok leaf" using q' a(3) by auto
    note b = add_node_ok [OF assms(1) ad [folded k_def] dl a(4) k(1-3), simplified k(4)]
    have "src \<noteq> i" using b(4) src(1) by auto
    then have k3: "tn_ino (nodes s3 ! src) = k" by (simp add: b(5) k_def)
    have u3: "n_used (inodes s3 ! k)" using k(3) by (simp add: b(6) touched_used)
    let ?s4 = "set_inode k ((inodes s3 ! k)\<lparr>n_nlink := n_nlink (inodes s3 ! k) + 1\<rparr>) s3"
    have ok4: "tmpfs_ok ?s4 hs" using b(1) u3 k by (intro count_link_ok) auto
    have "s' = touch_c e k ?s4" using assms(2) l l' a ad k3 by (simp add: tmpfs_link_def Let_def)
    moreover have "n_used (inodes ?s4 ! k)" using u3 tmpfs_inv_simps(4) [OF b(1)] k(2) by (simp add: set_inode_def)
    ultimately show ?thesis using touch_ok(2) [OF ok4 k(2)] by simp
  next
    case False
    with assms l l' show ?thesis by (auto simp: tmpfs_link_def dest: add_node_full split: sum.splits prod.splits if_splits)
  qed
qed

text \<open>Without the entry that a rename replaces, the others are as they were.\<close>

lemma replaced_ok:
  assumes "tmpfs_ok s hs" and "tmpfs_find_child s d leaf = Some t" and "live_node s i" and "i \<noteq> t" and "live_dir s d"
    and "(i, d) \<notin> (links s)\<^sup>*" and "tmpfs_isdir s t \<Longrightarrow> \<not> tmpfs_has_children s t"
  shows "tmpfs_ok (tmpfs_drop_node e t s) hs" "live_node (tmpfs_drop_node e t s) i" "live_dir (tmpfs_drop_node e t s) d"
    "tmpfs_find_child (tmpfs_drop_node e t s) d leaf = None" "(i, d) \<notin> (links (tmpfs_drop_node e t s))\<^sup>*"
    "nodes (tmpfs_drop_node e t s) = (nodes s)[t := no_node]"
proof -
  let ?s = "tmpfs_drop_node e t s"
  note inv = tmpfs_inv_simps [OF assms(1)]
  have t: "live_node s t" "t \<noteq> 0" "tn_parent (nodes s ! t) = Some d" "tn_name (nodes s ! t) = leaf"
    using find_child_SomeD [OF assms(2)] by auto
  have kids: "tn_parent (nodes s ! j) \<noteq> Some t" if "live_node s j" for j
    using assms(7) parentD [OF inv(2) that, of t] has_children_iff [OF inv(2), of t] that by (auto simp: live_dir_def)
  note d = drop_node_ok [OF assms(1) t(1,2) kids]
  show ok: "tmpfs_ok ?s hs" and ns: "nodes ?s = (nodes s)[t := no_node]" using d(1,2) by auto
  have nth: "nodes ?s ! j = (if j = t then no_node else nodes s ! j)" for j
    using t(1) inv(3) by (simp add: ns live_node_def)
  have live: "live_node ?s j \<longleftrightarrow> live_node s j \<and> j \<noteq> t" for j by (auto simp: live_node_def nth no_node_def)
  show "live_node ?s i" using assms(3,4) by (simp add: live)
  have "d \<noteq> t" using kids [OF t(1)] t(3) by auto
  then have "live_node ?s d" using assms(5) by (simp add: live live_dir_def)
  moreover have "n_mode (NI ?s d) = n_mode (NI s d)"
    using nodeD(3) [OF tmpfs_inv_simps(2) [OF ok] \<open>live_node ?s d\<close>] d(3) \<open>d \<noteq> t\<close> by (simp add: NI_def nth)
  ultimately show "live_dir ?s d" using assms(5) by (simp add: live_dir_def tmpfs_isdir_def)
  show "tmpfs_find_child ?s d leaf = None"
    unfolding find_child_None [OF tmpfs_inv_simps(3) [OF ok]] live nth
    using names_unique [OF inv(2) t(1) _ t(3)] t(4) by metis
  have "links ?s \<subseteq> links s" by (auto simp: linksD live nth)
  then show "(i, d) \<notin> (links ?s)\<^sup>*" using assms(6) rtrancl_mono by blast
qed

text \<open>The entries after a move: the new name instead of the old one.\<close>

definition moved_to :: "nat \<Rightarrow> nat \<Rightarrow> string \<Rightarrow> tmpfs \<Rightarrow> tmpfs \<Rightarrow> bool" where
  "moved_to i d leaf s s' \<longleftrightarrow>
    (\<forall>p nm. tmpfs_find_child s' p nm =
      (if p = d \<and> nm = leaf then Some i else if tmpfs_find_child s p nm = Some i then None else tmpfs_find_child s p nm)) \<and>
    (\<forall>j. live_node s' j \<longrightarrow> live_node s j \<and> tn_ino (nodes s' ! j) = tn_ino (nodes s ! j))"

lemma moved_entries:
  assumes "ttree_ok s" and "ttree_ok s'" and "live_node s i"
    and nth: "\<And>j. nodes s' ! j = (if j = i then (nodes s ! i)\<lparr>tn_parent := Some d, tn_name := leaf\<rparr>
      else if tmpfs_find_child s d leaf = Some j then no_node else nodes s ! j)"
  shows "moved_to i d leaf s s'"
proof -
  have live: "live_node s' j \<longleftrightarrow> live_node s j \<and> (j = i \<or> tmpfs_find_child s d leaf \<noteq> Some j)" for j
    using assms(3) by (auto simp: live_node_def nth no_node_def)
  have "tmpfs_find_child s' p nm = Some x \<longleftrightarrow>
      (if p = d \<and> nm = leaf then Some i else if tmpfs_find_child s p nm = Some i then None else tmpfs_find_child s p nm) = Some x" for p nm x
  proof (cases "x = i")
    case True
    then show ?thesis using assms(3) by (auto simp: find_child_iff [OF assms(2)] live nth)
  next
    case False
    have "tmpfs_find_child s' p nm = Some x \<longleftrightarrow> tmpfs_find_child s p nm = Some x \<and> tmpfs_find_child s d leaf \<noteq> Some x"
      using False by (auto simp: find_child_iff [OF assms(2)] find_child_iff [OF assms(1)] live nth)
    also have "\<dots> \<longleftrightarrow> tmpfs_find_child s p nm = Some x \<and> \<not> (p = d \<and> nm = leaf)"
      using find_child_SomeD [of s p nm x] find_child_SomeD [of s d leaf x] by auto
    finally show ?thesis using False by auto
  qed
  then have "tmpfs_find_child s' p nm =
      (if p = d \<and> nm = leaf then Some i else if tmpfs_find_child s p nm = Some i then None else tmpfs_find_child s p nm)" for p nm
    by (metis not_Some_eq)
  moreover have "live_node s j \<and> tn_ino (nodes s' ! j) = tn_ino (nodes s ! j)" if "live_node s' j" for j
    using that by (auto simp: live nth)
  ultimately show ?thesis by (simp add: moved_to_def)
qed

lemma rename_spec:
  assumes "tmpfs_ok s hs"
  shows "\<exists>r s'. tmpfs_rename e old new s = Some (r, s') \<and> tmpfs_ok s' hs \<and>
    (case r of
       Inl err \<Rightarrow> s' = s
     | Inr _ \<Rightarrow> \<exists>i d leaf. tmpfs_lookup_any e old s = (Inr i, s) \<and> tmpfs_parent e new s = (Inr (d, leaf), s) \<and> i \<noteq> 0 \<and>
         (i, d) \<notin> (links s)\<^sup>* \<and>
         (moved_to i d leaf s s' \<or>
          s' = s \<and> (\<exists>t. tmpfs_find_child s d leaf = Some t \<and> tn_ino (nodes s ! t) = tn_ino (nodes s ! i))))"
proof -
  note inv = tmpfs_inv_simps [OF assms]
  obtain q where l: "tmpfs_lookup_any e old s = (q, s)" and q: "\<And>i. q = Inr i \<Longrightarrow> live_node s i"
    using any_lookup [OF assms] by metis
  obtain q' where l': "tmpfs_parent e new s = (q', s)" and q': "\<And>d leaf. q' = Inr (d, leaf) \<Longrightarrow> live_dir s d \<and> name_ok leaf"
    using parent_lookup [OF assms] by metis
  show ?thesis
  proof (cases "\<exists>i d leaf. q = Inr i \<and> i \<noteq> 0 \<and> q' = Inr (d, leaf)")
    case True
    then obtain i d leaf where i: "q = Inr i" "i \<noteq> 0" and dl: "q' = Inr (d, leaf)" by blast
    have live: "live_node s i" "live_dir s d" "name_ok leaf" using q q' i dl by auto
    then have op: "on_path s i d = Some ((i, d) \<in> (links s)\<^sup>*)"
      using nodeD(4) [OF inv(2)] by (intro on_path_spec [OF inv(2)]) (simp add: live_dir_def)
    have eq: "tmpfs_rename e old new s = (if (i, d) \<in> (links s)\<^sup>* then Some (Inl EINVAL, s)
      else case tmpfs_find_child s d leaf of
          None \<Rightarrow> map_option (Pair (Inr ())) (move_node e i d leaf s)
        | Some t \<Rightarrow>
            if t = i \<or> tn_ino (nodes s ! t) = tn_ino (nodes s ! i) then Some (Inr (), s)
            else if tmpfs_isdir s t \<noteq> tmpfs_isdir s i then Some (Inl (if tmpfs_isdir s t then EISDIR else ENOTDIR), s)
            else if tmpfs_isdir s t \<and> tmpfs_has_children s t then Some (Inl ENOTEMPTY, s)
            else map_option (Pair (Inr ())) (move_node e i d leaf (tmpfs_drop_node e t s)))"
      using i by (simp add: tmpfs_rename_def l l' dl op split: option.splits)
    show ?thesis
    proof (cases "(i, d) \<in> (links s)\<^sup>*")
      case np: False
      show ?thesis
      proof (cases "tmpfs_find_child s d leaf")
        case None
        obtain s' where mv: "move_node e i d leaf s = Some s'" "tmpfs_ok s' hs"
            "nodes s' = (nodes s)[i := (nodes s ! i)\<lparr>tn_parent := Some d, tn_name := leaf\<rparr>]"
          using move_node_ok [OF assms live(1) i(2) live(2,3) None np, of e] by blast
        have "moved_to i d leaf s s'"
          using live(1) inv(3) None by (intro moved_entries [OF inv(2) tmpfs_inv_simps(2) [OF mv(2)] live(1)]) (simp add: mv(3) live_node_def)
        then show ?thesis using mv(1,2) np None i l l' dl by (simp add: eq)
      next
        case (Some t)
        show ?thesis
        proof (cases "t = i \<or> tn_ino (nodes s ! t) = tn_ino (nodes s ! i) \<or> tmpfs_isdir s t \<noteq> tmpfs_isdir s i \<or>
            tmpfs_isdir s t \<and> tmpfs_has_children s t")
          case True
          then show ?thesis using assms np Some i l l' dl by (auto simp: eq)
        next
          case False
          note rp = replaced_ok [OF assms Some live(1) _ live(2) np, of e]
          obtain s' where mv: "move_node e i d leaf (tmpfs_drop_node e t s) = Some s'" "tmpfs_ok s' hs"
              "nodes s' = (nodes (tmpfs_drop_node e t s))[i := (nodes (tmpfs_drop_node e t s) ! i)\<lparr>tn_parent := Some d, tn_name := leaf\<rparr>]"
            using move_node_ok [OF rp(1,2) i(2) rp(3) live(3) rp(4,5), of e] False by auto
          have tl: "t < length (nodes s)" "i < length (nodes s)" using find_child_SomeD [OF Some] live(1) inv(3) by (auto simp: live_node_def)
          have "moved_to i d leaf s s'"
            using Some False tl rp(6)
            by (intro moved_entries [OF inv(2) tmpfs_inv_simps(2) [OF mv(2)] live(1)]) (auto simp: mv(3) nth_list_update)
          then show ?thesis using assms mv(1,2) np Some False i l l' dl by (simp add: eq)
        qed
      qed
    qed (use assms i in \<open>simp add: eq\<close>)
  next
    case False
    then show ?thesis using assms l l' by (auto simp: tmpfs_rename_def split: sum.splits)
  qed
qed

section \<open>Runs of the file system\<close>

text \<open>The static tables before the first mount.\<close>

definition tmpfs_boot :: tmpfs where
  "tmpfs_boot = \<lparr>tmpfs_limit_bytes = 0, tmpfs_used_bytes = 0, requests = 0, nodes = replicate TMPFS_MAX_NODES no_node,
     inodes = replicate TMPFS_MAX_NODES no_inode, tmpfs_ready = False\<rparr>"

inductive tmpfs_step :: "tmpfs \<times> thandle list \<Rightarrow> tmpfs \<times> thandle list \<Rightarrow> bool" where
  step_open: "tmpfs_open e rel flags s = (h, s') \<Longrightarrow> tmpfs_step (s, hs) (s', hs @ (case h of None \<Rightarrow> [] | Some h1 \<Rightarrow> [h1]))"
| step_close: "tmpfs_step (s, xs @ h # ys) (tmpfs_close (Some h) s, xs @ ys)"
| step_read: "tmpfs_read (Some h) sz s = (r, out, Some h1) \<Longrightarrow> tmpfs_step (s, xs @ h # ys) (s, xs @ h1 # ys)"
| step_write: "tmpfs_write e (Some h) buffer s = (r, Some h1, s') \<Longrightarrow> tmpfs_step (s, xs @ h # ys) (s', xs @ h1 # ys)"
| step_seek: "tmpfs_seek (Some h) offset whence s = (r, Some h1) \<Longrightarrow> tmpfs_step (s, xs @ h # ys) (s, xs @ h1 # ys)"
| step_ftruncate: "tmpfs_ftruncate e (Some h) len s = (u, s') \<Longrightarrow> tmpfs_step (s, xs @ h # ys) (s', xs @ h # ys)"
| step_truncate: "tmpfs_truncate e rel len s = (u, s') \<Longrightarrow> tmpfs_step (s, hs) (s', hs)"
| step_create: "tmpfs_create e rel s = (u, s') \<Longrightarrow> tmpfs_step (s, hs) (s', hs)"
| step_mkdir: "tmpfs_mkdir e rel s = (u, s') \<Longrightarrow> tmpfs_step (s, hs) (s', hs)"
| step_rmdir: "tmpfs_rmdir e rel s = (u, s') \<Longrightarrow> tmpfs_step (s, hs) (s', hs)"
| step_unlink: "tmpfs_unlink e rel s = (u, s') \<Longrightarrow> unlink_safe e rel s \<Longrightarrow> tmpfs_step (s, hs) (s', hs)"
| step_rename: "tmpfs_rename e old new s = Some (u, s') \<Longrightarrow> tmpfs_step (s, hs) (s', hs)"
| step_symlink: "tmpfs_symlink e rel target s = (u, s') \<Longrightarrow> tmpfs_step (s, hs) (s', hs)"
| step_link: "tmpfs_link e old new s = (u, s') \<Longrightarrow> tmpfs_step (s, hs) (s', hs)"
| step_setattr: "tmpfs_setattr e rel what mode uid gid s = (u, s') \<Longrightarrow> tmpfs_step (s, hs) (s', hs)"
| step_exists: "tmpfs_exists e rel s = (b, s') \<Longrightarrow> tmpfs_step (s, hs) (s', hs)"
| step_readdir: "tmpfs_readdir e rel m s = (ds, s') \<Longrightarrow> tmpfs_step (s, hs) (s', hs)"
| step_stat: "tmpfs_stat e rel s = (st, s') \<Longrightarrow> tmpfs_step (s, hs) (s', hs)"
| step_readlink: "tmpfs_readlink e rel cap s = (l, s') \<Longrightarrow> tmpfs_step (s, hs) (s', hs)"
| step_mount: "tmpfs_mount_tmp e optical m s = (u, s') \<Longrightarrow> tmpfs_step (s, hs) (s', hs)"

lemma init_root_ok:
  assumes "tmpfs_used_bytes s = 0"
  shows "tmpfs_ok (tmpfs_init_root s) []" "live_node (tmpfs_init_root s) j \<longleftrightarrow> j = 0"
proof -
  let ?s = "tmpfs_init_root s"
  let ?n = "no_inode\<lparr>n_used := True, n_mode := T_IFDIR OR 0x3FF, n_nlink := 1\<rparr>"
  have nth: "j < TMPFS_MAX_NODES \<Longrightarrow> nodes ?s ! j = (if j = 0 then \<lparr>tn_used = True, tn_parent = None, tn_ino = 0, tn_name = []\<rparr> else no_node)"
    "j < TMPFS_MAX_NODES \<Longrightarrow> inodes ?s ! j = (if j = 0 then ?n else no_inode)" for j
    by (simp_all add: tmpfs_init_root_def nth_list_update)
  show live: "live_node ?s j \<longleftrightarrow> j = 0" for j by (auto simp: live_node_def nth no_node_def split: if_splits)
  have dir: "live_dir ?s 0" by (simp add: live_dir_def live tmpfs_isdir_def NI_def nth)
  have "(T_IFDIR OR 0x3FF) AND T_IFMT = T_IFDIR" by simp
  then have "kind_ok ?n" "data_ok ?n" by (simp_all add: kind_ok_def data_ok_def no_inode_def chunks_ok_def)
  moreover have nb: "named_by ?s 0 = {0}" by (auto simp: named_by_def live nth)
  ultimately have "inode_ok (\<lambda>_. 0) {} ?s [] k" if "k < TMPFS_MAX_NODES" for k
    using that by (simp add: inode_ok_def Let_def nth no_inode_def)
  moreover have "ttree_ok ?s"
    using dir by (auto simp: ttree_ok_def live tnode_ok_def nth NI_def) (simp_all add: tmpfs_init_root_def)
  moreover have "chunks_in_use (inodes ?s) = 0"
  proof -
    have "chunk_count (n_chunks n) = 0" if "n \<in> set (inodes ?s)" for n
      using that by (auto simp: in_set_conv_nth nth tmpfs_init_root_def no_inode_def nth_list_update split: if_splits)
    then show ?thesis by (simp add: chunks_in_use_def)
  qed
  ultimately show "tmpfs_ok ?s []" using assms by (simp add: tmpfs_inv_def tmpfs_init_root_def)
qed

lemma queries_ok:
  assumes "tmpfs_ok s hs"
  shows "tmpfs_exists e rel s = (b, s') \<Longrightarrow> s' = s" "tmpfs_readdir e rel m s = (ds, s') \<Longrightarrow> s' = s"
    "tmpfs_stat e rel s = (st, s') \<Longrightarrow> s' = s" "tmpfs_readlink e rel cap s = (l, s') \<Longrightarrow> s' = s"
proof -
  obtain q where l: "tmpfs_lookup_any e rel s = (q, s)" using any_lookup [OF assms] by metis
  obtain q' where l': "tmpfs_lookup e rel False False True s = (q', s)" using plain_lookup [OF assms] by metis
  show "tmpfs_exists e rel s = (b, s') \<Longrightarrow> s' = s" "tmpfs_readdir e rel m s = (ds, s') \<Longrightarrow> s' = s"
    "tmpfs_stat e rel s = (st, s') \<Longrightarrow> s' = s" "tmpfs_readlink e rel cap s = (l, s') \<Longrightarrow> s' = s"
    using l l' by (auto simp: tmpfs_exists_def tmpfs_readdir_def tmpfs_stat_def tmpfs_readlink_def Let_def
        split: sum.splits if_splits option.splits)
qed

lemma mount_ok: "tmpfs_ok s hs \<Longrightarrow> tmpfs_mount_tmp e optical m s = (u, s') \<Longrightarrow> tmpfs_ok s' hs"
  by (auto simp: tmpfs_mount_tmp_def tmpfs_size_from_ram_def Let_def tmpfs_inv_simps(1) split: if_splits)

lemma tmpfs_step_ok:
  assumes "tmpfs_step c c'"
  shows "tmpfs_ok (fst c) (snd c) \<Longrightarrow> tmpfs_ok (fst c') (snd c')"
  using assms
proof (induction rule: tmpfs_step.induct)
  case (step_read h sz s r out h1 xs ys)
  then have ok: "tmpfs_ok s (xs @ h # ys)" by simp
  have "h_ino h1 = h_ino h" "h_pos h1 < 2 ^ 32" using read_ok [OF ok step_read.hyps] by auto
  then show ?case using handle_update_ok [OF ok] by simp
next
  case (step_write e h buffer s r h1 s' xs ys)
  then show ?case
    using write_ok [of s xs h ys e buffer r "Some h1" s'] write_refused [of s xs h ys e buffer]
    by (cases "h_flags h AND VFS_O_WRITE = 0") auto
next
  case (step_rename e old new s u s' hs)
  then show ?case using rename_spec [of s hs e old new] by auto
next
  case (step_open e rel flags s h s' hs)
  then show ?case using open_ok [of s hs e rel flags h s'] by simp
next
  case (step_close s xs h ys)
  then show ?case using close_ok(1) [of s xs h ys] by simp
next
  case (step_seek h offset whence s r h1 xs ys)
  then show ?case using seek_ok [of s xs h ys offset whence r "Some h1"] by simp
next
  case (step_ftruncate e h len s u s' xs ys)
  then show ?case using ftruncate_ok [of s xs h ys e len u s'] by simp
next
  case (step_truncate e rel len s u s' hs)
  then show ?case using truncate_ok [of s hs e rel len u s'] by simp
next
  case (step_create e rel s u s' hs)
  then show ?case using create_ok(1) [of s hs e rel u s'] by simp
next
  case (step_mkdir e rel s u s' hs)
  then show ?case using mkdir_ok(1) [of s hs e rel u s'] by simp
next
  case (step_rmdir e rel s u s' hs)
  then show ?case using rmdir_ok [of s hs e rel u s'] by simp
next
  case (step_unlink e rel s u s' hs)
  then show ?case using unlink_ok [of s hs e rel u s'] by simp
next
  case (step_symlink e rel target s u s' hs)
  then show ?case using symlink_ok [of s hs e rel target u s'] by simp
next
  case (step_link e old new s u s' hs)
  then show ?case using link_ok [of s hs e old new u s'] by simp
next
  case (step_setattr e rel what mode uid gid s u s' hs)
  then show ?case using setattr_ok [of s hs e rel what mode uid gid u s'] by simp
next
  case (step_exists e rel s b s' hs)
  then show ?case using queries_ok(1) [of s hs e rel b s'] by simp
next
  case (step_readdir e rel m s ds s' hs)
  then show ?case using queries_ok(2) [of s hs e rel m ds s'] by simp
next
  case (step_stat e rel s st s' hs)
  then show ?case using queries_ok(3) [of s hs e rel st s'] by simp
next
  case (step_readlink e rel cap s l s' hs)
  then show ?case using queries_ok(4) [of s hs e rel cap l s'] by simp
next
  case (step_mount e optical m s u s' hs)
  then show ?case using mount_ok [of s hs e optical m u s'] by simp
qed

lemma boot_ok: "tmpfs_ok (snd (tmpfs_mount_tmp e True m tmpfs_boot)) []"
proof -
  have "tmpfs_ok (tmpfs_init_root tmpfs_boot) []" by (rule init_root_ok) (simp add: tmpfs_boot_def)
  then show ?thesis
    by (simp add: tmpfs_mount_tmp_def tmpfs_size_from_ram_def Let_def) (simp add: tmpfs_boot_def)
qed

text \<open>
  C7. Whatever operations run after the mount, with whatever arguments and whatever the heap grants, the file system stays
  well-formed: the entries are a tree of directories below the root with unique names, an inode's link count is the number of
  its entries and its open count the number of handles, directories have one name and no data, links have their target,
  every handle is on a regular file that is still there (also when its last name is gone), nothing lies behind the end of a
  file, and the booked space is that of the chunks. The one condition is that \<^verbatim>\<open>unlink\<close> is not used on a directory with entries.
\<close>

theorem tmpfs_invariant:
  assumes "tmpfs_step\<^sup>*\<^sup>* (snd (tmpfs_mount_tmp e True m tmpfs_boot), []) (s, hs)"
  shows "tmpfs_ok s hs"
proof -
  have "tmpfs_ok (fst c) (snd c)" if "tmpfs_step\<^sup>*\<^sup>* (snd (tmpfs_mount_tmp e True m tmpfs_boot), []) c" for c
    using that by (induction rule: rtranclp_induct) (use boot_ok tmpfs_step_ok in auto)
  from this [OF assms] show ?thesis by simp
qed

definition tmp_env :: tenv where
  "tmp_env = \<lparr>e_kalloc = (\<lambda>_ _. True), e_pages = (\<lambda>_. 1000000), e_clock = (\<lambda>n. int n)\<rparr>"

definition tmp_new :: tmpfs where
  "tmp_new = snd (tmpfs_mount_tmp tmp_env True None tmpfs_boot)"

theorem tmpfs_invariant_witness:
  "\<exists>s. tmpfs_step\<^sup>*\<^sup>* (snd (tmpfs_mount_tmp tmp_env True None tmpfs_boot), []) (s, []) \<and>
     tmpfs_mkdir tmp_env (Some ''d'') tmp_new = (fst (tmpfs_mkdir tmp_env (Some ''d'') tmp_new), s) \<and> tmpfs_ok s []"
proof -
  let ?s = "snd (tmpfs_mkdir tmp_env (Some ''d'') tmp_new)"
  have "tmpfs_step (tmp_new, []) (?s, [])" by (rule step_mkdir) (rule prod.collapse [symmetric])
  then have "tmpfs_step\<^sup>*\<^sup>* (snd (tmpfs_mount_tmp tmp_env True None tmpfs_boot), []) (?s, [])"
    unfolding tmp_new_def by (rule r_into_rtranclp)
  with tmpfs_invariant [OF this] show ?thesis by auto
qed

text \<open>The limit leaves room for every chunk of the file up to the end of the write.\<close>

definition write_fits :: "thandle \<Rightarrow> u8 list \<Rightarrow> tmpfs \<Rightarrow> bool" where
  "write_fits h buffer s \<longleftrightarrow>
    write_pos h s + length buffer < 2 ^ 32 \<and>
    tmpfs_used_bytes s + TMPFS_CHUNK * ((write_pos h s + length buffer + TMPFS_CHUNK - 1) div TMPFS_CHUNK) \<le> tmpfs_limit_bytes s"

lemma handle_inode:
  assumes "tmpfs_ok s (xs @ h # ys)"
  shows "h_ino h < TMPFS_MAX_NODES" "n_used (inodes s ! h_ino h)" "n_mode (inodes s ! h_ino h) AND T_IFMT = T_IFREG"
  using inv_handle [OF assms, of h] by (auto simp: thandle_ok_def)

lemma read_contents:
  assumes "tmpfs_ok s (xs @ h # ys)"
  shows "tmpfs_read (Some h) sz s =
      (let out = take sz (drop (h_pos h) (content (inodes s ! h_ino h)))
       in (c_int (length out), out, Some (h\<lparr>h_pos := h_pos h + length out\<rparr>)))"
proof -
  obtain q out h0 where rd: "tmpfs_read (Some h) sz s = (q, out, h0)" by (metis prod_cases3)
  show ?thesis using read_ok [OF assms rd] rd by (auto simp: Let_def)
qed

lemma write_contents:
  assumes "tmpfs_ok s (xs @ h # ys)" and "h_flags h AND VFS_O_WRITE \<noteq> 0"
  shows "case tmpfs_write e (Some h) buffer s of (r, h', s') \<Rightarrow>
      (\<forall>j. j \<noteq> h_ino h \<longrightarrow> inodes s' ! j = inodes s ! j) \<and>
      (r = - errno_code ENOSPC \<and> buffer \<noteq> [] \<and> content (inodes s' ! h_ino h) = content (inodes s ! h_ino h) \<and>
         \<not> (grants e \<and> write_fits h buffer s) \<or>
       (\<exists>d \<le> length buffer. r = c_int d \<and> map_option h_pos h' = Some (write_pos h s + d) \<and> (d = 0 \<longleftrightarrow> buffer = []) \<and>
         (grants e \<and> write_fits h buffer s \<longrightarrow> d = length buffer) \<and>
         (buffer \<noteq> [] \<longrightarrow>
           content (inodes s' ! h_ino h) = file_write (content (inodes s ! h_ino h)) (write_pos h s) (take d buffer) \<and>
           read_inode (inodes s' ! h_ino h) (write_pos h s) d = take d buffer)))"
proof -
  obtain r h' s' where wr: "tmpfs_write e (Some h) buffer s = (r, h', s')" by (metis prod_cases3)
  let ?w = "write_inode e (write_pos h s) buffer (inodes s ! h_ino h) s"
  note reg = regular_inode [OF assms(1) handle_inode [OF assms(1)]]
  have full: "fst ?w = Inr (length buffer)" if "grants e" "write_fits h buffer s"
    using write_inode_full [OF that(1), of "write_pos h s" buffer s] that(2) by (simp add: write_fits_def)
  have reread: "read_inode (inodes s' ! h_ino h) (write_pos h s) d = take d buffer"
    if "?w = (Inr d, inodes s' ! h_ino h, s1)" "d \<le> length buffer" "d \<noteq> 0" for d s1
    using inode.get_put [of "(inodes s ! h_ino h, s)" "write_pos h s" "take d buffer" "(inodes s' ! h_ino h, s1)"] that reg
    by (auto simp: min_absorb2)
  obtain h1 where w: "h' = Some h1" "\<forall>j. j \<noteq> h_ino h \<longrightarrow> inodes s' ! j = inodes s ! j"
    and c: "r = - errno_code ENOSPC \<and> buffer \<noteq> [] \<and> content (inodes s' ! h_ino h) = content (inodes s ! h_ino h) \<and> fst ?w = Inl ENOSPC \<or>
      (\<exists>d \<le> length buffer. (\<exists>s1. ?w = (Inr d, inodes s' ! h_ino h, s1)) \<and> r = c_int d \<and> h_pos h1 = write_pos h s + d \<and> (d = 0 \<longleftrightarrow> buffer = []) \<and>
        content (inodes s' ! h_ino h) = (if buffer = [] then content (inodes s ! h_ino h) else file_write (content (inodes s ! h_ino h)) (write_pos h s) (take d buffer)))"
    using write_ok [OF assms(1) wr assms(2)] by blast
  from c show ?thesis
  proof
    assume "r = - errno_code ENOSPC \<and> buffer \<noteq> [] \<and> content (inodes s' ! h_ino h) = content (inodes s ! h_ino h) \<and> fst ?w = Inl ENOSPC"
    then show ?thesis using w full by (auto simp: wr)
  next
    assume "\<exists>d \<le> length buffer. (\<exists>s1. ?w = (Inr d, inodes s' ! h_ino h, s1)) \<and> r = c_int d \<and> h_pos h1 = write_pos h s + d \<and> (d = 0 \<longleftrightarrow> buffer = []) \<and>
        content (inodes s' ! h_ino h) = (if buffer = [] then content (inodes s ! h_ino h) else file_write (content (inodes s ! h_ino h)) (write_pos h s) (take d buffer))"
    then obtain d s1 where d: "d \<le> length buffer" "?w = (Inr d, inodes s' ! h_ino h, s1)" "r = c_int d" "h_pos h1 = write_pos h s + d" "d = 0 \<longleftrightarrow> buffer = []"
      "content (inodes s' ! h_ino h) = (if buffer = [] then content (inodes s ! h_ino h) else file_write (content (inodes s ! h_ino h)) (write_pos h s) (take d buffer))"
      by blast
    have "grants e \<and> write_fits h buffer s \<longrightarrow> d = length buffer" using full d(2) by auto
    then show ?thesis using w d reread [OF d(2,1)] unfolding wr prod.case by (intro conjI disjI2 exI [of _ d]) auto
  qed
qed

lemma ftruncate_contents:
  assumes "tmpfs_ok s (xs @ h # ys)" and "len + TMPFS_CHUNK \<le> 2 ^ 32"
  shows "case tmpfs_ftruncate e (Some h) len s of (r, s') \<Rightarrow>
      (\<forall>j. j \<noteq> h_ino h \<longrightarrow> inodes s' ! j = inodes s ! j) \<and>
      content (inodes s' ! h_ino h) =
        (case r of Inl _ \<Rightarrow> content (inodes s ! h_ino h) | Inr _ \<Rightarrow> file_resize (content (inodes s ! h_ino h)) len)"
proof -
  obtain q n1 s1 where sl: "tmpfs_set_len e len (inodes s ! h_ino h) s = (q, n1, s1)" by (metis prod_cases3)
  note st = set_len_ok [OF assms(1) handle_inode [OF assms(1)] sl]
  have "tmpfs_ftruncate e (Some h) len s = (q, set_inode (h_ino h) n1 s1)"
    by (simp add: tmpfs_ftruncate_def hin_eq [OF assms(1)] sl)
  with st assms(2) show ?thesis by (auto split: sum.splits)
qed

text \<open>
  C4. A file behaves as a sequence of bytes. Reading through a handle returns the bytes at its position, as many as there are,
  and moves it behind them; writing puts a prefix of the buffer, all of it or what there is room for and never nothing, at the
  position (at the end for a handle that appends), fills a gap with zeros and moves the handle, or fails and changes no byte; a
  new length cuts the file or extends it with zeros. No other file changes, and what was written is what a read at that
  position returns, through any handle.
\<close>

theorem tmpfs_file_contents:
  assumes "tmpfs_ok s (xs @ h # ys)"
  shows "tmpfs_read (Some h) sz s =
      (let out = take sz (drop (h_pos h) (content (inodes s ! h_ino h)))
       in (c_int (length out), out, Some (h\<lparr>h_pos := h_pos h + length out\<rparr>))) \<and>
    (h_flags h AND VFS_O_WRITE \<noteq> 0 \<longrightarrow>
      (case tmpfs_write e (Some h) buffer s of (r, h', s') \<Rightarrow>
        (\<forall>j. j \<noteq> h_ino h \<longrightarrow> inodes s' ! j = inodes s ! j) \<and>
        (r = - errno_code ENOSPC \<and> buffer \<noteq> [] \<and> content (inodes s' ! h_ino h) = content (inodes s ! h_ino h) \<and>
           \<not> (grants e \<and> write_fits h buffer s) \<or>
         (\<exists>d \<le> length buffer. r = c_int d \<and> map_option h_pos h' = Some (write_pos h s + d) \<and> (d = 0 \<longleftrightarrow> buffer = []) \<and>
           (grants e \<and> write_fits h buffer s \<longrightarrow> d = length buffer) \<and>
           (buffer \<noteq> [] \<longrightarrow>
             content (inodes s' ! h_ino h) = file_write (content (inodes s ! h_ino h)) (write_pos h s) (take d buffer) \<and>
             read_inode (inodes s' ! h_ino h) (write_pos h s) d = take d buffer))))) \<and>
    (len + TMPFS_CHUNK \<le> 2 ^ 32 \<longrightarrow>
      (case tmpfs_ftruncate e (Some h) len s of (r, s') \<Rightarrow>
        (\<forall>j. j \<noteq> h_ino h \<longrightarrow> inodes s' ! j = inodes s ! j) \<and>
        content (inodes s' ! h_ino h) =
          (case r of Inl _ \<Rightarrow> content (inodes s ! h_ino h) | Inr _ \<Rightarrow> file_resize (content (inodes s ! h_ino h)) len)))"
  by (intro conjI impI read_contents [OF assms] write_contents [OF assms] ftruncate_contents [OF assms])

text \<open>While not every node is in use and no nameless file is open, there is a free node and a free inode.\<close>

lemma make_entry_free:
  assumes "tmpfs_ok s []" and "card {i. live_node s i} < TMPFS_MAX_NODES"
  shows "\<exists>i s'. make_entry e mode p nm s = (Inr i, s') \<and> {j. live_node s' j} \<subseteq> insert i {j. live_node s j}"
proof -
  note inv = tmpfs_inv_simps [OF assms(1)]
  let ?L = "{i. live_node s i}" and ?U = "{k. k < TMPFS_MAX_NODES \<and> n_used (inodes s ! k)}"
  have fin: "finite ?L" by (rule finite_subset [of _ "{..<TMPFS_MAX_NODES}"]) (auto simp: live_node_def)
  have z: "0 \<in> ?L" "tn_ino (nodes s ! 0) = 0" using inv(2) by (auto simp: ttree_ok_def live_dir_def)
  have "?U \<subseteq> (\<lambda>i. tn_ino (nodes s ! i)) ` ?L"
  proof
    fix k assume k: "k \<in> ?U"
    show "k \<in> (\<lambda>i. tn_ino (nodes s ! i)) ` ?L"
    proof (cases "k = 0")
      case True
      then show ?thesis using z by (intro image_eqI [of _ _ 0]) auto
    next
      case False
      have "inode_ok (\<lambda>_. 0) {} s [] k" using inv_inode [OF assms(1)] k by simp
      with k False have "named_by s k \<noteq> {}" by (auto simp: inode_ok_def Let_def)
      then show ?thesis by (auto simp: named_by_def)
    qed
  qed
  then have "card ?U \<le> card ?L" using fin by (meson card_image_le card_mono finite_imageI le_trans)
  then have "\<not> {..<TMPFS_MAX_NODES} \<subseteq> ?U" using assms(2) card_mono [of ?U "{..<TMPFS_MAX_NODES}"] by fastforce
  then obtain b where b: "b < TMPFS_MAX_NODES" "\<not> n_used (inodes s ! b)" by auto
  then have b0: "1 \<le> b" using nodeD(3) [OF inv(2), of 0] z by (cases b) auto
  have "\<not> {..<TMPFS_MAX_NODES} \<subseteq> ?L" using assms(2) card_mono [OF fin, of "{..<TMPFS_MAX_NODES}"] by fastforce
  then obtain a where a: "a < TMPFS_MAX_NODES" "\<not> live_node s a" by auto
  then have a0: "1 \<le> a" using z by (cases a) auto
  have "scan (\<lambda>i. \<not> n_used (inodes s ! i)) 1 TMPFS_MAX_NODES \<noteq> None" using b b0 unfolding scan_None_iff by blast
  then obtain k s1 where k: "tmpfs_alloc_inode e mode s = (Some k, s1)"
    by (auto simp: tmpfs_alloc_inode_def tmpfs_now_def)
  have n1: "nodes s1 = nodes s" using alloc_inode_eq [OF k] by simp
  have "tmpfs_alloc_node s1 \<noteq> None" using a a0 unfolding tmpfs_alloc_node_def scan_None_iff n1 by (auto simp: live_node_def)
  then obtain i where i: "tmpfs_alloc_node s1 = Some i" by blast
  then obtain s2 where ad: "tmpfs_add_node e p nm k s1 = (Inr i, s2)" by (auto simp: tmpfs_add_node_def Let_def)
  then have "\<exists>d. nodes s2 = (nodes s)[i := d]" using i by (auto simp: tmpfs_add_node_def Let_def set_node_def n1)
  then have "{j. live_node s2 j} \<subseteq> insert i {j. live_node s j}"
    by (auto simp: live_node_def nth_list_update_neq)
  moreover have "make_entry e mode p nm s = (Inr i, s2)" by (simp add: make_entry_def k ad)
  ultimately show ?thesis by blast
qed

lemma new_ok: "tmpfs_ok tmp_new []" "live_node tmp_new j \<longleftrightarrow> j = 0"
proof -
  show "tmpfs_ok tmp_new []" unfolding tmp_new_def by (rule boot_ok)
  have "nodes tmp_new = nodes (tmpfs_init_root tmpfs_boot)"
    by (simp add: tmp_new_def tmpfs_mount_tmp_def tmpfs_size_from_ram_def Let_def) (simp add: tmpfs_boot_def)
  then have "live_node tmp_new j = live_node (tmpfs_init_root tmpfs_boot) j" by (simp add: live_node_def)
  then show "live_node tmp_new j \<longleftrightarrow> j = 0" using init_root_ok(2) [of tmpfs_boot j] by (simp add: tmpfs_boot_def)
qed

lemma new_missing: "tmpfs_find_child tmp_new p nm = None"
  using new_ok by (simp add: find_child_None [OF tmpfs_inv_simps(3) [OF new_ok(1)]])

text \<open>One name without a slash: the walk is the search of one directory.\<close>

lemma lookup_one:
  assumes "name_ok nm"
  shows "lookup_from e cd cf wd cur nm s =
    (case lookup_child e cd cf wd cur nm True s of
       (Leave r, s1) \<Rightarrow> (r, s1)
     | (Found child, s1) \<Rightarrow>
         if wd \<and> \<not> tmpfs_isdir s1 child then (Inl ENOTDIR, s1)
         else if \<not> wd \<and> tmpfs_isdir s1 child \<and> cf then (Inl EISDIR, s1)
         else (Inr child, s1))"
proof -
  have tw: "takeWhile (\<lambda>c. c \<noteq> slash) nm = nm" "dropWhile (\<lambda>c. c \<noteq> slash) nm = []"
    using assms by (auto simp: name_ok_def takeWhile_eq_all_conv)
  show ?thesis
    using assms unfolding lookup_from.simps [of e cd cf wd cur nm s] Let_def tw by (simp add: name_ok_def split: prod.splits lookup_step.splits)
qed

lemma lookup_name:
  assumes "tmpfs_ok s hs" and "name_ok nm"
  shows "tmpfs_lookup e (Some nm) cd cf wd s = lookup_from e cd cf wd 0 nm s"
proof -
  have "skip_slashes nm = nm" "nm \<noteq> []" using assms(2) by (cases nm; auto simp: name_ok_def)+
  then show ?thesis using tmpfs_inv_simps(1) [OF assms(1)] by (simp add: tmpfs_lookup_def Let_def del: dropWhile_eq_Nil_conv)
qed

lemma opened_new:
  "\<exists>s h. tmpfs_open tmp_env (Some ''f'') 6 tmp_new = (Some h, s) \<and> tmpfs_ok s [h] \<and> h_flags h = 6"
proof -
  have nm: "name_ok ''f''" by (simp add: name_ok_def TMPFS_MAX_NAME_def)
  have "{i. live_node tmp_new i} = {0}" by (auto simp: new_ok)
  then have "card {i. live_node tmp_new i} < TMPFS_MAX_NODES" by (simp add: TMPFS_MAX_NODES_def)
  from make_entry_free [OF new_ok(1) this, of tmp_env "T_IFREG OR 0x1A4" 0 "''f''"]
  obtain i s1 where me: "make_entry tmp_env (T_IFREG OR 0x1A4) 0 ''f'' tmp_new = (Inr i, s1)" by blast
  have m: "n_mode (NI s1 i) AND T_IFMT = T_IFREG"
    using make_entry_ok [OF new_ok(1) me tmpfs_inv_simps(5) [OF new_ok(1)] nm new_missing] by simp
  then have nd: "\<not> tmpfs_isdir s1 i" "\<not> tmpfs_islnk s1 i" by (simp_all add: tmpfs_isdir_def tmpfs_islnk_def)
  have l: "tmpfs_lookup tmp_env (Some ''f'') False False False tmp_new = (Inl ENOENT, tmp_new)"
    "tmpfs_lookup tmp_env (Some ''f'') True True False tmp_new = (Inr i, s1)"
    by (simp_all add: lookup_name [OF new_ok(1) nm] lookup_one [OF nm] lookup_child_def new_missing me [simplified])
  have kal: "e_kalloc tmp_env r m" for r m by (simp add: tmp_env_def)
  obtain h s where op: "tmpfs_open tmp_env (Some ''f'') 6 tmp_new = (Some h, s)" "h_flags h = 6"
    using nd kal by (simp add: tmpfs_open_def l Let_def tmpfs_kalloc_def)
  from open_ok [OF new_ok(1) op(1)] op show ?thesis by auto
qed

theorem tmpfs_file_contents_witness:
  "\<exists>s h. tmpfs_ok s ([] @ h # []) \<and> h_flags h AND VFS_O_WRITE \<noteq> 0 \<and>
     tmpfs_read (Some h) 10 s =
       (let out = take 10 (drop (h_pos h) (content (inodes s ! h_ino h)))
        in (c_int (length out), out, Some (h\<lparr>h_pos := h_pos h + length out\<rparr>)))"
proof -
  obtain s h where o: "tmpfs_ok s ([] @ h # [])" "h_flags h = 6" using opened_new by auto
  from tmpfs_file_contents [OF o(1), where sz = 10 and e = tmp_env and buffer = "[1, 2, 3]" and len = 2, THEN conjunct1]
  show ?thesis using o by (intro exI [of _ s] exI [of _ h] conjI) simp_all
qed

text \<open>
  C19. Creating a file or a directory under a path, with the directories on the way, makes an entry that a walk of the same path
  finds (as a directory after \<^verbatim>\<open>mkdir\<close>), and no entry that was there before is lost, hidden, or given another inode.
\<close>

theorem tmpfs_create_found:
  assumes "tmpfs_ok s hs"
  shows "(tmpfs_create e rel s = (Inr (), s') \<longrightarrow>
      (\<exists>i. tmpfs_lookup e' rel False False False s' = (Inr i, s') \<and> live_node s' i)) \<and>
    (tmpfs_mkdir e rel s = (Inr (), s') \<longrightarrow>
      (\<exists>i. tmpfs_lookup e' rel False False True s' = (Inr i, s') \<and> live_dir s' i)) \<and>
    (tmpfs_create e rel s = (r, s') \<or> tmpfs_mkdir e rel s = (r, s') \<longrightarrow>
      (\<forall>p nm j. tmpfs_find_child s p nm = Some j \<longrightarrow>
        tmpfs_find_child s' p nm = Some j \<and> tn_ino (nodes s' ! j) = tn_ino (nodes s ! j)))"
proof (intro conjI impI)
  show "\<exists>i. tmpfs_lookup e' rel False False False s' = (Inr i, s') \<and> live_node s' i" if c: "tmpfs_create e rel s = (Inr (), s')"
  proof -
    obtain q t where l: "tmpfs_lookup e rel True True False s = (q, t)" by (metis surj_pair)
    then obtain i where "q = Inr i" "t = s'" using c by (cases q) (auto simp: tmpfs_create_def)
    with lookup_ok(4) [OF assms l] show ?thesis by blast
  qed
  show "\<exists>i. tmpfs_lookup e' rel False False True s' = (Inr i, s') \<and> live_dir s' i" if c: "tmpfs_mkdir e rel s = (Inr (), s')"
  proof -
    obtain q t where l: "tmpfs_lookup e rel True False True s = (q, t)" by (metis surj_pair)
    then obtain i where "q = Inr i" "t = s'" using c by (cases q) (auto simp: tmpfs_mkdir_def)
    with lookup_ok(4) [OF assms l] show ?thesis by blast
  qed
  show "\<forall>p nm j. tmpfs_find_child s p nm = Some j \<longrightarrow>
      tmpfs_find_child s' p nm = Some j \<and> tn_ino (nodes s' ! j) = tn_ino (nodes s ! j)"
    if "tmpfs_create e rel s = (r, s') \<or> tmpfs_mkdir e rel s = (r, s')"
  proof -
    have "tmpfs_ok s' hs" "grows s s'" using that create_ok [OF assms] mkdir_ok [OF assms] by blast+
    then show ?thesis
      using grows_child tmpfs_inv_simps(2) [OF assms] tmpfs_inv_simps(2) find_child_SomeD
      by (metis (no_types, lifting) grows_def)
  qed
qed

theorem tmpfs_create_found_witness:
  "tmpfs_ok tmp_new [] \<and>
   (\<exists>s'. tmpfs_create tmp_env (Some ''d/f'') tmp_new = (fst (tmpfs_create tmp_env (Some ''d/f'') tmp_new), s') \<and>
     (\<forall>p nm j. tmpfs_find_child tmp_new p nm = Some j \<longrightarrow>
        tmpfs_find_child s' p nm = Some j \<and> tn_ino (nodes s' ! j) = tn_ino (nodes tmp_new ! j)))"
proof -
  let ?c = "tmpfs_create tmp_env (Some ''d/f'') tmp_new"
  have "?c = (fst ?c, snd ?c)" by simp
  with tmpfs_create_found [OF new_ok(1), where e = tmp_env and rel = "Some ''d/f''" and s' = "snd ?c" and r = "fst ?c" and e' = tmp_env]
  show ?thesis using new_ok(1) by blast
qed

text \<open>
  C20. Renaming always returns, also from its walk to the root, and keeps the file system well-formed. When it fails nothing has
  changed. When it succeeds, the target directory does not lie below the renamed entry, and either the new name already named
  the same inode and nothing has changed, or the new name names the renamed entry with the inode it had, the old name is gone, an
  entry that had the new name is replaced, and every other name is as before.
\<close>

theorem tmpfs_rename_moves:
  assumes "tmpfs_ok s hs"
  shows "\<exists>r s'. tmpfs_rename e old new s = Some (r, s') \<and> tmpfs_ok s' hs \<and>
    (case r of
       Inl err \<Rightarrow> s' = s
     | Inr _ \<Rightarrow> \<exists>i d leaf. tmpfs_lookup_any e old s = (Inr i, s) \<and> tmpfs_parent e new s = (Inr (d, leaf), s) \<and> i \<noteq> 0 \<and>
         (i, d) \<notin> (links s)\<^sup>* \<and>
         (moved_to i d leaf s s' \<or>
          s' = s \<and> (\<exists>t. tmpfs_find_child s d leaf = Some t \<and> tn_ino (nodes s ! t) = tn_ino (nodes s ! i))))"
  by (rule rename_spec [OF assms])

text \<open>A directory \<^verbatim>\<open>d\<close> with a file \<^verbatim>\<open>f\<close> in it.\<close>

lemma nested_new:
  "\<exists>s i j. tmpfs_ok s [] \<and> i \<noteq> 0 \<and> tmpfs_lookup tmp_env (Some ''d'') False False False s = (Inr i, s) \<and>
     live_node s j \<and> tn_parent (nodes s ! j) = Some i"
proof -
  let ?D = "T_IFDIR OR 0x1ED" and ?F = "T_IFREG OR 0x1A4"
  have nm: "name_ok ''d''" "name_ok ''f''" by (simp_all add: name_ok_def TMPFS_MAX_NAME_def)
  have "{i. live_node tmp_new i} = {0}" by (auto simp: new_ok)
  then have L: "{i. live_node tmp_new i} = {0}" "card {i. live_node tmp_new i} < TMPFS_MAX_NODES" by (simp_all add: TMPFS_MAX_NODES_def)
  from make_entry_free [OF new_ok(1) L(2), of tmp_env ?D 0 "''d''"]
  obtain i s1 where d: "make_entry tmp_env ?D 0 ''d'' tmp_new = (Inr i, s1)" "{j. live_node s1 j} \<subseteq> insert i {0}" using L(1) by auto
  have s1: "tmpfs_ok s1 []" "live_node s1 i" "tmpfs_find_child s1 0 ''d'' = Some i" "n_mode (NI s1 i) AND T_IFMT = T_IFDIR"
    using make_entry_ok [OF new_ok(1) d(1) tmpfs_inv_simps(5) [OF new_ok(1)] nm(1) new_missing] by simp_all
  have dir: "live_dir s1 i" using s1(2,4) by (simp add: live_dir_def tmpfs_isdir_def)
  note fd = find_child_SomeD [OF s1(3)]
  have none: "tmpfs_find_child s1 i ''f'' = None"
    using d(2) fd by (subst find_child_None [OF tmpfs_inv_simps(3) [OF s1(1)]]) auto
  have "card {j. live_node s1 j} \<le> card {i, 0}" using d(2) by (intro card_mono) auto
  then have "card {j. live_node s1 j} < TMPFS_MAX_NODES" using card_insert_le_m1 [of 2 "{0}" i] by (simp add: TMPFS_MAX_NODES_def card_insert_if split: if_splits)
  from make_entry_free [OF s1(1) this, of tmp_env ?F i "''f''"]
  obtain j s2 where f: "make_entry tmp_env ?F i ''f'' s1 = (Inr j, s2)" by blast
  have s2: "tmpfs_ok s2 []" "grows s1 s2" "live_node s2 j" "tmpfs_find_child s2 i ''f'' = Some j"
    using make_entry_ok [OF s1(1) f dir nm(2) none] by simp_all
  have "tmpfs_find_child s2 0 ''d'' = Some i"
    by (rule grows_child [OF s2(2) tmpfs_inv_simps(2) [OF s1(1)] tmpfs_inv_simps(2) [OF s2(1)] s1(3)])
  then have "tmpfs_lookup tmp_env (Some ''d'') False False False s2 = (Inr i, s2)"
    by (simp add: lookup_name [OF s2(1) nm(1)] lookup_one [OF nm(1)] lookup_child_def)
  with s2 show ?thesis using find_child_SomeD [OF s2(4)] fd by blast
qed

theorem tmpfs_rename_moves_witness:
  "\<exists>s. tmpfs_ok s [] \<and> (\<exists>i. i \<noteq> 0 \<and> tmpfs_lookup tmp_env (Some ''d'') False False False s = (Inr i, s)) \<and>
     (\<exists>r s'. tmpfs_rename tmp_env (Some ''d'') (Some ''e'') s = Some (r, s') \<and> tmpfs_ok s' [])"
  using nested_new tmpfs_rename_moves [where e = tmp_env and old = "Some ''d''" and new = "Some ''e''" and hs = "[]"] by blast

lemma drop_node_nodes: "nodes (tmpfs_drop_node e i s) = (nodes s)[i := no_node]"
  by (auto simp: tmpfs_drop_node_def Let_def set_node_def split: option.splits)

text \<open>
  C34. Removing a directory by \<^verbatim>\<open>unlink\<close> is not refused when the directory has entries, since a walk for a file also returns
  directories and the test for entries is only made when that walk fails: the directory is gone, its entries stay in use below
  a node that is free, no path from the root leads to them any more, and the file system is no longer well-formed.
\<close>

theorem tmpfs_unlink_orphans:
  assumes "tmpfs_ok s hs" and "tmpfs_lookup e rel False False False s = (Inr i, s)" and "i \<noteq> 0"
    and "live_node s j" and "tn_parent (nodes s ! j) = Some i"
  shows "\<exists>s'. tmpfs_unlink e rel s = (Inr (), s') \<and> \<not> live_node s' i \<and> live_node s' j \<and> tn_parent (nodes s' ! j) = Some i \<and>
    (0, j) \<notin> (links s')\<^sup>* \<and> \<not> tmpfs_ok s' hs"
proof -
  note inv = tmpfs_inv_simps [OF assms(1)]
  let ?s = "tmpfs_drop_node e i s"
  have i: "live_node s i" using lookup_ok(4) [OF assms(1,2)] by simp
  obtain p where p: "tn_parent (nodes s ! i) = Some p" using nodeD(7) [OF inv(2) i assms(3)] by blast
  have ij: "i \<noteq> j"
  proof
    assume "i = j"
    then have par: "tn_parent (nodes s ! i) = Some i" using assms(5) by simp
    have "(0, a) \<in> (links s)\<^sup>* \<Longrightarrow> a \<noteq> i" for a
    proof (induction rule: rtrancl_induct)
      case (step q a)
      then show ?case using par by (auto simp: linksD)
    qed (use assms(3) in simp)
    then show False using nodeD(4) [OF inv(2) i] by blast
  qed
  have nth: "nodes ?s ! x = (if x = i then no_node else nodes s ! x)" for x
    using i inv(3) by (simp add: drop_node_nodes live_node_def)
  have gone: "\<not> live_node ?s i" by (simp add: live_node_def nth no_node_def)
  have j: "live_node ?s j" "tn_parent (nodes ?s ! j) = Some i" using assms(4,5) ij by (simp_all add: live_node_def nth)
  have "(0, j) \<notin> (links ?s)\<^sup>*"
  proof
    assume "(0, j) \<in> (links ?s)\<^sup>*"
    then have "(0, i) \<in> (links ?s)\<^sup>*"
    proof (cases rule: rtranclE)
      case base
      then show ?thesis using parentD [OF inv(2) assms(4,5)] by simp
    next
      case (step q)
      then show ?thesis using j(2) by (simp add: linksD)
    qed
    then show False by (cases rule: rtranclE) (use assms(3) gone in \<open>auto simp: linksD\<close>)
  qed
  moreover from this j(1) have "\<not> tmpfs_ok ?s hs" using nodeD(4) tmpfs_inv_simps(2) by blast
  moreover have "tmpfs_unlink e rel s = (Inr (), ?s)" using assms(2,3) by (simp add: tmpfs_unlink_def)
  ultimately show ?thesis using gone j by blast
qed

theorem tmpfs_unlink_orphans_witness:
  "\<exists>s s' j. tmpfs_ok s [] \<and> tmpfs_unlink tmp_env (Some ''d'') s = (Inr (), s') \<and> live_node s' j \<and> (0, j) \<notin> (links s')\<^sup>*"
proof -
  obtain s i j where n: "tmpfs_ok s []" "i \<noteq> 0" "tmpfs_lookup tmp_env (Some ''d'') False False False s = (Inr i, s)"
    "live_node s j" "tn_parent (nodes s ! j) = Some i" using nested_new by blast
  from tmpfs_unlink_orphans [OF n(1,3,2,4,5)] n(1) show ?thesis by blast
qed

end
