(* ===== verification/Spec2Isabelle.thy ===== *)
theory Spec2Isabelle
  imports Kstring Pipe Vmm Dns Tmpops
begin

text \<open>
  Verification of the core services of the inDevOS kernel.

  \<^bold>\<open>The program.\<close> inDevOS is a kernel for x86-64 (\<^verbatim>\<open>src/src\<close>). Five groups of its services are covered here.
  Memory: \<^verbatim>\<open>mem.c\<close> has a bitmap allocator of physical pages, a slab layer on top of it that gives the
  kernel heap \<^verbatim>\<open>kalloc\<close>/\<^verbatim>\<open>kfree\<close>, frames with reference counts for copy-on-write, and four-level page tables
  made of such frames. Strings: \<^verbatim>\<open>string.c\<close>. Pipes: \<^verbatim>\<open>pipe.c\<close>, a table of ring buffers whose storage is a heap block. Network:
  a frame from the card goes through \<^verbatim>\<open>net_thread.c\<close>, \<^verbatim>\<open>net_ethernet.c\<close>, \<^verbatim>\<open>net_arp.c\<close> or \<^verbatim>\<open>net_ip.c\<close> (with
  reassembly) to \<^verbatim>\<open>net_icmp.c\<close> and \<^verbatim>\<open>net_udp.c\<close>, on which the resolver \<^verbatim>\<open>net_dns.c\<close> is a client; datagrams
  to the host itself pass a loopback queue, and datagrams to unresolved addresses wait in a queue that an ARP
  reply releases. Files: \<^verbatim>\<open>tmpfs.c\<close>, the file system in memory that is mounted on \<^verbatim>\<open>/tmp\<close>.

  \<^bold>\<open>Conventions.\<close> A C structure is a record, a static table a list of its length, a null pointer or a
  negative index \<open>None\<close>, and an error number the left of a sum (\<open>res\<close> in \<open>Prelude\<close>). The tables are passed as
  an explicit state; a routine under a lock is one step. Definitions have the names of the C functions, or, where they
  are a loop or a branch of one, a name of their own. Where a C function reads or writes a buffer at a computed place, the model
  checks the place, and \<open>None\<close> (or the bad outcome named in the theory) is an access outside of the buffer: that it does
  not happen is proved. Machine integers are words, or natural numbers with the wrap-around written out. What is not in
  the file at hand is an argument: the memory map of the boot loader, the card and the
  success of allocations in the network stack (\<open>env\<close>), the handlers of TCP, IPv6 and UDP ports
  (\<open>hooks\<close>), the heap, the free pages and the clock below the file system (\<open>tenv\<close>).

  \<^bold>\<open>Theories.\<close>
  \<^item> \<open>Prelude\<close>: word types, errors, the search loop \<open>scan\<close>, block copies, circular indices.
  \<^item> \<open>Kstring\<close> (\<^verbatim>\<open>string.c\<close>): copies stay in bounds and are terminated; \<^verbatim>\<open>kstrtoul\<close> reads the numeral.
  \<^item> \<open>Ring\<close>: circular buffers as lists, and the contracts of queues as locales: \<open>byte_fifo\<close>, \<open>lossy_fifo\<close> and
    \<open>sliding_fifo\<close>, which extends it. \<open>Pipe\<close>, \<open>Ip\<close> (loopback queue) and \<open>Udp\<close> (receive ring) interpret them.
  \<^item> \<open>Pipe\<close> (\<^verbatim>\<open>pipe.c\<close>): every reachable table is well-formed; a pipe is a bounded first-in first-out stream of bytes over
    any sequence of reads and writes; closing the last end frees the buffer once.
  \<^item> \<open>Pmm\<close> (\<^verbatim>\<open>mem.c\<close>, \<^verbatim>\<open>bitmap.h\<close>): the search finds a run of free pages whenever there is one, start-up establishes the
    invariant, and when the bitmap is too small.
  \<^item> \<open>Slab\<close> (\<^verbatim>\<open>mem.c\<close>): blocks in use are disjoint over any sequence of requests and releases, and a bad release has no
    effect. The contract of the heap is the locale \<open>allocator\<close>, interpreted on \<^verbatim>\<open>kalloc\<close> and \<^verbatim>\<open>kfree\<close>.
  \<^item> \<open>Frames\<close> and \<open>Vmm\<close> (\<^verbatim>\<open>mem.c\<close>): a shared frame lives until its last owner has gone; mapping and unmapping change the
    translation of the page named and of no other, also when memory runs out on the way.
  \<^item> \<open>Wire\<close>: byte order and the three checksum routines; what a sender computes a receiver accepts.
  \<^item> \<open>Netstate\<close>: the state of the network stack and its environment. \<open>Arp\<close>, \<open>Ip\<close>, \<open>Arpq\<close>, \<open>Frag\<close>, \<open>Udp\<close>: address
    resolution, transmission, waiting datagrams, reassembly, sockets, with the invariant of each table, what is found in the
    cache, that a reply releases the waiting datagrams, that fragments in any order give the datagram back, and that
    datagrams reach the owner of the port in order.
  \<^item> \<open>Netrx\<close>: ICMP and reception. One round of the service stays in its buffers and returns whatever the card delivers,
    and a datagram or a ping to the host itself arrives.
  \<^item> \<open>Dnscache\<close> and \<open>Dns\<close> (\<^verbatim>\<open>net_dns.c\<close>): the cache, the query and the parser of responses, the loop that waits.
  \<^item> \<open>Tmpdata\<close> (\<^verbatim>\<open>tmpfs.c\<close>, file data): the chunks of an inode as a list of bytes; the contract is the locale
    \<open>byte_file\<close>, interpreted on the inodes. \<open>Tmpfs\<close>: nodes, inodes, paths and the operations. \<open>Tmptree\<close>: the
    invariant of the tree and that its elementary changes keep it. \<open>Tmpops\<close>: every operation as a step on the file system
    and the open handles; the invariant in all reachable states, file contents, creation, renaming, unlinking.

  \<^bold>\<open>Bounds and termination.\<close> All loops of the models are total functions but one. Searches run over tables of the sizes
  of the source (16 cache entries, 1024 nodes, 16384 ephemeral ports). The loop over the loopback queue has the bound
  of 1024 frames that the code has. The waiting loop of the resolver
  is a recursion over the readings of the clock and the frames that arrive meanwhile; it has a result as soon as the readings
  pass the three seconds of the code. The walk to the root in \<^verbatim>\<open>tmpfs_rename\<close> would not end on a cyclic tree; it is a partial
  function whose result \<open>None\<close> is not returning, and that it returns in every well-formed state is proved.

  \<^bold>\<open>Not modelled.\<close> TCP, IPv6, DHCP and local sockets; the card, disk, USB, sound and graphics drivers; the path resolver and the
  mount table of the VFS and the disk file systems; system calls, threads, processes and loading of programs; the
  desktop, the shell and the applications. They are device input and output, clients of the services above, or
  further subsystems of their own size. Of \<^verbatim>\<open>mem.c\<close>, cloning and teardown of address spaces and the batched
  release of ranges are left out. Concurrency below the granularity of a locked routine, flushes of translation
  buffers and log messages are outside of the model.
\<close>

end
